(* ===== verification/Go_Base.thy ===== *)
theory Go_Base
  imports Main "HOL-Library.Sublist"
begin

text \<open>
  Prelude of the development: Go strings and the functions of package \<^verbatim>\<open>strings\<close> that
  the modelled sources call.

  A Go string is a sequence of bytes; here it is a \<^typ>\<open>string\<close>, whose characters are the
  256 byte values. Functions that work rune by rune in Go (\<open>ToUpper\<close>, \<open>TrimSpace\<close>,
  \<open>Fields\<close>) are modelled on bytes: a rune outside ASCII is recognised by its UTF-8
  encoding, which no other rune's encoding contains, so looking for the bytes finds exactly
  the runes. Only the runes that matter are listed: the white space of
  \<open>unicode.IsSpace\<close>, and the four non-ASCII letters whose upper case, lower case or case
  fold is an ASCII letter. Every other non-ASCII rune keeps its bytes under a case mapping;
  Go may replace it by another non-ASCII rune, and the sources only ever compare the result
  with ASCII text.
\<close>

named_theorems go_eval \<open>definitions that evaluate on concrete strings\<close>

section \<open>Bytes\<close>

definition byte :: "char \<Rightarrow> nat" where
  [go_eval]: "byte c = of_char c"

definition is_lower :: "char \<Rightarrow> bool" where
  [go_eval]: "is_lower c \<longleftrightarrow> 97 \<le> byte c \<and> byte c \<le> 122"

definition is_upper :: "char \<Rightarrow> bool" where
  [go_eval]: "is_upper c \<longleftrightarrow> 65 \<le> byte c \<and> byte c \<le> 90"

definition is_digit :: "char \<Rightarrow> bool" where
  [go_eval]: "is_digit c \<longleftrightarrow> 48 \<le> byte c \<and> byte c \<le> 57"

definition is_letter :: "char \<Rightarrow> bool" where
  [go_eval]: "is_letter c \<longleftrightarrow> is_lower c \<or> is_upper c"

definition is_ascii :: "string \<Rightarrow> bool" where
  [go_eval]: "is_ascii s \<longleftrightarrow> (\<forall>c \<in> set s. byte c < 128)"

text \<open>Upper and lower case of one ASCII letter differ in bit 5, the value 32.\<close>

definition upc :: "char \<Rightarrow> char" where
  [go_eval]: "upc c = (if is_lower c
     then (case c of Char b0 b1 b2 b3 b4 b5 b6 b7 \<Rightarrow> Char b0 b1 b2 b3 b4 False b6 b7) else c)"

definition lowc :: "char \<Rightarrow> char" where
  [go_eval]: "lowc c = (if is_upper c
     then (case c of Char b0 b1 b2 b3 b4 b5 b6 b7 \<Rightarrow> Char b0 b1 b2 b3 b4 True b6 b7) else c)"

lemma byte_Char: "byte (Char b0 b1 b2 b3 b4 b5 b6 b7) =
  of_bool b0 + 2 * of_bool b1 + 4 * of_bool b2 + 8 * of_bool b3 + 16 * of_bool b4
  + 32 * of_bool b5 + 64 * of_bool b6 + 128 * of_bool b7"
  by (simp add: byte_def)

lemma byte_eq_iff: "byte c = byte d \<longleftrightarrow> c = d"
  by (simp add: byte_def)

lemma byte_upc: "byte (upc c) = (if is_lower c then byte c - 32 else byte c)"
proof (cases c)
  case (Char b0 b1 b2 b3 b4 b5 b6 b7)
  show ?thesis
    by (cases b5; cases b6; cases b7)
      (auto simp: Char upc_def is_lower_def byte_Char split: if_splits)
qed

lemma byte_lowc: "byte (lowc c) = (if is_upper c then byte c + 32 else byte c)"
proof (cases c)
  case (Char b0 b1 b2 b3 b4 b5 b6 b7)
  show ?thesis
    by (cases b5; cases b6; cases b7)
      (auto simp: Char lowc_def is_upper_def byte_Char split: if_splits)
qed

lemma upc_upc [simp]: "upc (upc c) = upc c"
  by (auto simp: byte_eq_iff [symmetric] byte_upc is_lower_def)

lemma lowc_lowc [simp]: "lowc (lowc c) = lowc c"
  by (auto simp: byte_eq_iff [symmetric] byte_lowc is_upper_def)

lemma upc_lowc [simp]: "upc (lowc c) = upc c"
  by (auto simp: byte_eq_iff [symmetric] byte_lowc byte_upc is_upper_def is_lower_def)

lemma lowc_upc [simp]: "lowc (upc c) = lowc c"
  by (auto simp: byte_eq_iff [symmetric] byte_lowc byte_upc is_upper_def is_lower_def)

text \<open>A character that is not a letter is the upper case of itself only.\<close>

lemma upc_eq_nonletter: "\<not> is_letter d \<Longrightarrow> upc c = d \<longleftrightarrow> c = d"
  by (auto simp: byte_eq_iff [symmetric] byte_upc is_letter_def is_lower_def is_upper_def)

section \<open>Case mapping\<close>

fun case_map :: "(string \<times> char) list \<Rightarrow> (char \<Rightarrow> char) \<Rightarrow> string \<Rightarrow> string" where
  "case_map sp f [] = []"
| "case_map sp f (c # r) =
     (case find (\<lambda>(p, _). prefix p (c # r)) sp of
        Some (p, d) \<Rightarrow> d # case_map sp f (drop (length p - 1) r)
      | None \<Rightarrow> f c # case_map sp f r)"

text \<open>U+017F and U+0131 have the upper cases S and I; U+0130 and U+212A have the lower cases
  i and k; U+017F and U+212A fold with s and k.\<close>

definition to_upper :: "string \<Rightarrow> string" where
  [go_eval]: "to_upper = case_map
     [([CHR 0xC5, CHR 0xBF], CHR ''S''), ([CHR 0xC4, CHR 0xB1], CHR ''I'')] upc"

definition to_lower :: "string \<Rightarrow> string" where
  [go_eval]: "to_lower = case_map
     [([CHR 0xC4, CHR 0xB0], CHR ''i''), ([CHR 0xE2, CHR 0x84, CHR 0xAA], CHR ''k'')] lowc"

definition case_fold :: "string \<Rightarrow> string" where
  [go_eval]: "case_fold = case_map
     [([CHR 0xC5, CHR 0xBF], CHR ''s''), ([CHR 0xE2, CHR 0x84, CHR 0xAA], CHR ''k'')] lowc"

definition equal_fold :: "string \<Rightarrow> string \<Rightarrow> bool" where
  [go_eval]: "equal_fold s t \<longleftrightarrow> case_fold s = case_fold t"

lemma case_map_ascii:
  assumes "\<forall>(p, d) \<in> set sp. \<exists>x p'. p = x # p' \<and> 128 \<le> byte x"
  shows "is_ascii s \<Longrightarrow> case_map sp f s = map f s"
proof (induction s)
  case (Cons c r)
  have "find (\<lambda>(p, _). prefix p (c # r)) sp = None"
    unfolding find_None_iff
    using assms Cons.prems by (fastforce simp: is_ascii_def)
  with Cons show ?case by (simp add: is_ascii_def)
qed simp

lemma to_upper_ascii: "is_ascii s \<Longrightarrow> to_upper s = map upc s"
  and to_lower_ascii: "is_ascii s \<Longrightarrow> to_lower s = map lowc s"
  and case_fold_ascii: "is_ascii s \<Longrightarrow> case_fold s = map lowc s"
  unfolding to_upper_def to_lower_def case_fold_def
  by (rule case_map_ascii; simp add: byte_def)+

text \<open>On ASCII text comparing upper cases and folding are the same comparison.\<close>

lemma map_upc_lowc: "map upc s = map upc t \<longleftrightarrow> map lowc s = map lowc t"
proof
  assume "map upc s = map upc t"
  then have "map lowc (map upc s) = map lowc (map upc t)" by simp
  then show "map lowc s = map lowc t" by (simp add: comp_def)
next
  assume "map lowc s = map lowc t"
  then have "map upc (map lowc s) = map upc (map lowc t)" by simp
  then show "map upc s = map upc t" by (simp add: comp_def)
qed

lemma equal_fold_ascii:
  "is_ascii s \<Longrightarrow> is_ascii t \<Longrightarrow> equal_fold s t \<longleftrightarrow> to_upper s = to_upper t"
  by (simp add: equal_fold_def to_upper_ascii case_fold_ascii map_upc_lowc)

section \<open>White space\<close>

definition ascii_space :: "char \<Rightarrow> bool" where
  [go_eval]: "ascii_space c \<longleftrightarrow> byte c = 32 \<or> (9 \<le> byte c \<and> byte c \<le> 13)"

definition wide_spaces :: "string list" where
  [go_eval]: "wide_spaces =
    [[CHR 0xC2, CHR 0x85], [CHR 0xC2, CHR 0xA0], [CHR 0xE1, CHR 0x9A, CHR 0x80],
     [CHR 0xE2, CHR 0x80, CHR 0x80], [CHR 0xE2, CHR 0x80, CHR 0x81],
     [CHR 0xE2, CHR 0x80, CHR 0x82], [CHR 0xE2, CHR 0x80, CHR 0x83],
     [CHR 0xE2, CHR 0x80, CHR 0x84], [CHR 0xE2, CHR 0x80, CHR 0x85],
     [CHR 0xE2, CHR 0x80, CHR 0x86], [CHR 0xE2, CHR 0x80, CHR 0x87],
     [CHR 0xE2, CHR 0x80, CHR 0x88], [CHR 0xE2, CHR 0x80, CHR 0x89],
     [CHR 0xE2, CHR 0x80, CHR 0x8A], [CHR 0xE2, CHR 0x80, CHR 0xA8],
     [CHR 0xE2, CHR 0x80, CHR 0xA9], [CHR 0xE2, CHR 0x80, CHR 0xAF],
     [CHR 0xE2, CHR 0x81, CHR 0x9F], [CHR 0xE3, CHR 0x80, CHR 0x80]]"

text \<open>The number of bytes of the white-space rune a text starts with, 0 if there is none;
  \<open>ws\<close> lists the wide ones in the direction the text is read.\<close>

fun space_len :: "string list \<Rightarrow> string \<Rightarrow> nat" where
  "space_len ws [] = 0"
| "space_len ws (c # r) =
     (if ascii_space c then 1
      else (case find (\<lambda>w. prefix w (c # r)) ws of Some w \<Rightarrow> length w | None \<Rightarrow> 0))"

function trim_by :: "string list \<Rightarrow> string \<Rightarrow> string" where
  "trim_by ws s = (if space_len ws s = 0 \<or> s = [] then s else trim_by ws (drop (space_len ws s) s))"
  by pat_completeness auto
termination
  by (relation "measure (\<lambda>(ws, s). length s)") auto

declare trim_by.simps [simp del]

definition trim_left :: "string \<Rightarrow> string" where
  [go_eval]: "trim_left s = trim_by wide_spaces s"

definition trim_right :: "string \<Rightarrow> string" where
  [go_eval]: "trim_right s = rev (trim_by (map rev wide_spaces) (rev s))"

definition trim_space :: "string \<Rightarrow> string" where
  [go_eval]: "trim_space s = trim_right (trim_left s)"

lemma trim_by_suffix: "suffix (trim_by ws s) s"
proof (induction ws s rule: trim_by.induct)
  case (1 ws s)
  then show ?case
    by (subst trim_by.simps) (auto intro: suffix_order.trans suffix_drop)
qed

lemma trim_left_suffix: "suffix (trim_left s) s"
  by (simp add: trim_left_def trim_by_suffix)

lemma trim_right_prefix: "prefix (trim_right s) s"
  using trim_by_suffix [of "map rev wide_spaces" "rev s"]
  by (simp add: trim_right_def suffix_to_prefix)

lemma trim_spaceE:
  obtains l r where "s = l @ trim_space s @ r" and "trim_left s = trim_space s @ r"
proof -
  obtain l where l: "s = l @ trim_left s"
    using trim_left_suffix by (rule suffixE)
  obtain r where r: "trim_left s = trim_space s @ r"
    using trim_right_prefix [of "trim_left s"] unfolding trim_space_def by (rule prefixE)
  from l have "s = l @ trim_space s @ r" by (simp only: r)
  with r show ?thesis using that by blast
qed

lemma set_trim_space: "set (trim_space s) \<subseteq> set s"
proof -
  obtain l r where "s = l @ trim_space s @ r" by (rule trim_spaceE)
  then have "set s = set l \<union> set (trim_space s) \<union> set r" by (metis set_append Un_assoc)
  then show ?thesis by blast
qed

text \<open>What trimming removes: ASCII white space and bytes of wide runes.\<close>

definition space_byte :: "char \<Rightarrow> bool" where
  [go_eval]: "space_byte c \<longleftrightarrow> ascii_space c \<or> 128 \<le> byte c"

lemma wide_spaces_bytes: "w \<in> set wide_spaces \<Longrightarrow> c \<in> set w \<Longrightarrow> 128 \<le> byte c"
  by (auto simp: wide_spaces_def byte_def)

lemma space_len_prefix:
  assumes "\<And>w c. w \<in> set ws \<Longrightarrow> c \<in> set w \<Longrightarrow> 128 \<le> byte c"
    and "c \<in> set (take (space_len ws s) s)"
  shows "space_byte c"
proof (cases s)
  case (Cons a r)
  show ?thesis
  proof (cases "ascii_space a")
    case False
    with Cons assms(2) obtain w where w: "find (\<lambda>w. prefix w (a # r)) ws = Some w" and "c \<in> set (take (length w) s)"
      by (auto split: option.splits)
    moreover from w have "w \<in> set ws" "prefix w s"
      using Cons by (auto simp: find_Some_iff)
    ultimately show ?thesis using assms(1) by (auto simp: space_byte_def prefix_def)
  qed (use Cons assms(2) in \<open>simp add: space_byte_def\<close>)
qed (use assms(2) in simp)

lemma trim_by_removes:
  assumes "\<forall>w \<in> set ws. \<forall>c \<in> set w. 128 \<le> byte c"
  shows "\<exists>l. s = l @ trim_by ws s \<and> (\<forall>c \<in> set l. space_byte c)"
proof (induction "length s" arbitrary: s rule: less_induct)
  case less
  show ?case
  proof (cases "space_len ws s = 0 \<or> s = []")
    case True
    then show ?thesis by (subst trim_by.simps) (simp add: True)
  next
    case False
    let ?d = "drop (space_len ws s) s"
    from False have eq: "trim_by ws s = trim_by ws ?d" by (subst trim_by.simps) simp
    from False have "length ?d < length s" by simp
    from less [OF this] obtain l where l: "?d = l @ trim_by ws ?d" "\<forall>c \<in> set l. space_byte c" by blast
    have "s = (take (space_len ws s) s @ l) @ trim_by ws s"
      using l(1) append_take_drop_id [of "space_len ws s" s] by (metis append.assoc eq)
    moreover have "\<forall>c \<in> set (take (space_len ws s) s @ l). space_byte c"
      using l(2) assms space_len_prefix [of ws _ s] by (metis Un_iff set_append)
    ultimately show ?thesis by blast
  qed
qed

lemma trim_space_removes:
  obtains l r where "s = l @ trim_space s @ r"
    and "\<forall>c \<in> set l \<union> set r. space_byte c"
proof -
  obtain l where l: "s = l @ trim_left s" "\<forall>c \<in> set l. space_byte c"
    using trim_by_removes [of wide_spaces s] wide_spaces_bytes by (auto simp: trim_left_def)
  have *: "\<forall>w \<in> set (map rev wide_spaces). \<forall>c \<in> set w. 128 \<le> byte c"
    using wide_spaces_bytes by auto
  from trim_by_removes [of "map rev wide_spaces" "rev (trim_left s)", OF *] obtain r
    where r: "rev (trim_left s) = r @ trim_by (map rev wide_spaces) (rev (trim_left s))"
      "\<forall>c \<in> set r. space_byte c"
    by blast
  from r(1) have "trim_left s = trim_space s @ rev r"
    by (metis rev_append rev_rev_ident trim_right_def trim_space_def)
  with l r(2) that [of l "rev r"] show ?thesis by auto
qed

text \<open>Upper case, one step.\<close>

lemma to_upper_Nil [simp]: "to_upper [] = []"
  by (simp add: to_upper_def)

lemma to_upper_Cons:
  "to_upper (c # r) =
     (if c = CHR 0xC5 \<and> r \<noteq> [] \<and> hd r = CHR 0xBF then CHR ''S'' # to_upper (tl r)
      else if c = CHR 0xC4 \<and> r \<noteq> [] \<and> hd r = CHR 0xB1 then CHR ''I'' # to_upper (tl r)
      else upc c # to_upper r)"
  by (cases r) (auto simp: to_upper_def)

section \<open>Splitting\<close>

text \<open>\<open>strings.FieldsFunc\<close> with a predicate on ASCII: the maximal runs of characters that
  satisfy \<open>p\<close>. A rune outside ASCII never satisfies the predicates used.\<close>

fun fields_by :: "(char \<Rightarrow> bool) \<Rightarrow> string \<Rightarrow> string \<Rightarrow> string list" where
  "fields_by p acc [] = (if acc = [] then [] else [rev acc])"
| "fields_by p acc (c # r) =
     (if p c then fields_by p (c # acc) r
      else (if acc = [] then [] else [rev acc]) @ fields_by p [] r)"

text \<open>\<open>strings.Fields\<close>: the maximal runs between white-space runes.\<close>

function fields_acc :: "string \<Rightarrow> string \<Rightarrow> string list" where
  "fields_acc acc s = (case s of
      [] \<Rightarrow> (if acc = [] then [] else [rev acc])
    | c # r \<Rightarrow> (if space_len wide_spaces s = 0 then fields_acc (c # acc) r
              else (if acc = [] then [] else [rev acc])
                   @ fields_acc [] (drop (space_len wide_spaces s) s)))"
  by pat_completeness auto
termination
  by (relation "measure (\<lambda>(acc, s). length s)") auto

declare fields_acc.simps [simp del]

definition str_fields :: "string \<Rightarrow> string list" where
  [go_eval]: "str_fields s = fields_acc [] s"

text \<open>\<open>strings.Contains\<close>, \<open>strings.IndexByte\<close>-style splitting at the first occurrence
  of a byte, and \<open>strings.Join\<close>.\<close>

fun contains :: "string \<Rightarrow> string \<Rightarrow> bool" where
  "contains sub [] \<longleftrightarrow> sub = []"
| "contains sub (c # r) \<longleftrightarrow> prefix sub (c # r) \<or> contains sub r"

fun cut_at :: "char \<Rightarrow> string \<Rightarrow> (string \<times> string) option" where
  "cut_at d [] = None"
| "cut_at d (c # r) = (if c = d then Some ([], r)
     else map_option (\<lambda>(a, b). (c # a, b)) (cut_at d r))"

fun cut_str :: "string \<Rightarrow> string \<Rightarrow> (string \<times> string) option" where
  "cut_str sub [] = (if sub = [] then Some ([], []) else None)"
| "cut_str sub (c # r) =
     (if prefix sub (c # r) then Some ([], drop (length sub) (c # r))
      else map_option (\<lambda>(a, b). (c # a, b)) (cut_str sub r))"

text \<open>\<open>strings.Split\<close> at a byte, \<open>strings.Count\<close> of a non-empty text, and the order of Go
  strings, which is that of their bytes.\<close>

fun split_at :: "char \<Rightarrow> string \<Rightarrow> string list" where
  "split_at d [] = [[]]"
| "split_at d (c # r) =
     (if c = d then [] # split_at d r
      else (case split_at d r of [] \<Rightarrow> [[c]] | x # xs \<Rightarrow> (c # x) # xs))"

function str_count :: "string \<Rightarrow> string \<Rightarrow> nat" where
  "str_count sub [] = 0"
| "str_count sub (c # r) =
     (if sub \<noteq> [] \<and> prefix sub (c # r) then Suc (str_count sub (drop (length sub) (c # r)))
      else str_count sub r)"
  by pat_completeness auto
termination
  by (relation "measure (\<lambda>(sub, s). length s)") auto

fun str_less :: "string \<Rightarrow> string \<Rightarrow> bool" where
  "str_less s [] \<longleftrightarrow> False"
| "str_less [] (d # t) \<longleftrightarrow> True"
| "str_less (c # s) (d # t) \<longleftrightarrow> byte c < byte d \<or> (c = d \<and> str_less s t)"

fun join :: "string \<Rightarrow> string list \<Rightarrow> string" where
  "join sep [] = []"
| "join sep [x] = x"
| "join sep (x # y # zs) = x @ sep @ join sep (y # zs)"

lemma cut_at_Some: "cut_at d s = Some (a, b) \<longleftrightarrow> s = a @ d # b \<and> d \<notin> set a"
proof (induction s arbitrary: a)
  case (Cons c r)
  then show ?case by (cases a) (auto split: if_splits)
qed simp

lemma cut_at_None: "cut_at d s = None \<longleftrightarrow> d \<notin> set s"
  by (induction s) auto

lemma cut_str_Some: "cut_str sub s = Some (a, b) \<Longrightarrow> s = a @ sub @ b"
proof (induction s arbitrary: a)
  case (Cons c r)
  then show ?case by (auto simp: prefix_def split: if_splits)
qed (simp split: if_splits)

lemma split_at_no_sep: "w \<in> set (split_at d s) \<Longrightarrow> d \<notin> set w"
  by (induction s arbitrary: w) (auto split: if_splits list.splits)

lemma split_at_nonempty [simp]: "split_at d s \<noteq> []"
  by (induction s) (auto split: list.split)

lemma str_less_irrefl [simp]: "\<not> str_less s s"
  by (induction s) auto

lemma str_less_Nil [simp]: "str_less [] s \<longleftrightarrow> s \<noteq> []"
  by (cases s) auto

lemma str_less_linear: "str_less s t \<or> s = t \<or> str_less t s"
  by (induction s t rule: str_less.induct) (auto simp: byte_eq_iff [symmetric])

lemma contains_iff: "contains sub s \<longleftrightarrow> sublist sub s"
  by (induction s) (auto simp: sublist_Cons_right)

lemma fields_by_set:
  "w \<in> set (fields_by p acc s) \<Longrightarrow> (\<forall>c \<in> set acc. p c) \<Longrightarrow> w \<noteq> [] \<and> (\<forall>c \<in> set w. p c)"
  by (induction p acc s rule: fields_by.induct) (auto split: if_splits)

subsection \<open>Fields joined by spaces\<close>

text \<open>No white-space rune starts anywhere in the text.\<close>

fun spaceFree :: "string \<Rightarrow> bool" where
  "spaceFree [] \<longleftrightarrow> True"
| "spaceFree (c # r) \<longleftrightarrow> space_len wide_spaces (c # r) = 0 \<and> spaceFree r"

lemma wide_nonempty: "w \<in> set wide_spaces \<Longrightarrow> w \<noteq> []"
  by (auto simp: wide_spaces_def)

lemma space_len_0: "space_len wide_spaces s = 0 \<longleftrightarrow>
    s = [] \<or> (\<not> ascii_space (hd s) \<and> (\<forall>w \<in> set wide_spaces. \<not> prefix w s))"
proof (cases s)
  case (Cons c r)
  have "(case find (\<lambda>w. prefix w s) wide_spaces of Some w \<Rightarrow> length w | None \<Rightarrow> 0) = 0
      \<longleftrightarrow> (\<forall>w \<in> set wide_spaces. \<not> prefix w s)"
    using wide_nonempty
    by (auto simp: find_None_iff find_Some_iff split: option.split)
  then show ?thesis by (simp add: Cons)
qed simp

lemma space_len_mono: "space_len wide_spaces (u @ k) = 0 \<Longrightarrow> space_len wide_spaces u = 0"
proof (cases u)
  case (Cons c r)
  assume z: "space_len wide_spaces (u @ k) = 0"
  have "\<not> prefix w u" if "w \<in> set wide_spaces" for w
    using z that prefix_prefix [of w u k] by (auto simp: Cons space_len_0 simp del: space_len.simps)
  with z show ?thesis by (simp add: Cons space_len_0 del: space_len.simps)
qed simp

lemma space_len_extend:
  assumes "space_len wide_spaces u = 0" "u \<noteq> []" "byte d < 128"
  shows "space_len wide_spaces (u @ d # k) = 0"
proof -
  have "\<not> prefix w (u @ d # k)" if w: "w \<in> set wide_spaces" for w
  proof
    assume p: "prefix w (u @ d # k)"
    have "d \<notin> set w" using wide_spaces_bytes [OF w] assms(3) by fastforce
    with p have "prefix w u" by (auto simp: prefix_append prefix_Cons)
    with assms(1,2) w show False by (auto simp: space_len_0 simp del: space_len.simps)
  qed
  with assms show ?thesis by (auto simp: space_len_0 simp del: space_len.simps)
qed

lemma spaceFree_iff: "spaceFree w \<longleftrightarrow> (\<forall>u. suffix u w \<and> u \<noteq> [] \<longrightarrow> space_len wide_spaces u = 0)"
  by (induction w) (auto simp: suffix_Cons simp del: space_len.simps)

lemma spaceFree_join:
  "spaceFree u \<Longrightarrow> spaceFree v \<Longrightarrow> byte d < 128 \<Longrightarrow> \<not> ascii_space d \<Longrightarrow> spaceFree (u @ d # v)"
proof (induction u)
  case Nil
  have "\<not> prefix w (d # v)" if w: "w \<in> set wide_spaces" for w
    using wide_spaces_bytes [OF w] wide_nonempty [OF w] Nil(3) by (cases w) fastforce+
  with Nil show ?case by (auto simp: space_len_0 simp del: space_len.simps)
next
  case (Cons c r)
  then have "space_len wide_spaces ((c # r) @ d # v) = 0"
    by (intro space_len_extend) (auto simp del: space_len.simps)
  with Cons show ?case by (simp del: space_len.simps)
qed

lemma spaceFree_appendD: "spaceFree (u @ v) \<Longrightarrow> spaceFree u \<and> spaceFree v"
proof (induction u)
  case (Cons c r)
  then show ?case using space_len_mono [of "c # r" v] by (simp del: space_len.simps)
qed simp

lemma fields_acc_spaceFree:
  assumes "w \<in> set (fields_acc acc s)"
    and "\<forall>u. suffix u (rev acc) \<and> u \<noteq> [] \<longrightarrow> space_len wide_spaces (u @ s) = 0"
  shows "w \<noteq> [] \<and> spaceFree w"
  using assms
proof (induction "length s" arbitrary: acc s rule: less_induct)
  case less
  have acc: "spaceFree (rev acc)"
    using less.prems(2) space_len_mono unfolding spaceFree_iff by blast
  show ?case
  proof (cases s)
    case Nil
    with less.prems(1) acc show ?thesis by (subst (asm) fields_acc.simps) (auto split: if_splits)
  next
    case (Cons c r)
    show ?thesis
    proof (cases "space_len wide_spaces s = 0")
      case True
      with less.prems(1) have w: "w \<in> set (fields_acc (c # acc) r)"
        by (subst (asm) fields_acc.simps) (simp add: Cons del: space_len.simps)
      have "space_len wide_spaces (u @ r) = 0" if u: "suffix u (rev (c # acc))" "u \<noteq> []" for u
      proof -
        from u obtain u' where u': "u = u' @ [c]" "suffix u' (rev acc)"
          by (metis rev.simps(2) suffix_snoc)
        show ?thesis
          using True less.prems(2) u' by (cases "u' = []") (auto simp: Cons simp del: space_len.simps)
      qed
      then have "\<forall>u. suffix u (rev (c # acc)) \<and> u \<noteq> [] \<longrightarrow> space_len wide_spaces (u @ r) = 0" by blast
      from less.hyps [OF _ w this] show ?thesis by (simp add: Cons)
    next
      case False
      with less.prems(1) have "w = rev acc \<and> acc \<noteq> [] \<or> w \<in> set (fields_acc [] (drop (space_len wide_spaces s) s))"
        by (subst (asm) fields_acc.simps) (auto simp: Cons simp del: space_len.simps split: if_splits)
      moreover have "length (drop (space_len wide_spaces s) s) < length s"
        using False by (simp add: Cons del: space_len.simps)
      ultimately show ?thesis using less.hyps [of "drop (space_len wide_spaces s) s" "[]"] acc by auto
    qed
  qed
qed

lemma str_fields_spaceFree: "w \<in> set (str_fields s) \<Longrightarrow> w \<noteq> [] \<and> spaceFree w"
  unfolding str_fields_def by (rule fields_acc_spaceFree) auto

lemma fields_acc_word:
  assumes "spaceFree w" and "rev acc @ w \<noteq> []"
    and "k = [] \<or> hd k = CHR '' ''"
  shows "fields_acc acc (w @ k) = (rev acc @ w) # fields_acc [] k"
  using assms
proof (induction w arbitrary: acc)
  case Nil
  show ?case
  proof (cases k)
    case (Cons d k')
    with Nil have d: "space_len wide_spaces k = 1" by (simp add: ascii_space_def byte_def)
    then have "fields_acc [] k = fields_acc [] (drop 1 k)"
      by (subst fields_acc.simps) (simp add: Cons)
    moreover have "fields_acc acc k = rev acc # fields_acc [] (drop 1 k)"
      using Nil d by (subst fields_acc.simps) (simp add: Cons)
    ultimately show ?thesis by simp
  qed (use Nil in \<open>simp add: fields_acc.simps [of _ "[]"]\<close>)
next
  case (Cons c r)
  have "space_len wide_spaces (c # r @ k) = 0"
  proof (cases k)
    case Nil
    with Cons.prems(1) show ?thesis by (simp del: space_len.simps)
  next
    case k: (Cons d k')
    with Cons.prems(3) have "d = CHR '' ''" by simp
    with Cons.prems(1) space_len_extend [of "c # r" d k'] show ?thesis
      by (simp add: k byte_def del: space_len.simps)
  qed
  then have "fields_acc acc ((c # r) @ k) = fields_acc (c # acc) (r @ k)"
    by (subst fields_acc.simps) (simp del: space_len.simps)
  with Cons.IH [of "c # acc"] Cons.prems show ?case by (simp del: space_len.simps)
qed

lemma fields_acc_space: "fields_acc [] (CHR '' '' # k) = fields_acc [] k"
  by (subst fields_acc.simps) (simp add: ascii_space_def byte_def)

lemma str_fields_join:
  "\<forall>w \<in> set ws. w \<noteq> [] \<and> spaceFree w \<Longrightarrow> str_fields (join '' '' ws) = ws"
proof (induction ws rule: induct_list012)
  case 1
  show ?case by (simp add: str_fields_def fields_acc.simps)
next
  case (2 x)
  then show ?case
    using fields_acc_word [of x "[]" "[]"] by (simp add: str_fields_def fields_acc.simps [of "[]" "[]"])
next
  case (3 x y zs)
  then show ?case
    using fields_acc_word [of x "[]" "CHR '' '' # join '' '' (y # zs)"]
    by (simp add: str_fields_def fields_acc_space)
qed

subsection \<open>Prefixes, suffixes, decimals\<close>

text \<open>\<open>strings.TrimSuffix\<close>, \<open>strings.TrimPrefix\<close>, and the decimal text of a number.\<close>

definition trim_suffix :: "string \<Rightarrow> string \<Rightarrow> string" where
  [go_eval]: "trim_suffix s suf = (if suffix suf s then take (length s - length suf) s else s)"

definition trim_prefix :: "string \<Rightarrow> string \<Rightarrow> string" where
  "trim_prefix s p = (if prefix p s then drop (length p) s else s)"

definition digitChars :: string where "digitChars = ''0123456789''"

fun decimal :: "nat \<Rightarrow> string" where
  "decimal n = (if n < 10 then [digitChars ! n] else decimal (n div 10) @ [digitChars ! (n mod 10)])"

declare decimal.simps [simp del]

lemma decimal_digits: "set (decimal n) \<subseteq> set digitChars"
proof (induction n rule: decimal.induct)
  case (1 n)
  have d: "digitChars ! m \<in> set digitChars" if "m < 10" for m :: nat
    using that by (intro nth_mem) (simp add: digitChars_def)
  show ?case
    by (subst decimal.simps) (use 1 d [of n] d [of "n mod 10"] in simp)
qed

text \<open>A number kept in a signed 64-bit integer.\<close>

definition wrap64 :: "int \<Rightarrow> int" where
  "wrap64 x = (x + 2 ^ 63) mod 2 ^ 64 - 2 ^ 63"

subsection \<open>Trimming twice\<close>

lemma trim_by_fixed: "space_len ws s = 0 \<Longrightarrow> trim_by ws s = s"
  by (subst trim_by.simps) simp

lemma space_len_trim_by: "space_len ws (trim_by ws s) = 0"
proof (induction "length s" arbitrary: s rule: less_induct)
  case less
  show ?case
  proof (cases "space_len ws s = 0 \<or> s = []")
    case True
    then show ?thesis by (subst trim_by.simps) auto
  next
    case False
    then have "trim_by ws s = trim_by ws (drop (space_len ws s) s)" by (subst trim_by.simps) simp
    with less [of "drop (space_len ws s) s"] False show ?thesis by simp
  qed
qed

lemma trim_space_idem: "trim_space (trim_space s) = trim_space s"
proof -
  obtain r where r: "trim_left s = trim_space s @ r"
    using trim_space_removes by (metis prefix_def trim_right_prefix trim_space_def)
  have "space_len wide_spaces (trim_space s) = 0"
    using space_len_trim_by [of wide_spaces s] space_len_mono [of "trim_space s" r] r by (simp add: trim_left_def)
  then have "trim_left (trim_space s) = trim_space s" by (simp add: trim_left_def trim_by_fixed)
  moreover have "trim_right (trim_right x) = trim_right x" for x
    by (simp add: trim_right_def trim_by_fixed space_len_trim_by)
  ultimately show ?thesis by (metis trim_space_def)
qed

lemma filter_length_mono:
  "(\<And>x. x \<in> set xs \<Longrightarrow> P x \<Longrightarrow> Q x) \<Longrightarrow> length (filter P xs) \<le> length (filter Q xs)"
  by (induction xs) (auto simp: le_SucI)

lemmas [go_eval] = trim_by.simps fields_acc.simps

lemmas go_simps = go_eval case_map.simps space_len.simps fields_by.simps contains.simps
  cut_at.simps

end
