(* ===== verification/Sql_Lexer.thy ===== *)
theory Sql_Lexer
  imports Go_Base
begin

text \<open>
  The shared SQL scanner of \<^verbatim>\<open>sql_scan.go\<close>: the byte kinds, the byte sources,
  \<open>scanSQLFrom\<close> with its visitor callback, and the two strippers built on it.

  A visitor is a Go closure: it takes the state it captures, a byte and the byte's kind, and
  returns an error or nothing together with the new state. The scan stops at the first error.
  The specification is a finite automaton (\<open>lex_step\<close>, \<open>classify\<close>) that gives each byte
  its kind with one byte of lookahead; the scan is shown to be the visitor run over that
  classification.
\<close>

section \<open>Byte kinds and sources\<close>

datatype sqlByteKind =
    SqlCode | SqlInSingleQuote | SqlInDoubleQuote | SqlInBracket | SqlInBacktick
  | SqlInLineComment | SqlInBlockComment

fun quoted :: "sqlByteKind \<Rightarrow> bool" where
  "quoted SqlInSingleQuote = True"
| "quoted SqlInDoubleQuote = True"
| "quoted SqlInBracket = True"
| "quoted SqlInBacktick = True"
| "quoted _ = False"

definition comment_kind :: "sqlByteKind \<Rightarrow> bool" where
  [go_eval]: "comment_kind k \<longleftrightarrow> k = SqlInLineComment \<or> k = SqlInBlockComment"

fun peekIsNext :: "string \<Rightarrow> char \<Rightarrow> bool" where
  "peekIsNext [] want = False"
| "peekIsNext (b # _) want = (b = want)"

text \<open>A reader delivers its bytes and then either ends (\<open>None\<close>) or fails.\<close>

record 'e sqlReader =
  reader_bytes :: string
  reader_fails :: "'e option"

type_synonym ('s, 'e) visitor = "'s \<Rightarrow> char \<Rightarrow> sqlByteKind \<Rightarrow> 'e option \<times> 's"

section \<open>The scan\<close>

text \<open>The inner loops of \<open>scanSQLFrom\<close> return the visitor's error, what is left of the
  source, and the visitor's state.\<close>

fun consumeQuoted ::
  "('s, 'e) visitor \<Rightarrow> sqlByteKind \<Rightarrow> char \<Rightarrow> string \<Rightarrow> 's \<Rightarrow> 'e option \<times> string \<times> 's" where
  "consumeQuoted visit kind closeByte [] st = (None, [], st)"
| "consumeQuoted visit kind closeByte (b # r) st =
     (case visit st b kind of
        (Some e, st') \<Rightarrow> (Some e, r, st')
      | (None, st') \<Rightarrow> (if b = closeByte then (None, r, st')
                      else consumeQuoted visit kind closeByte r st'))"

fun consumeLineComment :: "('s, 'e) visitor \<Rightarrow> string \<Rightarrow> 's \<Rightarrow> 'e option \<times> string \<times> 's" where
  "consumeLineComment visit [] st = (None, [], st)"
| "consumeLineComment visit (nc # r) st =
     (if nc = CHR 0x0A then
        (case visit st nc SqlCode of (e, st') \<Rightarrow> (e, r, st'))
      else
        (case visit st nc SqlInLineComment of
           (Some e, st') \<Rightarrow> (Some e, r, st')
         | (None, st') \<Rightarrow> consumeLineComment visit r st'))"

fun consumeBlockComment :: "('s, 'e) visitor \<Rightarrow> string \<Rightarrow> 's \<Rightarrow> 'e option \<times> string \<times> 's" where
  "consumeBlockComment visit [] st = (None, [], st)"
| "consumeBlockComment visit (nc # r) st =
     (if nc = CHR ''*'' \<and> peekIsNext r CHR ''/'' then
        (case visit st nc SqlInBlockComment of
           (Some e, st') \<Rightarrow> (Some e, r, st')
         | (None, st') \<Rightarrow>
             (case r of
                [] \<Rightarrow> (None, [], st')
              | slash # r' \<Rightarrow>
                  (case visit st' slash SqlInBlockComment of (e, st'') \<Rightarrow> (e, r', st''))))
      else
        (case visit st nc SqlInBlockComment of
           (Some e, st') \<Rightarrow> (Some e, r, st')
         | (None, st') \<Rightarrow> consumeBlockComment visit r st'))"

lemma consumeQuoted_length:
  "consumeQuoted visit kind cl s st = (e, rest, st') \<Longrightarrow> length rest \<le> length s"
  by (induction s arbitrary: st)
    (auto split: prod.splits option.splits if_splits intro: le_SucI)

lemma consumeLineComment_length:
  "consumeLineComment visit s st = (e, rest, st') \<Longrightarrow> length rest \<le> length s"
  by (induction s arbitrary: st)
    (auto split: prod.splits option.splits if_splits intro: le_SucI)

lemma consumeBlockComment_length:
  "consumeBlockComment visit s st = (e, rest, st') \<Longrightarrow> length rest \<le> length s"
  by (induction s arbitrary: st)
    (auto split: prod.splits option.splits if_splits list.splits intro: le_SucI)

text \<open>The quote that opens at a byte, with its kind and closing byte.\<close>

fun quoteOpen :: "char \<Rightarrow> (sqlByteKind \<times> char) option" where
  "quoteOpen c =
     (if c = CHR 0x27 then Some (SqlInSingleQuote, CHR 0x27)
      else if c = CHR 0x22 then Some (SqlInDoubleQuote, CHR 0x22)
      else if c = CHR ''['' then Some (SqlInBracket, CHR '']'')
      else if c = CHR 0x60 then Some (SqlInBacktick, CHR 0x60)
      else None)"

function scanSQLFrom :: "('s, 'e) visitor \<Rightarrow> string \<Rightarrow> 's \<Rightarrow> 'e option \<times> 's" where
  "scanSQLFrom visit [] st = (None, st)"
| "scanSQLFrom visit (c # r) st =
     (case quoteOpen c of
        Some (kind, closeByte) \<Rightarrow>
          (case visit st c kind of
             (Some e, st1) \<Rightarrow> (Some e, st1)
           | (None, st1) \<Rightarrow>
               (case consumeQuoted visit kind closeByte r st1 of
                  (Some e, _, st2) \<Rightarrow> (Some e, st2)
                | (None, r2, st2) \<Rightarrow> scanSQLFrom visit r2 st2))
      | None \<Rightarrow>
          if c = CHR ''-'' \<and> peekIsNext r CHR ''-'' then
            (case visit st c SqlInLineComment of
               (Some e, st1) \<Rightarrow> (Some e, st1)
             | (None, st1) \<Rightarrow>
                 (case consumeLineComment visit r st1 of
                    (Some e, _, st2) \<Rightarrow> (Some e, st2)
                  | (None, r2, st2) \<Rightarrow> scanSQLFrom visit r2 st2))
          else if c = CHR ''/'' \<and> peekIsNext r CHR ''*'' then
            (case visit st c SqlInBlockComment of
               (Some e, st1) \<Rightarrow> (Some e, st1)
             | (None, st1) \<Rightarrow>
                 (case r of
                    [] \<Rightarrow> (None, st1)
                  | star # r1 \<Rightarrow>
                      (case visit st1 star SqlInBlockComment of
                         (Some e, st2) \<Rightarrow> (Some e, st2)
                       | (None, st2) \<Rightarrow>
                           (case consumeBlockComment visit r1 st2 of
                              (Some e, _, st3) \<Rightarrow> (Some e, st3)
                            | (None, r3, st3) \<Rightarrow> scanSQLFrom visit r3 st3))))
          else
            (case visit st c SqlCode of
               (Some e, st1) \<Rightarrow> (Some e, st1)
             | (None, st1) \<Rightarrow> scanSQLFrom visit r st1))"
  by pat_completeness auto
termination
  by (relation "measure (\<lambda>(visit, s, st). length s)")
    (auto dest!: consumeQuoted_length [OF sym] consumeLineComment_length [OF sym]
      consumeBlockComment_length [OF sym] simp: less_Suc_eq_le)

text \<open>\<open>scanSQL\<close> reads from a reader and reports a read error once the bytes are used up;
  \<open>scanSQLBytes\<close> walks a string.\<close>

definition scanSQL :: "('s, 'e) visitor \<Rightarrow> 'e sqlReader \<Rightarrow> 's \<Rightarrow> 'e option \<times> 's" where
  [go_eval]: "scanSQL visit r st =
     (case scanSQLFrom visit (reader_bytes r) st of
        (Some e, st') \<Rightarrow> (Some e, st')
      | (None, st') \<Rightarrow> (reader_fails r, st'))"

definition scanSQLBytes :: "string \<Rightarrow> ('s, 'e) visitor \<Rightarrow> 's \<Rightarrow> 'e option \<times> 's" where
  [go_eval]: "scanSQLBytes s visit st = scanSQLFrom visit s st"

section \<open>The classification\<close>

datatype lex_mode = InCode | InQuote sqlByteKind char | InLine | AtStar | InBlock | AtSlash

definition lex_step :: "lex_mode \<Rightarrow> char \<Rightarrow> string \<Rightarrow> sqlByteKind \<times> lex_mode" where
  "lex_step m c r = (case m of
     InCode \<Rightarrow>
       (case quoteOpen c of
          Some (k, cl) \<Rightarrow> (k, InQuote k cl)
        | None \<Rightarrow>
            if c = CHR ''-'' \<and> peekIsNext r CHR ''-'' then (SqlInLineComment, InLine)
            else if c = CHR ''/'' \<and> peekIsNext r CHR ''*'' then (SqlInBlockComment, AtStar)
            else (SqlCode, InCode))
   | InQuote k cl \<Rightarrow> (k, if c = cl then InCode else m)
   | InLine \<Rightarrow> if c = CHR 0x0A then (SqlCode, InCode) else (SqlInLineComment, InLine)
   | AtStar \<Rightarrow> (SqlInBlockComment, InBlock)
   | InBlock \<Rightarrow> (SqlInBlockComment,
       if c = CHR ''*'' \<and> peekIsNext r CHR ''/'' then AtSlash else InBlock)
   | AtSlash \<Rightarrow> (SqlInBlockComment, InCode))"

fun cls :: "lex_mode \<Rightarrow> string \<Rightarrow> (char \<times> sqlByteKind) list" where
  "cls m [] = []"
| "cls m (c # r) = (case lex_step m c r of (k, m') \<Rightarrow> (c, k) # cls m' r)"

fun mode_after :: "lex_mode \<Rightarrow> string \<Rightarrow> lex_mode" where
  "mode_after m [] = m"
| "mode_after m (c # r) = mode_after (snd (lex_step m c r)) r"

definition classify :: "string \<Rightarrow> (char \<times> sqlByteKind) list" where
  "classify s = cls InCode s"

fun visit_all :: "('s, 'e) visitor \<Rightarrow> (char \<times> sqlByteKind) list \<Rightarrow> 's \<Rightarrow> 'e option \<times> 's" where
  "visit_all visit [] st = (None, st)"
| "visit_all visit ((b, k) # xs) st =
     (case visit st b k of
        (Some e, st') \<Rightarrow> (Some e, st')
      | (None, st') \<Rightarrow> visit_all visit xs st')"

lemma cls_bytes [simp]: "map fst (cls m s) = s"
  by (induction m s rule: cls.induct) (auto split: prod.splits)

lemma length_cls [simp]: "length (cls m s) = length s"
  by (metis cls_bytes length_map)

text \<open>A visitor that never fails is a fold.\<close>

definition total_visitor :: "('s, 'e) visitor \<Rightarrow> bool" where
  "total_visitor v \<longleftrightarrow> (\<forall>st c k. fst (v st c k) = None)"

lemma visit_all_fold:
  "total_visitor v \<Longrightarrow> visit_all v xs st = (None, fold (\<lambda>(c, k) st. snd (v st c k)) xs st)"
proof (induction xs arbitrary: st)
  case (Cons x xs)
  obtain c k where x: "x = (c, k)" by (cases x)
  obtain e st' where v: "v st c k = (e, st')" by (cases "v st c k")
  with Cons.prems have "e = None" by (metis fst_conv total_visitor_def)
  with v Cons show ?case by (simp add: x)
qed simp

lemma visit_consumeQuoted:
  "visit_all v (cls (InQuote k cl) s) st =
    (case consumeQuoted v k cl s st of
       (Some e, _, st') \<Rightarrow> (Some e, st')
     | (None, r, st') \<Rightarrow> visit_all v (cls InCode r) st')"
  by (induction s arbitrary: st) (auto simp: lex_step_def split: prod.splits option.splits)

lemma visit_consumeLineComment:
  "visit_all v (cls InLine s) st =
    (case consumeLineComment v s st of
       (Some e, _, st') \<Rightarrow> (Some e, st')
     | (None, r, st') \<Rightarrow> visit_all v (cls InCode r) st')"
  by (induction s arbitrary: st) (auto simp: lex_step_def split: prod.splits option.splits)

lemma visit_consumeBlockComment:
  "visit_all v (cls InBlock s) st =
    (case consumeBlockComment v s st of
       (Some e, _, st') \<Rightarrow> (Some e, st')
     | (None, r, st') \<Rightarrow> visit_all v (cls InCode r) st')"
proof (induction s arbitrary: st)
  case (Cons a s)
  show ?case
  proof (cases "a = CHR ''*'' \<and> peekIsNext s CHR ''/''")
    case True
    then obtain r where "s = CHR ''/'' # r" by (cases s) auto
    with True show ?thesis
      by (simp add: lex_step_def split: prod.split option.split)
  next
    case False
    then have "cls InBlock (a # s) = (a, SqlInBlockComment) # cls InBlock s"
      by (auto simp: lex_step_def)
    moreover have "consumeBlockComment v (a # s) st = (case v st a SqlInBlockComment of
        (Some e, st') \<Rightarrow> (Some e, s, st') | (None, st') \<Rightarrow> consumeBlockComment v s st')"
      by (simp only: consumeBlockComment.simps False if_False)
    ultimately show ?thesis
      by (simp add: Cons.IH del: cls.simps consumeBlockComment.simps split: prod.split option.split)
  qed
qed simp

lemma scanSQLFrom_visit_all: "scanSQLFrom v s st = visit_all v (classify s) st"
  unfolding classify_def
proof (induction v s st rule: scanSQLFrom.induct)
  case (2 v c r st)
  show ?case
  proof (cases "quoteOpen c")
    case (Some q)
    obtain k cl where q: "q = (k, cl)" by (cases q)
    show ?thesis
      using "2.IH"(4) [OF Some] q
      by (simp add: lex_step_def Some visit_consumeQuoted
          del: quoteOpen.simps split: prod.split option.split)
  next
    case None
    consider (line) "c = CHR ''-'' \<and> peekIsNext r CHR ''-''"
      | (block) r1 where "c = CHR ''/''" "r = CHR ''*'' # r1"
      | (code) "\<not> (c = CHR ''-'' \<and> peekIsNext r CHR ''-'')" "\<not> (c = CHR ''/'' \<and> peekIsNext r CHR ''*'')"
      by (cases r) auto
    then show ?thesis
    proof cases
      case line
      then show ?thesis
        using "2.IH"(1) [OF None line]
        by (simp add: lex_step_def visit_consumeLineComment split: prod.split option.split)
    next
      case block
      then show ?thesis
        using "2.IH"(2) [OF None]
        by (simp add: lex_step_def visit_consumeBlockComment split: prod.split option.split)
    next
      case code
      have scan: "scanSQLFrom v (c # r) st = (case v st c SqlCode of
            (Some e, st1) \<Rightarrow> (Some e, st1) | (None, st1) \<Rightarrow> scanSQLFrom v r st1)"
        by (simp only: scanSQLFrom.simps None option.case code if_False)
      have step: "cls InCode (c # r) = (c, SqlCode) # cls InCode r"
        by (simp only: cls.simps lex_step_def lex_mode.case None option.case code if_False prod.case)
      from "2.IH"(3) [OF None code] show ?thesis
        by (simp add: scan step del: cls.simps scanSQLFrom.simps split: prod.split option.split)
    qed
  qed
qed simp

section \<open>Classifying a concatenation\<close>

text \<open>Two texts can be classified one after the other unless a comment delimiter spans the
  boundary.\<close>

definition joinFree :: "string \<Rightarrow> string \<Rightarrow> bool" where
  "joinFree a b \<longleftrightarrow> a = [] \<or> b = [] \<or> last a \<notin> {CHR ''-'', CHR ''/'', CHR ''*''}
     \<or> hd b \<notin> {CHR ''-'', CHR ''/'', CHR ''*''}"

lemma peekIsNext_append: "peekIsNext (a @ b) c = (if a = [] then peekIsNext b c else peekIsNext a c)"
  by (cases a) auto

lemma peekIsNext_hd: "peekIsNext s c \<longleftrightarrow> s \<noteq> [] \<and> hd s = c"
  by (cases s) auto

lemma lex_step_cong:
  assumes "\<And>x. c \<in> {CHR ''-'', CHR ''/'', CHR ''*''} \<Longrightarrow> x \<in> {CHR ''-'', CHR ''/'', CHR ''*''} \<Longrightarrow>
    peekIsNext r x = peekIsNext r' x"
  shows "lex_step m c r = lex_step m c r'"
  using assms by (cases m) (auto simp: lex_step_def split: option.split)

lemma lex_step_append: "joinFree (c # a) b \<Longrightarrow> lex_step m c (a @ b) = lex_step m c a"
  by (rule lex_step_cong) (cases a; auto simp: joinFree_def peekIsNext_hd split: if_splits)

lemma joinFree_Cons: "joinFree (c # a) b \<Longrightarrow> joinFree a b"
  by (auto simp: joinFree_def)

lemma cls_append: "joinFree a b \<Longrightarrow> cls m (a @ b) = cls m a @ cls (mode_after m a) b"
  by (induction a arbitrary: m)
    (auto simp: lex_step_append dest: joinFree_Cons split: prod.splits)

lemma mode_after_append:
  "joinFree a b \<Longrightarrow> mode_after m (a @ b) = mode_after (mode_after m a) b"
  by (induction a arbitrary: m) (auto simp: lex_step_append dest: joinFree_Cons)

section \<open>Strippers\<close>

definition stripSQLLiterals :: "string \<Rightarrow> string" where
  [go_eval]: "stripSQLLiterals s = snd (scanSQLBytes s
     (\<lambda>b c kind. (None :: unit option, b @ [if quoted kind then CHR '' '' else c])) [])"

record stripState =
  strip_out :: string
  inBlockComment :: bool
  prevByte :: char

definition stripVisit :: "(stripState, unit) visitor" where
  [go_eval]: "stripVisit st c kind =
     (if kind = SqlInLineComment then (None, st\<lparr>prevByte := c\<rparr>)
      else if kind = SqlInBlockComment then
        (None, (if prevByte st = CHR ''*'' \<and> c = CHR ''/''
           then st\<lparr>strip_out := strip_out st @ '' '', inBlockComment := False, prevByte := c\<rparr>
           else st\<lparr>inBlockComment := True, prevByte := c\<rparr>))
      else (None, st\<lparr>strip_out := strip_out st @ [c], inBlockComment := False, prevByte := c\<rparr>))"

definition stripFinish :: "stripState \<Rightarrow> string" where
  [go_eval]: "stripFinish st = strip_out st @ (if inBlockComment st then '' '' else [])"

definition stripSQLComments :: "string \<Rightarrow> string" where
  [go_eval]: "stripSQLComments sql =
     stripFinish (snd (scanSQLBytes sql stripVisit
       \<lparr>strip_out = [], inBlockComment = False, prevByte = CHR 0x00\<rparr>))"

subsection \<open>Blanking quoted regions\<close>

lemma visit_all_append_map:
  "visit_all (\<lambda>b c k. (None, b @ [f c k])) xs st = (None, st @ map (\<lambda>(c, k). f c k) xs)"
  by (induction xs arbitrary: st) auto

lemma stripSQLLiterals_map:
  "stripSQLLiterals s = map (\<lambda>(c, k). if quoted k then CHR '' '' else c) (classify s)"
  by (simp add: stripSQLLiterals_def scanSQLBytes_def scanSQLFrom_visit_all visit_all_append_map)

subsection \<open>Removing comments\<close>

text \<open>What the visitor writes, with the kind each written byte has. The mode is the lexer's;
  \<open>inb\<close> and \<open>p\<close> are the visitor's flag and previous byte.\<close>

fun strip_emit :: "lex_mode \<Rightarrow> bool \<Rightarrow> char \<Rightarrow> string \<Rightarrow> (char \<times> sqlByteKind) list" where
  "strip_emit m inb p [] = (if inb then [(CHR '' '', SqlCode)] else [])"
| "strip_emit m inb p (c # r) = (case lex_step m c r of (k, m') \<Rightarrow>
     if k = SqlInLineComment then strip_emit m' inb c r
     else if k = SqlInBlockComment then
       (if p = CHR ''*'' \<and> c = CHR ''/'' then (CHR '' '', SqlCode) # strip_emit m' False c r
        else strip_emit m' True c r)
     else (c, k) # strip_emit m' False c r)"

lemma total_stripVisit: "total_visitor stripVisit"
  by (simp add: total_visitor_def stripVisit_def)

lemma strip_visit_emit:
  "stripFinish (fold (\<lambda>(c, k) st. snd (stripVisit st c k)) (cls m s) st)
   = strip_out st @ map fst (strip_emit m (inBlockComment st) (prevByte st) s)"
proof (induction s arbitrary: m st)
  case (Cons c r)
  obtain k m' where step: "lex_step m c r = (k, m')" by (cases "lex_step m c r")
  show ?case
    by (simp add: step Cons.IH) (simp add: stripVisit_def)
qed (simp add: stripFinish_def)

lemma stripSQLComments_emit:
  "stripSQLComments s = map fst (strip_emit InCode False (CHR 0x00) s)"
  by (simp add: stripSQLComments_def scanSQLBytes_def scanSQLFrom_visit_all visit_all_fold total_stripVisit classify_def strip_visit_emit)

text \<open>The mode the written text is in: comments are written as code.\<close>

fun out_mode :: "lex_mode \<Rightarrow> lex_mode" where
  "out_mode (InQuote k cl) = InQuote k cl"
| "out_mode _ = InCode"

definition quote_mode :: "lex_mode \<Rightarrow> bool" where
  "quote_mode m \<longleftrightarrow> (case m of InQuote k _ \<Rightarrow> quoted k | _ \<Rightarrow> True)"

lemma quoteOpen_quoted: "quoteOpen c = Some (k, cl) \<Longrightarrow> quoted k"
  by (auto split: if_splits)

lemma quote_mode_step: "quote_mode m \<Longrightarrow> quote_mode (snd (lex_step m c r))"
  by (cases m) (auto simp: quote_mode_def lex_step_def simp del: quoteOpen.simps
      dest: quoteOpen_quoted split: option.split)

text \<open>Inside a comment the next byte written, if any, is a space or the newline that ends a
  line comment. The modes that follow a lookahead know the byte that comes.\<close>

definition comment_mode :: "lex_mode \<Rightarrow> bool" where
  "comment_mode m \<longleftrightarrow> m \<in> {InLine, AtStar, InBlock, AtSlash}"

definition at_ok :: "lex_mode \<Rightarrow> char \<Rightarrow> string \<Rightarrow> bool" where
  "at_ok m p s \<longleftrightarrow> (m = AtStar \<longrightarrow> peekIsNext s CHR ''*'')
     \<and> (m = AtSlash \<longrightarrow> p = CHR ''*'' \<and> peekIsNext s CHR ''/'')"

lemma at_ok_step: "at_ok (snd (lex_step m c r)) c r"
  by (cases m) (auto simp: at_ok_def lex_step_def simp del: quoteOpen.simps split: option.split)

lemma strip_emit_comment_hd:
  "comment_mode m \<Longrightarrow> at_ok m p s \<Longrightarrow>
   strip_emit m inb p s = [] \<or> fst (hd (strip_emit m inb p s)) \<in> {CHR '' '', CHR 0x0A}"
proof (induction s arbitrary: m inb p)
  case (Cons c r)
  obtain k m' where step: "lex_step m c r = (k, m')" by (cases "lex_step m c r")
  have ok: "at_ok m' c r" using at_ok_step [of m c r] by (simp add: step)
  have IH: "comment_mode m' \<Longrightarrow> strip_emit m' inb' c r = [] \<or>
      fst (hd (strip_emit m' inb' c r)) \<in> {CHR '' '', CHR 0x0A}" for inb'
    using Cons.IH ok by blast
  have "k = SqlCode \<Longrightarrow> c = CHR 0x0A"
    and "k = SqlCode \<or> comment_kind k"
    and "k = SqlInLineComment \<Longrightarrow> comment_mode m'"
    and "k = SqlInBlockComment \<Longrightarrow> p = CHR ''*'' \<and> c = CHR ''/'' \<or> comment_mode m'"
    using Cons.prems step
    by (auto simp: comment_mode_def lex_step_def at_ok_def comment_kind_def split: if_splits)
  then show ?case
    using IH by (auto simp: step comment_kind_def)
qed simp

lemma strip_emit_code_hd:
  "strip_emit InCode False p s = [] \<or> fst (hd (strip_emit InCode False p s)) \<in> {CHR '' '', CHR 0x0A}
   \<or> peekIsNext s (fst (hd (strip_emit InCode False p s)))"
proof (cases s)
  case (Cons c r)
  obtain k m' where step: "lex_step InCode c r = (k, m')" by (cases "lex_step InCode c r")
  have ok: "at_ok m' c r" using at_ok_step [of InCode c r] by (simp add: step)
  have "comment_kind k \<Longrightarrow> comment_mode m'"
    using step quoteOpen_quoted [of c]
    by (auto simp: lex_step_def comment_kind_def comment_mode_def simp del: quoteOpen.simps
        split: option.splits if_splits)
  with strip_emit_comment_hd [OF _ ok] Cons step show ?thesis
    by (auto simp: comment_kind_def)
qed simp

lemma lex_step_plain: "c \<notin> {CHR 0x27, CHR 0x22, CHR ''['', CHR 0x60, CHR ''-'', CHR ''/''} \<Longrightarrow>
    lex_step InCode c r = (SqlCode, InCode)"
  by (simp add: lex_step_def)

definition emit_ok :: "lex_mode \<Rightarrow> bool \<Rightarrow> char \<Rightarrow> string \<Rightarrow> bool" where
  "emit_ok m inb p s \<longleftrightarrow> quote_mode m \<and> at_ok m p s \<and> (inb \<longrightarrow> m \<in> {AtStar, InBlock, AtSlash})"

text \<open>The stripped text is classified exactly as it was written: no quote and no comment opens
  or closes anywhere else.\<close>

lemma strip_emit_classified:
  "emit_ok m inb p s \<Longrightarrow>
   cls (out_mode m) (map fst (strip_emit m inb p s)) = strip_emit m inb p s"
proof (induction s arbitrary: m inb p)
  case Nil
  then show ?case by (auto simp: emit_ok_def lex_step_plain)
next
  case (Cons c r)
  obtain k m' where step: "lex_step m c r = (k, m')" by (cases "lex_step m c r")
  have qm: "quote_mode m'" and ok: "at_ok m' c r"
    using quote_mode_step [of m c r] at_ok_step [of m c r] Cons.prems
    by (simp_all add: step emit_ok_def)
  have IH: "(inb' \<longrightarrow> m' \<in> {AtStar, InBlock, AtSlash}) \<Longrightarrow>
      cls (out_mode m') (map fst (strip_emit m' inb' c r)) = strip_emit m' inb' c r" for inb'
    using Cons.IH qm ok by (simp add: emit_ok_def)
  consider (quote) "quoted k" | (line) "k = SqlInLineComment" | (block) "k = SqlInBlockComment"
    | (code) "k = SqlCode" by (cases k) auto
  then show ?case
  proof cases
    case quote
    with step Cons.prems have "out_mode m = m" "out_mode m' = m'"
      and "lex_step m c x = (k, m')" for x
      by (cases m; auto simp: lex_step_def emit_ok_def simp del: quoteOpen.simps
          split: option.splits if_splits)+
    then show ?thesis using quote IH [of False] by (auto simp: step split: if_splits)
  next
    case line
    with step Cons.prems have "out_mode m = InCode" "out_mode m' = InCode" "\<not> inb"
      by (cases m; auto simp: lex_step_def emit_ok_def quote_mode_def simp del: quoteOpen.simps
          split: option.splits if_splits dest: quoteOpen_quoted)+
    then show ?thesis using line IH [of False] by (simp add: step)
  next
    case block
    with step Cons.prems
    have "out_mode m = InCode" "out_mode m' = InCode"
      and "p = CHR ''*'' \<and> c = CHR ''/'' \<or> m' \<in> {AtStar, InBlock, AtSlash}"
      by (cases m; auto simp: lex_step_def emit_ok_def quote_mode_def at_ok_def
          simp del: quoteOpen.simps split: option.splits if_splits dest: quoteOpen_quoted)+
    then show ?thesis using block IH [of False] IH [of True]
      by (auto simp: step lex_step_plain)
  next
    case code
    with step Cons.prems have mode: "out_mode m = InCode" "m' = InCode"
      and plain: "m = InCode \<or> c = CHR 0x0A"
      by (cases m; auto simp: lex_step_def emit_ok_def quote_mode_def simp del: quoteOpen.simps
          split: option.splits if_splits dest: quoteOpen_quoted)+
    have "lex_step InCode c (map fst (strip_emit InCode False c r)) = (SqlCode, InCode)"
    proof (cases "m = InCode")
      case True
      with step code mode strip_emit_code_hd [of c r] show ?thesis
        by (auto simp: lex_step_def peekIsNext_hd hd_map simp del: quoteOpen.simps
            split: option.splits if_splits dest: quoteOpen_quoted)
    qed (use plain in \<open>simp add: lex_step_plain\<close>)
    then show ?thesis using mode code IH [of False] by (simp add: step)
  qed
qed

lemma classify_stripSQLComments:
  "classify (stripSQLComments s) = strip_emit InCode False (CHR 0x00) s"
  using strip_emit_classified [of InCode False "CHR 0x00" s]
  by (simp add: stripSQLComments_emit classify_def emit_ok_def quote_mode_def at_ok_def)

lemma strip_emit_filter:
  assumes "\<not> P (CHR '' '', SqlCode)" and "\<And>c k. comment_kind k \<Longrightarrow> \<not> P (c, k)"
  shows "filter P (strip_emit m inb p s) = filter P (cls m s)"
proof (induction s arbitrary: m inb p)
  case (Cons c r)
  obtain k m' where step: "lex_step m c r = (k, m')" by (cases "lex_step m c r")
  with Cons.IH assms show ?case by (simp add: comment_kind_def)
qed (simp add: assms)

lemma strip_emit_no_comment:
  "x \<in> set (strip_emit m inb p s) \<Longrightarrow> \<not> comment_kind (snd x)"
proof (induction s arbitrary: m inb p)
  case (Cons c r)
  obtain k m' where step: "lex_step m c r = (k, m')" by (cases "lex_step m c r")
  with Cons show ?case
    by (cases k) (auto simp: comment_kind_def split: if_splits)
qed (simp add: comment_kind_def split: if_splits)

lemma strip_emit_id:
  "\<forall>x \<in> set (cls m s). \<not> comment_kind (snd x) \<Longrightarrow> strip_emit m False p s = cls m s"
proof (induction s arbitrary: m p)
  case (Cons c r)
  obtain k m' where step: "lex_step m c r = (k, m')" by (cases "lex_step m c r")
  with Cons.prems have "\<not> comment_kind k" and "\<forall>x \<in> set (cls m' r). \<not> comment_kind (snd x)"
    by simp_all
  with Cons.IH show ?case by (simp add: step comment_kind_def)
qed simp

lemma stripSQLComments_no_comment:
  "x \<in> set (classify (stripSQLComments s)) \<Longrightarrow> \<not> comment_kind (snd x)"
  by (auto simp: classify_stripSQLComments dest: strip_emit_no_comment)

lemma stripSQLComments_id:
  "\<forall>x \<in> set (classify s). \<not> comment_kind (snd x) \<Longrightarrow> stripSQLComments s = s"
  by (simp add: stripSQLComments_emit classify_def strip_emit_id)

section \<open>Properties\<close>

text \<open>The streaming scan with its callback is the callback run over a classification that
  gives every byte of the input exactly one kind, in order, and stops at the first callback
  error: no byte is skipped, repeated or delivered out of order.\<close>

theorem scanSQLFrom_classifies:
  "scanSQLFrom v s st = visit_all v (classify s) st \<and> map fst (classify s) = s"
  by (simp add: scanSQLFrom_visit_all) (simp add: classify_def)

text \<open>Comment stripping removes every comment and nothing else: the stripped text, scanned
  again, holds no comment byte, its quoted regions and its code bytes other than the
  separating spaces are those of the input in the same order with the same kinds, and
  stripping again changes nothing.\<close>

theorem stripSQLComments_exact:
  "list_all (\<lambda>(c, k). \<not> comment_kind k) (classify (stripSQLComments s)) \<and>
   filter (\<lambda>(c, k). \<not> comment_kind k \<and> \<not> (c = CHR '' '' \<and> \<not> quoted k)) (classify (stripSQLComments s))
     = filter (\<lambda>(c, k). \<not> comment_kind k \<and> \<not> (c = CHR '' '' \<and> \<not> quoted k)) (classify s) \<and>
   stripSQLComments (stripSQLComments s) = stripSQLComments s"
  unfolding classify_stripSQLComments
proof (intro conjI)
  show "list_all (\<lambda>(c, k). \<not> comment_kind k) (strip_emit InCode False (CHR 0x00) s)"
    by (auto simp: list_all_iff dest: strip_emit_no_comment)
  show "filter (\<lambda>(c, k). \<not> comment_kind k \<and> \<not> (c = CHR '' '' \<and> \<not> quoted k)) (strip_emit InCode False (CHR 0x00) s)
     = filter (\<lambda>(c, k). \<not> comment_kind k \<and> \<not> (c = CHR '' '' \<and> \<not> quoted k)) (classify s)"
  proof -
    have "(\<lambda>(c, k). \<not> comment_kind k \<and> \<not> (c = CHR '' '' \<and> \<not> quoted k))
        = (\<lambda>(c, k). \<not> comment_kind k \<and> (quoted k \<or> c \<noteq> CHR '' ''))"
      by (auto simp: fun_eq_iff)
    then show ?thesis
      unfolding classify_def by (simp only:) (rule strip_emit_filter, auto)
  qed
  show "stripSQLComments (stripSQLComments s) = stripSQLComments s"
    by (intro stripSQLComments_id ballI) (rule stripSQLComments_no_comment)
qed

end
