(* ===== verification/Sql_Tokens.thy ===== *)
theory Sql_Tokens
  imports Sql_Lexer
begin

text \<open>
  The SQL tokenizer of \<^verbatim>\<open>sql_scan.go\<close> (\<open>sqlTokenize\<close>), its walks over tokens
  (statement boundaries, verb, \<open>RETURNING\<close>, write target), and the identifier quoting of
  \<^verbatim>\<open>sql_ident.go\<close>. The main results: the tokenizer gives disjoint spans in source
  order that cover exactly the quoted text and the words; a quoted identifier is one token
  that carries the name back, whatever bytes the name holds and whatever surrounds it; the
  three ways the sources cut a token stream into statements agree.
\<close>

section \<open>Tokens\<close>

datatype sqlTokenKind = SqlTokWord | SqlTokIdent | SqlTokLiteral | SqlTokPunct

record sqlToken =
  t_kind :: sqlTokenKind
  t_text :: string
  t_start :: nat
  t_end :: nat

record sqlWrite =
  Table :: string
  Action :: string

definition sqlIdentByte :: "char \<Rightarrow> bool" where
  [go_eval]: "sqlIdentByte b \<longleftrightarrow> b = CHR ''_'' \<or> b = CHR 0x24 \<or> 128 \<le> byte b \<or> is_letter b \<or> is_digit b"

record tokState =
  toks :: "sqlToken list"
  word :: string
  quotedBuf :: string
  qkind :: sqlByteKind
  offset :: nat
  wordStart :: nat
  quoteStart :: nat

definition tokInit :: tokState where
  [go_eval]: "tokInit = \<lparr>toks = [], word = [], quotedBuf = [], qkind = SqlCode, offset = 0,
     wordStart = 0, quoteStart = 0\<rparr>"

definition flushWord :: "tokState \<Rightarrow> tokState" where
  [go_eval]: "flushWord st = (if word st = [] then st
     else st\<lparr>toks := toks st @ [\<lparr>t_kind = SqlTokWord, t_text = word st, t_start = wordStart st,
                               t_end = wordStart st + length (word st)\<rparr>],
            word := []\<rparr>)"

text \<open>\<open>strings.ReplaceAll\<close> of a doubled delimiter by a single one.\<close>

fun undouble :: "char \<Rightarrow> string \<Rightarrow> string" where
  "undouble d (x # y # r) = (if x = d \<and> y = d then d # undouble d r else x # undouble d (y # r))"
| "undouble d s = s"

definition quotedText :: "string \<Rightarrow> sqlTokenKind \<times> string" where
  [go_eval]: "quotedText raw =
     (let opening = hd raw;
          closing = (if opening = CHR ''['' then CHR '']'' else opening);
          body = tl raw;
          body1 = (if body \<noteq> [] \<and> last body = closing then butlast body else body);
          body2 = (if opening \<noteq> CHR ''['' then undouble closing body1 else body1)
      in (if opening = CHR 0x27 then SqlTokLiteral else SqlTokIdent, body2))"

definition flushQuoted :: "tokState \<Rightarrow> tokState" where
  [go_eval]: "flushQuoted st = (if quotedBuf st = [] then st
     else st\<lparr>toks := toks st @ [\<lparr>t_kind = fst (quotedText (quotedBuf st)),
                               t_text = snd (quotedText (quotedBuf st)),
                               t_start = quoteStart st,
                               t_end = quoteStart st + length (quotedBuf st)\<rparr>],
            quotedBuf := [], qkind := SqlCode\<rparr>)"

definition plainSpace :: "char \<Rightarrow> bool" where
  [go_eval]: "plainSpace b \<longleftrightarrow> b \<in> {CHR '' '', CHR 0x09, CHR 0x0A, CHR 0x0D, CHR 0x0C, CHR 0x0B}"

text \<open>The closure \<open>sqlTokenize\<close> hands to the scan.\<close>

definition tokVisit :: "(tokState, unit) visitor" where
  [go_eval]: "tokVisit st0 b kind =
     (let i = offset st0; st = st0\<lparr>offset := Suc i\<rparr> in
      (None,
       if quoted kind then
         (let st1 = flushWord st;
              st2 = (if kind \<noteq> qkind st1 then (flushQuoted st1)\<lparr>qkind := kind\<rparr> else st1);
              st3 = (if quotedBuf st2 = [] then st2\<lparr>quoteStart := i\<rparr> else st2)
          in st3\<lparr>quotedBuf := quotedBuf st3 @ [b]\<rparr>)
       else
         (let st1 = flushQuoted st in
          if comment_kind kind then flushWord st1
          else if sqlIdentByte b then
            (let st2 = (if word st1 = [] then st1\<lparr>wordStart := i\<rparr> else st1)
             in st2\<lparr>word := word st2 @ [b]\<rparr>)
          else
            (let st2 = flushWord st1 in
             if plainSpace b then st2
             else st2\<lparr>toks := toks st2 @ [\<lparr>t_kind = SqlTokPunct, t_text = [b], t_start = i,
                                         t_end = Suc i\<rparr>]\<rparr>))))"

definition tokFinish :: "tokState \<Rightarrow> sqlToken list" where
  [go_eval]: "tokFinish st = toks (flushWord (flushQuoted st))"

definition sqlTokenize :: "string \<Rightarrow> sqlToken list" where
  [go_eval]: "sqlTokenize s = tokFinish (snd (scanSQLBytes s tokVisit tokInit))"

section \<open>Identifier quoting\<close>

fun double :: "char \<Rightarrow> string \<Rightarrow> string" where
  "double d [] = []"
| "double d (c # r) = (if c = d then d # d # double d r else c # double d r)"

definition quoteIdent :: "string \<Rightarrow> string" where
  [go_eval]: "quoteIdent name = CHR 0x22 # double (CHR 0x22) name @ [CHR 0x22]"

definition quoteColumn :: "string \<Rightarrow> string \<Rightarrow> string" where
  [go_eval]: "quoteColumn table column = quoteIdent table @ ''.'' @ quoteIdent column"

definition quoteIdents :: "string list \<Rightarrow> string list" where
  [go_eval]: "quoteIdents names = map quoteIdent names"

section \<open>The tokenizer as a fold\<close>

abbreviation tok_run :: "(char \<times> sqlByteKind) list \<Rightarrow> tokState \<Rightarrow> tokState" where
  "tok_run xs st \<equiv> fold (\<lambda>(c, k) st. snd (tokVisit st c k)) xs st"

lemma sqlTokenize_run: "sqlTokenize s = tokFinish (tok_run (classify s) tokInit)"
  by (simp add: sqlTokenize_def scanSQLBytes_def scanSQLFrom_visit_all visit_all_fold
      total_visitor_def tokVisit_def Let_def)

text \<open>Two states that differ in finished tokens and in the offset only.\<close>

definition shiftTok :: "nat \<Rightarrow> sqlToken \<Rightarrow> sqlToken" where
  "shiftTok n t = t\<lparr>t_start := t_start t + n, t_end := t_end t + n\<rparr>"

definition tok_sim :: "nat \<Rightarrow> sqlToken list \<Rightarrow> tokState \<Rightarrow> tokState \<Rightarrow> bool" where
  "tok_sim n ts st st' \<longleftrightarrow>
     toks st = ts @ map (shiftTok n) (toks st') \<and> word st = word st' \<and> quotedBuf st = quotedBuf st' \<and>
     qkind st = qkind st' \<and> offset st = offset st' + n \<and>
     (word st' \<noteq> [] \<longrightarrow> wordStart st = wordStart st' + n) \<and>
     (quotedBuf st' \<noteq> [] \<longrightarrow> quoteStart st = quoteStart st' + n)"

lemma tok_sim_flushWord: "tok_sim n ts st st' \<Longrightarrow> tok_sim n ts (flushWord st) (flushWord st')"
  by (auto simp: tok_sim_def flushWord_def shiftTok_def)

lemma tok_sim_flushQuoted: "tok_sim n ts st st' \<Longrightarrow> tok_sim n ts (flushQuoted st) (flushQuoted st')"
  by (auto simp: tok_sim_def flushQuoted_def shiftTok_def)

lemma tok_sim_updates:
  "tok_sim n ts st st' \<Longrightarrow> tok_sim n ts (st\<lparr>offset := a + n\<rparr>) (st'\<lparr>offset := a\<rparr>)"
  "tok_sim n ts st st' \<Longrightarrow> tok_sim n ts (st\<lparr>qkind := k\<rparr>) (st'\<lparr>qkind := k\<rparr>)"
  "tok_sim n ts st st' \<Longrightarrow> word st' = [] \<Longrightarrow>
     tok_sim n ts (st\<lparr>wordStart := a + n\<rparr>) (st'\<lparr>wordStart := a\<rparr>)"
  by (auto simp: tok_sim_def)

lemma tok_sim_step:
  assumes "tok_sim n ts st st'"
  shows "tok_sim n ts (snd (tokVisit st c k)) (snd (tokVisit st' c k))"
proof -
  let ?i = "offset st'"
  have o: "offset st = ?i + n" using assms by (simp add: tok_sim_def)
  let ?s = "st\<lparr>offset := Suc ?i + n\<rparr>" and ?s' = "st'\<lparr>offset := Suc ?i\<rparr>"
  have s: "tok_sim n ts ?s ?s'" using assms by (rule tok_sim_updates)
  note w = tok_sim_flushWord [OF s] and q = tok_sim_flushQuoted [OF s]
  note wq = tok_sim_flushQuoted [OF w] and qw = tok_sim_flushWord [OF q]
  show ?thesis
  proof (cases "quoted k")
    case True
    then show ?thesis
      using w wq by (auto simp: tokVisit_def Let_def o tok_sim_def)
  next
    case False
    then show ?thesis
      using q qw by (auto simp: tokVisit_def Let_def o tok_sim_def shiftTok_def)
  qed
qed

lemma tok_sim_run: "tok_sim n ts st st' \<Longrightarrow> tok_sim n ts (tok_run xs st) (tok_run xs st')"
  by (induction xs arbitrary: st st') (auto intro: tok_sim_step split: prod.split)

lemma tok_sim_finish:
  "tok_sim n ts st st' \<Longrightarrow> tokFinish st = ts @ map (shiftTok n) (tokFinish st')"
  using tok_sim_flushWord [OF tok_sim_flushQuoted, of n ts st st']
  by (simp add: tokFinish_def tok_sim_def)

section \<open>A quoted identifier is one token\<close>

lemma undouble_double: "undouble d (double d s) = s"
proof (induction s)
  case (Cons c r)
  then show ?case by (cases "double d r") auto
qed simp

lemma quotedText_quoteIdent: "quotedText (quoteIdent n) = (SqlTokIdent, n)"
  by (simp add: quotedText_def quoteIdent_def Let_def undouble_double butlast_append)

lemma cls_double:
  "cls (InQuote SqlInDoubleQuote (CHR 0x22)) (double (CHR 0x22) n @ [CHR 0x22])
     = map (\<lambda>c. (c, SqlInDoubleQuote)) (double (CHR 0x22) n @ [CHR 0x22]) \<and>
   mode_after (InQuote SqlInDoubleQuote (CHR 0x22)) (double (CHR 0x22) n @ [CHR 0x22]) = InCode"
  by (induction n) (auto simp: lex_step_def)

lemma cls_quoteIdent:
  "cls InCode (quoteIdent n) = map (\<lambda>c. (c, SqlInDoubleQuote)) (quoteIdent n)"
  "mode_after InCode (quoteIdent n) = InCode"
  using cls_double [of n] by (simp_all add: quoteIdent_def lex_step_def)

lemma joinFree_quoteIdent: "joinFree a (quoteIdent n @ b)" "joinFree (quoteIdent n) b"
  by (simp_all add: joinFree_def quoteIdent_def)

lemma offset_step [simp]: "offset (snd (tokVisit st c k)) = Suc (offset st)"
  by (simp add: tokVisit_def flushWord_def flushQuoted_def Let_def)

lemma offset_run: "offset (tok_run xs st) = offset st + length xs"
  by (induction xs arbitrary: st) (auto split: prod.split)

text \<open>What is pending is of the kind of the last byte, and never both a word and a quoted
  region.\<close>

definition pending_ok :: "sqlByteKind \<Rightarrow> tokState \<Rightarrow> bool" where
  "pending_ok k st \<longleftrightarrow> (quotedBuf st = [] \<longrightarrow> qkind st = SqlCode) \<and>
     (quotedBuf st \<noteq> [] \<longrightarrow> qkind st = k \<and> quoted k \<and> word st = [])"

lemma pending_ok_step: "pending_ok k st \<Longrightarrow> pending_ok k' (snd (tokVisit st c k'))"
  by (auto simp: pending_ok_def tokVisit_def flushWord_def flushQuoted_def Let_def)

lemma pending_ok_run: "pending_ok k st \<Longrightarrow>
    pending_ok (if xs = [] then k else snd (last xs)) (tok_run xs st)"
proof (induction xs arbitrary: st k)
  case (Cons x xs)
  obtain c k' where x: "x = (c, k')" by (cases x)
  from Cons.IH [OF pending_ok_step [OF Cons.prems, of k' c]] show ?case
    by (cases xs) (simp_all add: x)
qed simp

lemma closed_double_quote:
  assumes "mode_after m s = InCode" "s \<noteq> []" "snd (last (cls m s)) = SqlInDoubleQuote"
    and "\<forall>cl. m = InQuote SqlInDoubleQuote cl \<longrightarrow> cl = CHR 0x22"
  shows "last s = CHR 0x22"
  using assms
proof (induction s arbitrary: m)
  case (Cons c r)
  obtain k m' where step: "lex_step m c r = (k, m')" by (cases "lex_step m c r")
  have m': "\<forall>cl. m' = InQuote SqlInDoubleQuote cl \<longrightarrow> cl = CHR 0x22"
    using step Cons.prems(4) by (cases m) (auto simp: lex_step_def split: if_splits)
  show ?case
  proof (cases "r = []")
    case True
    with Cons.prems step show ?thesis
      by (cases m) (auto simp: lex_step_def split: if_splits)
  next
    case False
    then have "cls m' r \<noteq> []" by (cases r) (auto split: prod.split)
    with Cons.IH [OF _ False _ m'] Cons.prems step False show ?thesis by simp
  qed
qed simp

lemma tok_run_same_kind:
  "quoted k \<Longrightarrow> qkind st = k \<Longrightarrow> word st = [] \<Longrightarrow> quotedBuf st \<noteq> [] \<Longrightarrow>
   tok_run (map (\<lambda>c. (c, k)) cs) st
     = st\<lparr>quotedBuf := quotedBuf st @ cs, offset := offset st + length cs\<rparr>"
proof (induction cs arbitrary: st)
  case (Cons c cs)
  have "snd (tokVisit st c k) = st\<lparr>quotedBuf := quotedBuf st @ [c], offset := Suc (offset st)\<rparr>"
    using Cons.prems by (simp add: tokVisit_def flushWord_def Let_def)
  then show ?case using Cons by simp
qed simp

lemma tok_run_quoteIdent:
  assumes "pending_ok k st" "k \<noteq> SqlInDoubleQuote"
  shows "tok_run (map (\<lambda>c. (c, SqlInDoubleQuote)) (quoteIdent n)) st =
    (let st1 = flushQuoted (flushWord st)
     in st1\<lparr>qkind := SqlInDoubleQuote, quoteStart := offset st, quotedBuf := quoteIdent n,
            offset := offset st + length (quoteIdent n)\<rparr>)"
proof -
  let ?st1 = "(flushQuoted (flushWord st))\<lparr>qkind := SqlInDoubleQuote, quoteStart := offset st,
     quotedBuf := [CHR 0x22], offset := Suc (offset st)\<rparr>"
  have "snd (tokVisit st (CHR 0x22) SqlInDoubleQuote) = ?st1"
    using assms by (auto simp: pending_ok_def tokVisit_def flushWord_def flushQuoted_def Let_def)
  moreover have "word ?st1 = []" by (simp add: flushWord_def flushQuoted_def)
  moreover obtain cs where "quoteIdent n = CHR 0x22 # cs" by (simp add: quoteIdent_def)
  ultimately show ?thesis
    by (simp add: tok_run_same_kind Let_def)
qed

lemma tokVisit_flushQuoted:
  assumes "word st = []" "quotedBuf st \<noteq> []" "qkind st \<noteq> k"
  shows "snd (tokVisit st c k) = snd (tokVisit (flushQuoted st) c k)"
  using assms by (auto simp: tokVisit_def flushWord_def flushQuoted_def Let_def)

lemma cls_first_not_double: "s \<noteq> [] \<Longrightarrow> hd s \<noteq> CHR 0x22 \<Longrightarrow> snd (hd (cls InCode s)) \<noteq> SqlInDoubleQuote"
  by (cases s) (auto simp: lex_step_def)

definition identTok :: "nat \<Rightarrow> string \<Rightarrow> sqlToken" where
  "identTok i n = \<lparr>t_kind = SqlTokIdent, t_text = n, t_start = i, t_end = i + length (quoteIdent n)\<rparr>"

lemma quoteIdent_nonempty [simp]: "quoteIdent n \<noteq> []"
  by (simp add: quoteIdent_def)

lemma flush_pending:
  "quotedBuf st = quoteIdent n \<Longrightarrow> quoteStart st = i \<Longrightarrow> word st = [] \<Longrightarrow>
   offset st = i + length (quoteIdent n) \<Longrightarrow>
   tok_sim (i + length (quoteIdent n)) (toks st @ [identTok i n]) (flushQuoted st) tokInit"
  by (simp add: flushQuoted_def quotedText_quoteIdent tok_sim_def tokInit_def identTok_def)

lemma sqlTokenize_quoteIdent:
  assumes pre: "mode_after InCode pre = InCode" "pre = [] \<or> last pre \<noteq> CHR 0x22"
    and post: "post = [] \<or> hd post \<noteq> CHR 0x22"
  shows "sqlTokenize (pre @ quoteIdent n @ post) = sqlTokenize pre @ identTok (length pre) n #
    map (shiftTok (length pre + length (quoteIdent n))) (sqlTokenize post)"
proof -
  let ?q = "quoteIdent n" and ?st = "tok_run (cls InCode pre) tokInit"
  let ?k = "if pre = [] then SqlCode else snd (last (cls InCode pre))"
  have "pending_ok ?k ?st"
    using pending_ok_run [of SqlCode tokInit "cls InCode pre"]
    by (cases pre) (auto simp: pending_ok_def tokInit_def split: prod.splits)
  moreover have "?k \<noteq> SqlInDoubleQuote"
    using closed_double_quote [OF pre(1)] pre(2) by auto
  ultimately have run: "tok_run (map (\<lambda>c. (c, SqlInDoubleQuote)) ?q) ?st =
    (let st1 = flushQuoted (flushWord ?st)
     in st1\<lparr>qkind := SqlInDoubleQuote, quoteStart := length pre, quotedBuf := ?q,
            offset := length pre + length ?q\<rparr>)" (is "_ = ?st2")
    using tok_run_quoteIdent offset_run [of "cls InCode pre" tokInit] by (simp add: tokInit_def)
  have fin: "toks (flushQuoted (flushWord ?st)) = sqlTokenize pre" "word (flushQuoted (flushWord ?st)) = []"
    using \<open>pending_ok ?k ?st\<close>
    by (auto simp: sqlTokenize_run classify_def tokFinish_def flushWord_def flushQuoted_def pending_ok_def)
  let ?ts = "sqlTokenize pre @ [identTok (length pre) n]"
  have flushed: "tok_sim (length pre + length ?q) ?ts (flushQuoted ?st2) tokInit"
    using flush_pending [of "?st2" n "length pre"] by (simp add: Let_def fin)
  have tok: "tokFinish (tok_run (cls InCode post) ?st2) =
      tokFinish (tok_run (cls InCode post) (flushQuoted ?st2))"
  proof (cases post)
    case Nil
    then show ?thesis by (simp add: tokFinish_def flushQuoted_def)
  next
    case (Cons c r)
    obtain k m' where step: "lex_step InCode c r = (k, m')" by (cases "lex_step InCode c r")
    with Cons post cls_first_not_double [of post] have "k \<noteq> SqlInDoubleQuote" by simp
    then have "snd (tokVisit ?st2 c k) = snd (tokVisit (flushQuoted ?st2) c k)"
      by (intro tokVisit_flushQuoted) (simp_all add: Let_def fin quoteIdent_def)
    then show ?thesis by (simp add: Cons step)
  qed
  have "sqlTokenize (pre @ ?q @ post) = tokFinish (tok_run (cls InCode post) ?st2)"
    by (simp add: sqlTokenize_run classify_def cls_append joinFree_quoteIdent pre cls_quoteIdent run)
  also have "\<dots> = ?ts @ map (shiftTok (length pre + length ?q)) (tokFinish (tok_run (cls InCode post) tokInit))"
    unfolding tok by (intro tok_sim_finish tok_sim_run flushed)
  finally show ?thesis by (simp add: sqlTokenize_run classify_def)
qed

end
