(* ===== verification/Sql_Spans.thy ===== *)
theory Sql_Spans
  imports Sql_Tokens
begin

section \<open>Token spans\<close>

definition slice :: "'a list \<Rightarrow> nat \<Rightarrow> nat \<Rightarrow> 'a list" where
  [go_eval]: "slice s a b = take (b - a) (drop a s)"

text \<open>A token's text is determined by the source bytes of its span.\<close>

definition tokText :: "string \<Rightarrow> sqlToken \<Rightarrow> bool" where
  "tokText s t \<longleftrightarrow> (let raw = slice s (t_start t) (t_end t) in
     case t_kind t of
       SqlTokWord \<Rightarrow> t_text t = raw \<and> (\<forall>c \<in> set raw. sqlIdentByte c)
     | SqlTokPunct \<Rightarrow> t_text t = raw \<and> length raw = 1
     | _ \<Rightarrow> quotedText raw = (t_kind t, t_text t))"

definition tokFits :: "string \<Rightarrow> nat \<Rightarrow> sqlToken \<Rightarrow> bool" where
  "tokFits s n t \<longleftrightarrow> t_start t < t_end t \<and> t_end t \<le> n \<and> tokText s t"

definition toksFit :: "string \<Rightarrow> nat \<Rightarrow> sqlToken list \<Rightarrow> bool" where
  "toksFit s n ts \<longleftrightarrow> (\<forall>t \<in> set ts. tokFits s n t) \<and> sorted_wrt (\<lambda>a b. t_end a \<le> t_start b) ts"

definition tok_inv :: "string \<Rightarrow> nat \<Rightarrow> tokState \<Rightarrow> bool" where
  "tok_inv s n st \<longleftrightarrow> n \<le> length s \<and> (word st = [] \<or> quotedBuf st = []) \<and>
     toksFit s (if word st \<noteq> [] then wordStart st else if quotedBuf st \<noteq> [] then quoteStart st else n) (toks st) \<and>
     (word st \<noteq> [] \<longrightarrow> wordStart st \<le> n \<and> word st = slice s (wordStart st) n \<and> (\<forall>c \<in> set (word st). sqlIdentByte c)) \<and>
     (quotedBuf st \<noteq> [] \<longrightarrow> quoteStart st \<le> n \<and> quotedBuf st = slice s (quoteStart st) n)"

lemma length_slice: "b \<le> length s \<Longrightarrow> a \<le> b \<Longrightarrow> length (slice s a b) = b - a"
  by (simp add: slice_def)

lemma slice_empty [simp]: "slice s a a = []"
  by (simp add: slice_def)

lemma slice_Suc: "n < length s \<Longrightarrow> a \<le> n \<Longrightarrow> slice s a (Suc n) = slice s a n @ [s ! n]"
  by (simp add: slice_def Suc_diff_le take_Suc_conv_app_nth)

lemma toksFit_mono: "toksFit s n ts \<Longrightarrow> n \<le> m \<Longrightarrow> toksFit s m ts"
  by (auto simp: toksFit_def tokFits_def)

lemma toksFit_snoc:
  "toksFit s n ts \<Longrightarrow> n \<le> t_start t \<Longrightarrow> tokFits s m t \<Longrightarrow> toksFit s m (ts @ [t])"
  by (auto simp: toksFit_def tokFits_def sorted_wrt_append)

lemma quotedText_kind: "fst (quotedText raw) = SqlTokIdent \<or> fst (quotedText raw) = SqlTokLiteral"
  by (simp add: quotedText_def Let_def)

lemma flushWord_inv:
  assumes "tok_inv s n st"
  shows "tok_inv s n (flushWord st) \<and> word (flushWord st) = []"
proof (cases "word st = []")
  case False
  let ?t = "\<lparr>t_kind = SqlTokWord, t_text = word st, t_start = wordStart st,
    t_end = wordStart st + length (word st)\<rparr>"
  from assms False have w: "word st = slice s (wordStart st) n" "wordStart st \<le> n" "n \<le> length s"
    "toksFit s (wordStart st) (toks st)" "\<forall>c \<in> set (word st). sqlIdentByte c" "quotedBuf st = []"
    by (auto simp: tok_inv_def)
  have len: "wordStart st + length (word st) = n"
    using w(1-3) length_slice [of n s "wordStart st"] by simp
  moreover have "0 < length (word st)" using False by simp
  ultimately have "wordStart st < n" by linarith
  then have "tokFits s n ?t"
    using w len False by (auto simp: tokFits_def tokText_def Let_def)
  with w have "toksFit s n (toks st @ [?t])" by (intro toksFit_snoc) auto
  with w False show ?thesis by (simp add: tok_inv_def flushWord_def)
qed (use assms in \<open>simp add: flushWord_def\<close>)

lemma flushQuoted_inv:
  assumes "tok_inv s n st"
  shows "tok_inv s n (flushQuoted st) \<and> quotedBuf (flushQuoted st) = []"
proof (cases "quotedBuf st = []")
  case False
  let ?t = "\<lparr>t_kind = fst (quotedText (quotedBuf st)), t_text = snd (quotedText (quotedBuf st)),
    t_start = quoteStart st, t_end = quoteStart st + length (quotedBuf st)\<rparr>"
  from assms False have q: "quotedBuf st = slice s (quoteStart st) n" "quoteStart st \<le> n" "n \<le> length s"
    "toksFit s (quoteStart st) (toks st)" "word st = []"
    by (auto simp: tok_inv_def)
  have len: "quoteStart st + length (quotedBuf st) = n"
    using q(1-3) length_slice [of n s "quoteStart st"] by simp
  moreover have "0 < length (quotedBuf st)" using False by simp
  ultimately have "quoteStart st < n" by linarith
  then have "tokFits s n ?t"
    using q len False quotedText_kind [of "quotedBuf st"]
    by (auto simp: tokFits_def tokText_def Let_def prod_eq_iff split: sqlTokenKind.split)
  with q have "toksFit s n (toks st @ [?t])" by (intro toksFit_snoc) auto
  with q False show ?thesis by (simp add: tok_inv_def flushQuoted_def)
qed (use assms in \<open>simp add: flushQuoted_def\<close>)

lemma offset_flush [simp]: "offset (flushWord st) = offset st" "offset (flushQuoted st) = offset st"
  by (simp_all add: flushWord_def flushQuoted_def)

lemma flush_offset:
  "flushWord (st\<lparr>offset := i\<rparr>) = (flushWord st)\<lparr>offset := i\<rparr>"
  "flushQuoted (st\<lparr>offset := i\<rparr>) = (flushQuoted st)\<lparr>offset := i\<rparr>"
  by (simp_all add: flushWord_def flushQuoted_def)

lemma tok_inv_updates [simp]:
  "tok_inv s n (st\<lparr>qkind := k\<rparr>) = tok_inv s n st"
  "tok_inv s n (st\<lparr>offset := i\<rparr>) = tok_inv s n st"
  by (simp_all add: tok_inv_def)

lemma extend_quoted:
  assumes "tok_inv s n st" "word st = []" "n < length s"
  shows "tok_inv s (Suc n) (let st3 = (if quotedBuf st = [] then st\<lparr>quoteStart := n\<rparr> else st)
     in st3\<lparr>quotedBuf := quotedBuf st3 @ [s ! n]\<rparr>)"
  using assms by (auto simp: tok_inv_def Let_def slice_Suc)

lemma extend_word:
  assumes "tok_inv s n st" "quotedBuf st = []" "n < length s" "sqlIdentByte (s ! n)"
  shows "tok_inv s (Suc n) (let st2 = (if word st = [] then st\<lparr>wordStart := n\<rparr> else st)
     in st2\<lparr>word := word st2 @ [s ! n]\<rparr>)"
  using assms by (auto simp: tok_inv_def Let_def slice_Suc)

lemma skip_byte:
  "tok_inv s n st \<Longrightarrow> word st = [] \<Longrightarrow> quotedBuf st = [] \<Longrightarrow> n < length s \<Longrightarrow>
   tok_inv s (Suc n) st"
  by (auto simp: tok_inv_def intro: toksFit_mono)

lemma punct_byte:
  assumes "tok_inv s n st" "word st = []" "quotedBuf st = []" "n < length s"
  shows "tok_inv s (Suc n) (st\<lparr>toks := toks st @ [\<lparr>t_kind = SqlTokPunct, t_text = [s ! n],
    t_start = n, t_end = Suc n\<rparr>]\<rparr>)"
proof -
  have "tokFits s (Suc n) \<lparr>t_kind = SqlTokPunct, t_text = [s ! n], t_start = n, t_end = Suc n\<rparr>"
    using assms(4) by (simp add: tokFits_def tokText_def Let_def slice_Suc)
  with assms show ?thesis
    by (auto simp: tok_inv_def intro: toksFit_snoc)
qed

lemma tokVisit_inv:
  assumes inv: "tok_inv s n st" and o: "offset st = n" and n: "n < length s"
  shows "tok_inv s (Suc n) (snd (tokVisit st (s ! n) k))"
proof -
  let ?st = "st\<lparr>offset := Suc n\<rparr>"
  have inv': "tok_inv s n ?st" using inv by simp
  note w = flushWord_inv [OF inv'] and q = flushQuoted_inv [OF inv']
  note wq = flushQuoted_inv [OF conjunct1 [OF w]] and qw = flushWord_inv [OF conjunct1 [OF q]]
  have e: "word (flushQuoted (flushWord ?st)) = []" "quotedBuf (flushWord (flushQuoted ?st)) = []"
    using w q by (simp_all add: flushQuoted_def flushWord_def)
  consider (keep) "quoted k" "k = qkind (flushWord ?st)" | (switch) "quoted k" "k \<noteq> qkind (flushWord ?st)"
    | (comment) "\<not> quoted k" "comment_kind k"
    | (word) "\<not> quoted k" "\<not> comment_kind k" "sqlIdentByte (s ! n)"
    | (other) "\<not> quoted k" "\<not> comment_kind k" "\<not> sqlIdentByte (s ! n)" by blast
  then show ?thesis
  proof cases
    case keep
    then show ?thesis
      using extend_quoted [of s n "flushWord ?st"] w n
      by (simp add: tokVisit_def Let_def o split: if_splits)
  next
    case switch
    then show ?thesis
      using extend_quoted [of s n "(flushQuoted (flushWord ?st))\<lparr>qkind := k\<rparr>"] wq e n
      by (simp add: tokVisit_def Let_def o)
  next
    case comment
    then show ?thesis
      using skip_byte [of s n "flushWord (flushQuoted ?st)"] qw e n
      by (simp add: tokVisit_def Let_def o)
  next
    case word
    then show ?thesis
      using extend_word [of s n "flushQuoted ?st"] q n by (simp add: tokVisit_def Let_def o)
  next
    case other
    then show ?thesis
      using skip_byte [of s n "flushWord (flushQuoted ?st)"]
        punct_byte [of s n "flushWord (flushQuoted ?st)"] qw e n
      by (simp add: tokVisit_def Let_def o)
  qed
qed

lemma tok_inv_run:
  "tok_inv (pre @ map fst xs) (length pre) st \<Longrightarrow> offset st = length pre \<Longrightarrow>
   tok_inv (pre @ map fst xs) (length pre + length xs) (tok_run xs st)"
proof (induction xs arbitrary: pre st)
  case (Cons x xs)
  obtain c k where x: "x = (c, k)" by (cases x)
  have "tok_inv (pre @ map fst (x # xs)) (Suc (length pre)) (snd (tokVisit st c k))"
    using tokVisit_inv [OF Cons.prems(1), of k] Cons.prems(2) by (simp add: x nth_append)
  with Cons.IH [of "pre @ [c]" "snd (tokVisit st c k)"] Cons.prems(2) show ?case by (simp add: x)
qed simp

lemma sqlTokenize_spans: "toksFit s (length s) (sqlTokenize s)"
proof -
  let ?st = "tok_run (classify s) tokInit"
  have "tok_inv s 0 tokInit" by (simp add: tok_inv_def tokInit_def toksFit_def)
  with tok_inv_run [of "[]" "classify s" tokInit]
  have "tok_inv s (length s) ?st" by (simp add: classify_def tokInit_def)
  from flushWord_inv [OF conjunct1 [OF flushQuoted_inv [OF this]]] flushQuoted_inv [OF this]
  show ?thesis
    by (auto simp: sqlTokenize_run tokFinish_def tok_inv_def flushWord_def split: if_splits)
qed

lemma set_slice: "set (slice s a b) \<subseteq> set s"
  by (auto simp: slice_def dest: in_set_takeD in_set_dropD)

lemma set_undouble: "set (undouble d s) \<subseteq> set s"
  by (induction d s rule: undouble.induct) auto

lemma set_quotedText: "set (snd (quotedText raw)) \<subseteq> set (tl raw)"
  unfolding quotedText_def Let_def
  by (auto split: if_splits dest: in_set_butlastD set_undouble [THEN subsetD])

lemma sqlTokenize_bytes: "t \<in> set (sqlTokenize s) \<Longrightarrow> set (t_text t) \<subseteq> set s"
proof -
  assume "t \<in> set (sqlTokenize s)"
  with sqlTokenize_spans [of s] have "tokText s t"
    by (auto simp: toksFit_def tokFits_def)
  moreover have "set (tl (slice s (t_start t) (t_end t))) \<subseteq> set s"
    using set_slice by (metis list.set_sel(2) subset_iff tl_Nil)
  ultimately show ?thesis
    using set_slice [of s "t_start t" "t_end t"] set_quotedText [of "slice s (t_start t) (t_end t)"]
    by (auto simp: tokText_def Let_def split: sqlTokenKind.splits)
qed

lemma sqlTokenize_ascii: "is_ascii s \<Longrightarrow> t \<in> set (sqlTokenize s) \<Longrightarrow> is_ascii (t_text t)"
  using sqlTokenize_bytes by (fastforce simp: is_ascii_def)

section \<open>Properties\<close>

text \<open>Every token's span lies in the source, spans do not overlap and come in source
  order, and each token's text is what its span holds: a word or punctuation byte is the
  source text itself, a quoted token is the decoded quoted region.\<close>

theorem sqlTokenize_spans_sound:
  "sorted_wrt (\<lambda>a b. t_end a \<le> t_start b) (sqlTokenize s) \<and>
   (\<forall>t \<in> set (sqlTokenize s). t_start t < t_end t \<and> t_end t \<le> length s \<and> tokText s t)"
  using sqlTokenize_spans [of s] by (auto simp: toksFit_def tokFits_def)

theorem sqlTokenize_spans_sound_witness:
  "t_start (hd (sqlTokenize ''a b'')) < t_end (hd (sqlTokenize ''a b''))"
proof -
  have "sqlTokenize ''a b'' \<noteq> []" by code_simp
  then have "hd (sqlTokenize ''a b'') \<in> set (sqlTokenize ''a b'')" by simp
  with sqlTokenize_spans_sound [of "''a b''"] show ?thesis by blast
qed

text \<open>C18: Identifier quoting cannot be escaped from. Between code that is not inside a quote
  or comment and does not touch it with a double quote, a name written by \<open>quoteIdent\<close>
  is exactly one identifier token carrying the name, whatever bytes the name holds, and the
  tokens of the text around it are the same as without it.\<close>

theorem quoteIdent_one_token:
  assumes "mode_after InCode pre = InCode" and "pre = [] \<or> last pre \<noteq> CHR 0x22"
    and "post = [] \<or> hd post \<noteq> CHR 0x22"
  shows "sqlTokenize (pre @ quoteIdent n @ post) = sqlTokenize pre @ identTok (length pre) n #
    map (shiftTok (length pre + length (quoteIdent n))) (sqlTokenize post)"
  using assms by (rule sqlTokenize_quoteIdent)

theorem quoteIdent_one_token_witness:
  "sqlTokenize (''SELECT * FROM '' @ quoteIdent ''a; --'' @ '' WHERE 1'')
   = sqlTokenize ''SELECT * FROM '' @ identTok (length ''SELECT * FROM '') ''a; --'' #
     map (shiftTok (length ''SELECT * FROM '' + length (quoteIdent ''a; --'')))
       (sqlTokenize '' WHERE 1'')"
proof (rule quoteIdent_one_token)
  show "mode_after InCode ''SELECT * FROM '' = InCode" by code_simp
qed simp_all

end
