(* ===== verification/Sql_Statements.thy ===== *)
theory Sql_Statements
  imports Sql_Spans
begin

text \<open>
  Walks over the tokens of \<^verbatim>\<open>sql_scan.go\<close> and the write gate of
  \<^verbatim>\<open>sql_write_guard.go\<close>: cutting a token stream into statements (written three
  times in the sources, as a loop with an accumulator, as a loop with indices and inside the
  write-target walk), the verb of a statement (written twice), the \<open>RETURNING\<close> clause, the
  write target, and \<open>validateSQLWriteStatement\<close>.
\<close>

section \<open>Cutting a token stream into statements\<close>

definition isSemi :: "sqlToken \<Rightarrow> bool" where
  [go_eval]: "isSemi t \<longleftrightarrow> t_kind t = SqlTokPunct \<and> t_text t = '';''"

text \<open>The loop of \<open>sqlTokenStatements\<close>: \<open>i\<close> is the index of the next token, \<open>start\<close> the
  index after the last boundary.\<close>

fun tokenStatementsLoop ::
  "sqlToken list \<Rightarrow> nat \<Rightarrow> nat \<Rightarrow> sqlToken list list \<Rightarrow> sqlToken list \<Rightarrow> sqlToken list list" where
  "tokenStatementsLoop all i start statements [] =
     (if start < length all then statements @ [drop start all] else statements)"
| "tokenStatementsLoop all i start statements (t # ts) =
     (if isSemi t then
        tokenStatementsLoop all (Suc i) (Suc i)
          (if start < i then statements @ [take (i - start) (drop start all)] else statements) ts
      else tokenStatementsLoop all (Suc i) start statements ts)"

definition sqlTokenStatements :: "sqlToken list \<Rightarrow> sqlToken list list" where
  [go_eval]: "sqlTokenStatements tks = tokenStatementsLoop tks 0 0 [] tks"

text \<open>The loop at the head of \<open>validateSQLWriteStatement\<close>.\<close>

fun gateStatements :: "sqlToken list list \<Rightarrow> sqlToken list \<Rightarrow> sqlToken list \<Rightarrow> sqlToken list list" where
  "gateStatements statements cur [] = (if cur \<noteq> [] then statements @ [cur] else statements)"
| "gateStatements statements cur (t # ts) =
     (if isSemi t then
        (if cur \<noteq> [] then gateStatements (statements @ [cur]) [] ts
         else gateStatements statements cur ts)
      else gateStatements statements (cur @ [t]) ts)"

section \<open>Verbs\<close>

text \<open>\<open>kw(i, word)\<close>\<close>

definition kwAt :: "sqlToken list \<Rightarrow> nat \<Rightarrow> string \<Rightarrow> bool" where
  [go_eval]: "kwAt tks i w \<longleftrightarrow> i < length tks \<and> t_kind (tks ! i) = SqlTokWord \<and>
     equal_fold (t_text (tks ! i)) w"

definition mainVerbs :: "string list" where
  [go_eval]: "mainVerbs = [''SELECT'', ''VALUES'', ''INSERT'', ''REPLACE'', ''UPDATE'', ''DELETE'']"

definition mainVerbAt :: "sqlToken list \<Rightarrow> nat \<Rightarrow> bool" where
  [go_eval]: "mainVerbAt tks i \<longleftrightarrow> (\<exists>w \<in> set mainVerbs. kwAt tks i w)"

fun verbIndexLoop :: "sqlToken list \<Rightarrow> nat \<Rightarrow> nat \<Rightarrow> sqlToken list \<Rightarrow> nat" where
  "verbIndexLoop all depth i [] = i"
| "verbIndexLoop all depth i (t # ts) =
     (if t_kind t = SqlTokPunct then
        verbIndexLoop all
          (if t_text t = ''('' then Suc depth else if t_text t = '')'' then depth - 1 else depth)
          (Suc i) ts
      else if depth = 0 \<and> mainVerbAt all i then i
      else verbIndexLoop all depth (Suc i) ts)"

definition sqlStatementVerbIndex :: "sqlToken list \<Rightarrow> nat" where
  [go_eval]: "sqlStatementVerbIndex tks =
     (if \<not> kwAt tks 0 ''WITH'' then 0 else verbIndexLoop tks 0 1 (drop 1 tks))"

fun mainVerbLoop :: "nat \<Rightarrow> sqlToken list \<Rightarrow> string" where
  "mainVerbLoop depth [] = ''WITH''"
| "mainVerbLoop depth (t # ts) =
     (if t_kind t = SqlTokPunct then
        mainVerbLoop
          (if t_text t = ''('' then Suc depth else if t_text t = '')'' then depth - 1 else depth) ts
      else if depth \<noteq> 0 \<or> t_kind t \<noteq> SqlTokWord then mainVerbLoop depth ts
      else if to_upper (t_text t) \<in> set mainVerbs then to_upper (t_text t)
      else mainVerbLoop depth ts)"

definition sqlMainVerb :: "sqlToken list \<Rightarrow> string" where
  [go_eval]: "sqlMainVerb tks =
     (if tks = [] \<or> t_kind (hd tks) \<noteq> SqlTokWord then []
      else if to_upper (t_text (hd tks)) \<noteq> ''WITH'' then to_upper (t_text (hd tks))
      else mainVerbLoop 0 (tl tks))"

section \<open>RETURNING and write targets\<close>

text \<open>\<open>prev\<close> is the token before the one looked at.\<close>

fun returnsLoop :: "sqlToken option \<Rightarrow> sqlToken list \<Rightarrow> bool" where
  "returnsLoop prev [] = False"
| "returnsLoop prev (t # ts) =
     (if t_kind t \<noteq> SqlTokWord \<or> \<not> equal_fold (t_text t) ''RETURNING'' then returnsLoop (Some t) ts
      else (case prev of
          Some p \<Rightarrow> (if t_kind p = SqlTokPunct \<and> (t_text p = '':'' \<or> t_text p = ''@'')
                       \<and> t_end p = t_start t
                     then returnsLoop (Some t) ts else True)
        | None \<Rightarrow> True))"

definition sqlStatementReturns :: "sqlToken list \<Rightarrow> bool" where
  [go_eval]: "sqlStatementReturns tks = returnsLoop None tks"

definition targetName :: "sqlToken list \<Rightarrow> nat \<Rightarrow> string option" where
  [go_eval]: "targetName tks j =
     (if j \<ge> length tks \<or> t_kind (tks ! j) = SqlTokPunct \<or> t_text (tks ! j) = [] then None
      else Some (t_text (tks ! j)))"

text \<open>Where the target's name starts, and the action; \<open>None\<close> when the statement writes
  nothing.\<close>

definition writeHead :: "sqlToken list \<Rightarrow> (nat \<times> string) option" where
  [go_eval]: "writeHead tks =
     (let i = sqlStatementVerbIndex tks in
      if kwAt tks i ''INSERT'' then
        (let j = (if kwAt tks (i + 1) ''OR'' then i + 3 else i + 1)
         in if kwAt tks j ''INTO'' then Some (j + 1, ''insert'') else None)
      else if kwAt tks i ''REPLACE'' then
        (if kwAt tks (i + 1) ''INTO'' then Some (i + 2, ''insert'') else None)
      else if kwAt tks i ''UPDATE'' then
        Some (if kwAt tks (i + 1) ''OR'' then i + 3 else i + 1, ''update'')
      else if kwAt tks i ''DELETE'' then
        (if kwAt tks (i + 1) ''FROM'' then Some (i + 2, ''delete'') else None)
      else None)"

definition sqlStatementWrite :: "sqlToken list \<Rightarrow> sqlWrite option" where
  [go_eval]: "sqlStatementWrite tks =
     (case writeHead tks of
        None \<Rightarrow> None
      | Some (i, action) \<Rightarrow>
          (case targetName tks i of
             None \<Rightarrow> None
           | Some table \<Rightarrow>
               (if i + 1 < length tks \<and> t_kind (tks ! (i + 1)) = SqlTokPunct
                   \<and> t_text (tks ! (i + 1)) = ''.'' then
                  (if \<not> equal_fold table ''main'' then None
                   else map_option (\<lambda>tb. \<lparr>Table = tb, Action = action\<rparr>) (targetName tks (i + 2)))
                else Some \<lparr>Table = table, Action = action\<rparr>)))"

text \<open>The \<open>flush\<close> closure and the loop of \<open>sqlWriteTargets\<close>.\<close>

definition flushStatement :: "sqlWrite list \<Rightarrow> nat \<Rightarrow> sqlToken list \<Rightarrow> sqlWrite list \<times> nat" where
  [go_eval]: "flushStatement writes statements cur =
     (if cur = [] then (writes, statements)
      else (case sqlStatementWrite cur of
          Some w \<Rightarrow> (writes @ [w], Suc statements)
        | None \<Rightarrow> (writes, Suc statements)))"

fun writeTargetsLoop ::
  "sqlWrite list \<Rightarrow> nat \<Rightarrow> sqlToken list \<Rightarrow> sqlToken list \<Rightarrow> sqlWrite list \<times> nat" where
  "writeTargetsLoop writes statements cur [] = flushStatement writes statements cur"
| "writeTargetsLoop writes statements cur (t # ts) =
     (if isSemi t then
        (case flushStatement writes statements cur of (w, n) \<Rightarrow> writeTargetsLoop w n [] ts)
      else writeTargetsLoop writes statements (cur @ [t]) ts)"

definition sqlWriteTargets :: "string \<Rightarrow> sqlWrite list \<times> nat" where
  [go_eval]: "sqlWriteTargets s = writeTargetsLoop [] 0 [] (sqlTokenize s)"

section \<open>The write gate\<close>

datatype writeGateError =
    GateEmpty | GateManyStatements nat | GateNoVerb | GateSchemaDDL string | GateNotPermitted string

definition writeVerbs :: "string list" where
  [go_eval]: "writeVerbs = [''INSERT'', ''REPLACE'', ''UPDATE'', ''DELETE'']"

definition validateSQLWriteStatement :: "string \<Rightarrow> writeGateError option" where
  [go_eval]: "validateSQLWriteStatement stmt =
     (let statements = gateStatements [] [] (sqlTokenize stmt) in
      if statements = [] then Some GateEmpty
      else if 1 < length statements then Some (GateManyStatements (length statements))
      else (let verb = sqlMainVerb (hd statements) in
        if verb \<in> set writeVerbs then None
        else if verb = [] then Some GateNoVerb
        else if verb \<in> {''CREATE'', ''DROP'', ''ALTER'', ''TRUNCATE'', ''REINDEX''}
          then Some (GateSchemaDDL verb)
        else Some (GateNotPermitted verb)))"

section \<open>The three cuts are one\<close>

lemma gateStatements_acc: "gateStatements acc cur tks = acc @ gateStatements [] cur tks"
proof (induction tks arbitrary: acc cur)
  case (Cons t ts)
  show ?case
    using Cons.IH [of "acc @ [cur]"] Cons.IH [of "[cur]" "[]"] Cons.IH [of acc] by simp
qed simp

lemma tokenStatementsLoop_gate:
  "start \<le> length pre \<Longrightarrow>
   tokenStatementsLoop (pre @ ts) (length pre) start acc ts = gateStatements acc (drop start pre) ts"
proof (induction ts arbitrary: pre start acc)
  case (Cons t ts)
  have "take (length pre - start) (drop start (pre @ t # ts)) = drop start pre"
    using Cons.prems by simp
  moreover have "tokenStatementsLoop (pre @ t # ts) (Suc (length pre)) s a ts =
      gateStatements a (drop s (pre @ [t])) ts" if "s \<le> Suc (length pre)" for s a
    using Cons.IH [of s "pre @ [t]" a] that by simp
  ultimately show ?case
    using Cons.prems by (auto simp: drop_eq_Nil)
qed auto

lemma sqlTokenStatements_gate: "sqlTokenStatements tks = gateStatements [] [] tks"
  using tokenStatementsLoop_gate [of 0 "[]" tks "[]"] by (simp add: sqlTokenStatements_def)

lemma writeTargetsLoop_gate:
  "writeTargetsLoop ws n cur ts =
   (ws @ List.map_filter sqlStatementWrite (gateStatements [] cur ts), n + length (gateStatements [] cur ts))"
proof (induction ts arbitrary: ws n cur)
  case Nil
  then show ?case by (simp add: flushStatement_def List.map_filter_def split: option.split)
next
  case (Cons t ts)
  have "gateStatements [cur] [] ts = cur # gateStatements [] [] ts"
    using gateStatements_acc [of "[cur]"] by simp
  then show ?case
    using Cons.IH by (simp add: flushStatement_def List.map_filter_def split: option.split)
qed

lemma sqlWriteTargets_statements:
  "sqlWriteTargets s = (List.map_filter sqlStatementWrite (sqlTokenStatements (sqlTokenize s)),
     length (sqlTokenStatements (sqlTokenize s)))"
  by (simp add: sqlWriteTargets_def writeTargetsLoop_gate sqlTokenStatements_gate)

lemma gateStatements_concat:
  "concat (gateStatements [] cur ts) = cur @ filter (\<lambda>t. \<not> isSemi t) ts"
proof (induction ts arbitrary: cur)
  case (Cons t ts)
  then show ?case using gateStatements_acc [of "[cur]" "[]" ts] by simp
qed simp

lemma gateStatements_nonempty: "st \<in> set (gateStatements [] cur ts) \<Longrightarrow> st \<noteq> []"
proof (induction ts arbitrary: cur)
  case (Cons t ts)
  then show ?case using gateStatements_acc [of "[cur]" "[]" ts] by (auto split: if_splits)
qed (auto split: if_splits)

lemma statement_tokens:
  "st \<in> set (sqlTokenStatements tks) \<Longrightarrow> t \<in> set st \<Longrightarrow> t \<in> set tks \<and> \<not> isSemi t"
proof -
  assume "st \<in> set (sqlTokenStatements tks)" "t \<in> set st"
  then have "t \<in> set (concat (gateStatements [] [] tks))" by (auto simp: sqlTokenStatements_gate)
  then show ?thesis by (simp add: gateStatements_concat)
qed

section \<open>The two verb walks\<close>

lemma mainVerbs_ascii: "w \<in> set mainVerbs \<Longrightarrow> is_ascii w \<and> to_upper w = w"
  unfolding mainVerbs_def by (auto; code_simp)

lemma kwAt_ascii:
  assumes "i < length tks" "is_ascii (t_text (tks ! i))" "is_ascii w" "to_upper w = w"
  shows "kwAt tks i w \<longleftrightarrow> t_kind (tks ! i) = SqlTokWord \<and> to_upper (t_text (tks ! i)) = w"
  using assms by (simp add: kwAt_def equal_fold_ascii)

lemma verb_loops:
  assumes "\<forall>t \<in> set ts. is_ascii (t_text t)"
  shows "let j = verbIndexLoop (pre @ ts) depth (length pre) ts; v = mainVerbLoop depth ts in
     (j < length (pre @ ts) \<and> t_kind ((pre @ ts) ! j) = SqlTokWord \<and> v \<in> set mainVerbs
        \<and> to_upper (t_text ((pre @ ts) ! j)) = v)
     \<or> (j = length (pre @ ts) \<and> v = ''WITH'')"
  using assms
proof (induction ts arbitrary: pre depth)
  case (Cons t ts)
  let ?all = "pre @ t # ts"
  have t: "?all ! length pre = t" "is_ascii (t_text t)" using Cons.prems by simp_all
  have kw: "mainVerbAt ?all (length pre) \<longleftrightarrow>
      t_kind t = SqlTokWord \<and> to_upper (t_text t) \<in> set mainVerbs"
  proof -
    have "kwAt ?all (length pre) w \<longleftrightarrow> t_kind t = SqlTokWord \<and> to_upper (t_text t) = w"
      if "w \<in> set mainVerbs" for w
      using kwAt_ascii [of "length pre" ?all w] mainVerbs_ascii [OF that] t by simp
    then show ?thesis by (auto simp: mainVerbAt_def)
  qed
  have IH: "let j = verbIndexLoop ?all d (Suc (length pre)) ts; v = mainVerbLoop d ts in
     (j < length ?all \<and> t_kind (?all ! j) = SqlTokWord \<and> v \<in> set mainVerbs
        \<and> to_upper (t_text (?all ! j)) = v) \<or> (j = length ?all \<and> v = ''WITH'')" for d
    using Cons.IH [of "pre @ [t]" d] Cons.prems by simp
  show ?case
  proof (cases "t_kind t = SqlTokPunct")
    case True
    then show ?thesis
      using IH [of depth] IH [of "Suc depth"] IH [of "depth - 1"] by simp
  next
    case False
    note np = this
    show ?thesis
    proof (cases "depth = 0 \<and> mainVerbAt ?all (length pre)")
      case True
      with np kw t show ?thesis by simp
    next
      case False
      then have "depth \<noteq> 0 \<or> t_kind t \<noteq> SqlTokWord \<or> to_upper (t_text t) \<notin> set mainVerbs"
        unfolding kw by simp
      then have "mainVerbLoop depth (t # ts) = mainVerbLoop depth ts" using np by auto
      moreover have "verbIndexLoop ?all depth (length pre) (t # ts) = verbIndexLoop ?all depth (Suc (length pre)) ts"
        using np False by auto
      ultimately show ?thesis using IH [of depth] by simp
    qed
  qed
qed simp

lemma mainVerbLoop_nonempty: "mainVerbLoop d ts \<in> insert ''WITH'' (set mainVerbs)"
  by (induction d ts rule: mainVerbLoop.induct) auto

text \<open>On ASCII tokens the two walks find the same verb: at \<open>sqlStatementVerbIndex\<close> stands
  the word \<open>sqlMainVerb\<close> reports.\<close>

lemma verb_walks:
  assumes ascii: "\<forall>t \<in> set st. is_ascii (t_text t)" and word: "st \<noteq> []" "t_kind (hd st) = SqlTokWord"
  shows "(sqlStatementVerbIndex st < length st \<and> t_kind (st ! sqlStatementVerbIndex st) = SqlTokWord
       \<and> to_upper (t_text (st ! sqlStatementVerbIndex st)) = sqlMainVerb st)
     \<or> (sqlStatementVerbIndex st = length st \<and> sqlMainVerb st = ''WITH'')"
proof -
  obtain t ts where st: "st = t # ts" using word by (cases st) auto
  have w: "is_ascii ''WITH'' \<and> to_upper ''WITH'' = ''WITH''" by code_simp
  have kw: "kwAt st 0 ''WITH'' \<longleftrightarrow> to_upper (t_text t) = ''WITH''"
    using kwAt_ascii [of 0 st "''WITH''"] ascii word w by (simp add: st)
  show ?thesis
  proof (cases "to_upper (t_text t) = ''WITH''")
    case True
    with word kw have "sqlStatementVerbIndex st = verbIndexLoop st 0 1 ts" "sqlMainVerb st = mainVerbLoop 0 ts"
      by (simp_all add: st sqlStatementVerbIndex_def sqlMainVerb_def)
    with verb_loops [of ts "[t]" 0] ascii show ?thesis
      by (auto simp: st Let_def)
  next
    case False
    with word kw show ?thesis by (simp add: st sqlStatementVerbIndex_def sqlMainVerb_def)
  qed
qed

section \<open>Properties\<close>

text \<open>The sources cut a script into statements in three places; all three agree. The
  statements \<open>sqlTokenStatements\<close> returns are the ones the write gate counts, and
  \<open>sqlWriteTargets\<close> reports exactly their number and, in order, their write targets. No
  statement is empty and no token other than a semicolon is lost.\<close>

theorem statement_cuts_agree:
  "gateStatements [] [] tks = sqlTokenStatements tks \<and>
   sqlWriteTargets s = (List.map_filter sqlStatementWrite (sqlTokenStatements (sqlTokenize s)),
     length (sqlTokenStatements (sqlTokenize s))) \<and>
   [] \<notin> set (sqlTokenStatements tks) \<and>
   concat (sqlTokenStatements tks) = filter (\<lambda>t. \<not> isSemi t) tks"
  using gateStatements_nonempty [of "[]" "[]" tks] gateStatements_concat [of "[]" tks]
  by (auto simp: sqlTokenStatements_gate sqlWriteTargets_statements)

lemma validateSQLWriteStatement_ok:
  "validateSQLWriteStatement s = None \<longleftrightarrow>
   (\<exists>st. sqlTokenStatements (sqlTokenize s) = [st] \<and> sqlMainVerb st \<in> set writeVerbs)"
proof -
  let ?L = "sqlTokenStatements (sqlTokenize s)"
  consider (none) "?L = []" | (one) st where "?L = [st]" | (many) a b c where "?L = a # b # c"
    by (cases ?L; cases "tl ?L") auto
  then show ?thesis
  proof cases
    case one
    then show ?thesis
      by (simp add: validateSQLWriteStatement_def Let_def sqlTokenStatements_gate [symmetric])
  qed (simp_all add: validateSQLWriteStatement_def Let_def sqlTokenStatements_gate [symmetric])
qed

lemma sqlMainVerb_word: "sqlMainVerb st \<noteq> [] \<Longrightarrow> st \<noteq> [] \<and> t_kind (hd st) = SqlTokWord"
  by (auto simp: sqlMainVerb_def split: if_splits)

definition verbAction :: "string \<Rightarrow> string" where
  [go_eval]: "verbAction v = (if v = ''UPDATE'' then ''update'' else if v = ''DELETE'' then ''delete''
     else ''insert'')"

lemma writeHead_action:
  assumes "sqlStatementVerbIndex st = i" "i < length st" "t_kind (st ! i) = SqlTokWord"
    and "is_ascii (t_text (st ! i))" "to_upper (t_text (st ! i)) = v" "writeHead st = Some (j, a)"
  shows "a = verbAction v"
proof -
  have kw: "kwAt st i w \<longleftrightarrow> v = w" if "w \<in> set mainVerbs" for w
    using kwAt_ascii [of i st w] mainVerbs_ascii [OF that] assms by auto
  have "kwAt st i ''INSERT'' \<longleftrightarrow> v = ''INSERT''" "kwAt st i ''REPLACE'' \<longleftrightarrow> v = ''REPLACE''"
    "kwAt st i ''UPDATE'' \<longleftrightarrow> v = ''UPDATE''" "kwAt st i ''DELETE'' \<longleftrightarrow> v = ''DELETE''"
    by (rule kw; simp add: mainVerbs_def)+
  with assms(1,6) show ?thesis
    by (auto simp: writeHead_def verbAction_def Let_def split: if_splits)
qed

text \<open>C19: What the write gate accepts is one statement that the write-target walk reads the
  same way: for an ASCII text the gate passes, there is exactly one statement, its verb is
  INSERT, REPLACE, UPDATE or DELETE and stands as a bare word at the index the other walk
  finds, and any write target reported carries that verb's action.\<close>

theorem write_gate_sound:
  assumes "is_ascii s" and "validateSQLWriteStatement s = None"
  shows "\<exists>st. sqlTokenStatements (sqlTokenize s) = [st] \<and>
     snd (sqlWriteTargets s) = 1 \<and>
     sqlStatementVerbIndex st < length st \<and>
     t_kind (st ! sqlStatementVerbIndex st) = SqlTokWord \<and>
     to_upper (t_text (st ! sqlStatementVerbIndex st)) \<in> set writeVerbs \<and>
     (\<forall>w \<in> set (fst (sqlWriteTargets s)).
        Action w = verbAction (to_upper (t_text (st ! sqlStatementVerbIndex st))))"
proof -
  obtain st where st: "sqlTokenStatements (sqlTokenize s) = [st]" and v: "sqlMainVerb st \<in> set writeVerbs"
    using assms(2) validateSQLWriteStatement_ok by blast
  have "\<forall>t \<in> set st. is_ascii (t_text t)"
    using statement_tokens [of st "sqlTokenize s"] st sqlTokenize_ascii [OF assms(1)] by simp
  moreover have "sqlMainVerb st \<noteq> []" "sqlMainVerb st \<noteq> ''WITH''"
    using v by (auto simp: writeVerbs_def)
  ultimately have w: "sqlStatementVerbIndex st < length st"
    "t_kind (st ! sqlStatementVerbIndex st) = SqlTokWord"
    "to_upper (t_text (st ! sqlStatementVerbIndex st)) = sqlMainVerb st"
    and ascii: "is_ascii (t_text (st ! sqlStatementVerbIndex st))"
    using verb_walks [of st] sqlMainVerb_word [of st] by auto
  have "Action w = verbAction (sqlMainVerb st)" if "sqlStatementWrite st = Some w" for w
    using that writeHead_action [OF refl w(1,2) ascii w(3)]
    by (auto simp: sqlStatementWrite_def split: option.splits if_splits)
  then have "\<forall>w \<in> set (fst (sqlWriteTargets s)). Action w = verbAction (sqlMainVerb st)"
    by (auto simp: sqlWriteTargets_statements st List.map_filter_def split: option.splits)
  with st v w show ?thesis by (auto simp: sqlWriteTargets_statements)
qed

theorem write_gate_sound_witness:
  "\<exists>st. sqlTokenStatements (sqlTokenize ''delete from t'') = [st] \<and>
     snd (sqlWriteTargets ''delete from t'') = 1 \<and>
     sqlStatementVerbIndex st < length st \<and>
     t_kind (st ! sqlStatementVerbIndex st) = SqlTokWord \<and>
     to_upper (t_text (st ! sqlStatementVerbIndex st)) \<in> set writeVerbs \<and>
     (\<forall>w \<in> set (fst (sqlWriteTargets ''delete from t'')).
        Action w = verbAction (to_upper (t_text (st ! sqlStatementVerbIndex st))))"
proof (rule write_gate_sound)
  show "is_ascii ''delete from t''" by (simp add: go_eval)
  show "validateSQLWriteStatement ''delete from t'' = None" by (simp add: go_eval)
qed

text \<open>Outside ASCII the two verb walks differ: \<open>ToUpper\<close> maps the dotless i to I while
  \<open>EqualFold\<close> does not fold it, so the gate accepts a text whose first word is not an SQL
  verb and in which the write-target walk finds no write.\<close>

theorem write_gate_non_ascii_verb:
  "validateSQLWriteStatement ([CHR 0xC4, CHR 0xB1] @ ''nsert t'') = None \<and>
   sqlWriteTargets ([CHR 0xC4, CHR 0xB1] @ ''nsert t'') = ([], 1)"
  by (simp add: go_eval)

end
