(* ===== verification/Sql_Restore.thy ===== *)
theory Sql_Restore
  imports Sql_Statements
begin

text \<open>
  The SQL restore of \<^verbatim>\<open>import_sql.go\<close>: \<open>splitSQLStatements\<close>, which streams a script
  and hands each statement to a callback, and \<open>guardRestoreStatement\<close>, which decides what the
  restore may execute. The splitter is shown to be the callback run over the script's
  statements, and the guard never meets a statement with a second one inside: the two read
  the same statement boundaries.
\<close>

section \<open>The splitter\<close>

type_synonym ('s, 'e) callback = "'s \<Rightarrow> string \<Rightarrow> 'e option \<times> 's"

text \<open>The closure's state is the statement read so far and the callback's own state.\<close>

definition splitFlush :: "('s, 'e) callback \<Rightarrow> string \<times> 's \<Rightarrow> 'e option \<times> string \<times> 's" where
  [go_eval]: "splitFlush fn st =
     (let stmt = trim_space (fst st) in
      if stmt = [] then (None, [], snd st)
      else (case fn (snd st) stmt of (e, st') \<Rightarrow> (e, [], st')))"

definition splitVisit :: "('s, 'e) callback \<Rightarrow> (string \<times> 's, 'e) visitor" where
  [go_eval]: "splitVisit fn st c kind =
     (if kind = SqlCode \<and> c = CHR '';'' then splitFlush fn st
      else (None, fst st @ [c], snd st))"

definition splitEnd :: "('s, 'e) callback \<Rightarrow> 'e option \<times> string \<times> 's \<Rightarrow> 'e option \<times> 's" where
  [go_eval]: "splitEnd fn res =
     (case res of
        (Some e, st') \<Rightarrow> (Some e, snd st')
      | (None, st') \<Rightarrow> (case splitFlush fn st' of (e, st'') \<Rightarrow> (e, snd st'')))"

definition splitSQLStatements :: "('s, 'e) callback \<Rightarrow> 'e sqlReader \<Rightarrow> 's \<Rightarrow> 'e option \<times> 's" where
  [go_eval]: "splitSQLStatements fn r st = splitEnd fn (scanSQL (splitVisit fn) r ([], st))"

text \<open>The statements of a script, collected by a callback that never fails.\<close>

definition sqlScriptStatements :: "string \<Rightarrow> string list" where
  [go_eval]: "sqlScriptStatements s =
     snd (splitSQLStatements (\<lambda>acc stmt. (None :: unit option, acc @ [stmt]))
       \<lparr>reader_bytes = s, reader_fails = None\<rparr> [])"

section \<open>The guard\<close>

datatype restoreError =
    RestoreLoadExtension | RestorePragma | RestoreAttach
  | RestoreDDL string | RestoreTransaction string | RestoreVerb string
  | RestoreToken string | RestoreSemicolon

definition wordByte :: "char \<Rightarrow> bool" where
  [go_eval]: "wordByte c \<longleftrightarrow> c = CHR ''_'' \<or> is_letter c \<or> is_digit c"

definition upperWordByte :: "char \<Rightarrow> bool" where
  [go_eval]: "upperWordByte c \<longleftrightarrow> c = CHR ''_'' \<or> is_upper c \<or> is_digit c"

text \<open>The regular expressions \<^verbatim>\<open>(?i)\bWORD\b\<close> on the raw text: a maximal run of word
  bytes that is the word, whatever its case.\<close>

definition rawWord :: "string \<Rightarrow> string \<Rightarrow> bool" where
  [go_eval]: "rawWord w s \<longleftrightarrow> w \<in> set (map (map upc) (fields_by wordByte [] s))"

definition allowedRestoreVerbs :: "string list" where
  [go_eval]: "allowedRestoreVerbs = [''INSERT'', ''UPDATE'', ''DELETE'', ''REPLACE'', ''WITH'']"

definition ddlVerbs :: "string list" where
  [go_eval]: "ddlVerbs = [''CREATE'', ''ALTER'', ''DROP'', ''TRUNCATE'']"

definition transactionControlVerbs :: "string list" where
  [go_eval]: "transactionControlVerbs =
     [''BEGIN'', ''COMMIT'', ''ROLLBACK'', ''END'', ''SAVEPOINT'', ''RELEASE'']"

definition bannedRestoreTokens :: "string list" where
  [go_eval]: "bannedRestoreTokens = [''ATTACH'', ''DETACH'', ''LOAD_EXTENSION'', ''PRAGMA'']"

definition stripRestoreSQLComments :: "string \<Rightarrow> string" where
  [go_eval]: "stripRestoreSQLComments sql = stripSQLComments sql"

definition restoreVerb :: "string \<Rightarrow> string" where
  [go_eval]: "restoreVerb bare =
     (let normalized = join '' '' (str_fields bare)
      in case cut_at CHR '' '' normalized of Some (v, _) \<Rightarrow> v | None \<Rightarrow> normalized)"

definition guardRestoreStatement :: "string \<Rightarrow> restoreError option" where
  [go_eval]: "guardRestoreStatement stmt =
     (if contains ''load_extension'' (to_lower stmt) then Some RestoreLoadExtension
      else if rawWord ''PRAGMA'' stmt then Some RestorePragma
      else if rawWord ''ATTACH'' stmt \<or> rawWord ''DETACH'' stmt then Some RestoreAttach
      else
        let bare = to_upper (trim_space (stripRestoreSQLComments stmt)) in
        if bare = [] then None
        else
          let verb = restoreVerb bare in
          if verb \<notin> set allowedRestoreVerbs then
            Some (if verb \<in> set ddlVerbs then RestoreDDL verb
                  else if verb = ''PRAGMA'' then RestorePragma
                  else if verb \<in> set transactionControlVerbs then RestoreTransaction verb
                  else RestoreVerb verb)
          else
            let literalStripped = stripSQLLiterals bare in
            case find (\<lambda>tok. tok \<in> set bannedRestoreTokens) (fields_by upperWordByte [] literalStripped) of
              Some tok \<Rightarrow> Some (if tok = ''PRAGMA'' then RestorePragma else RestoreToken tok)
            | None \<Rightarrow> (if CHR '';'' \<in> set literalStripped then Some RestoreSemicolon else None))"

section \<open>The splitter is the callback over the statements\<close>

fun segments :: "string \<Rightarrow> (char \<times> sqlByteKind) list \<Rightarrow> string list" where
  "segments cur [] = [cur]"
| "segments cur ((c, k) # xs) =
     (if k = SqlCode \<and> c = CHR '';'' then cur # segments [] xs else segments (cur @ [c]) xs)"

definition statements_of :: "string \<Rightarrow> string list" where
  "statements_of s = filter (\<lambda>t. t \<noteq> []) (map trim_space (segments [] (classify s)))"

text \<open>Running a callback over a list of statements, stopping at its first error.\<close>

fun call_all :: "('s, 'e) callback \<Rightarrow> string list \<Rightarrow> 's \<Rightarrow> 'e option \<times> 's" where
  "call_all fn [] st = (None, st)"
| "call_all fn (x # xs) st =
     (case fn st x of (Some e, st') \<Rightarrow> (Some e, st') | (None, st') \<Rightarrow> call_all fn xs st')"

text \<open>All but the last segment, which the final flush handles.\<close>

lemma visit_split:
  "splitEnd fn (visit_all (splitVisit fn) xs (cur, st))
   = call_all fn (filter (\<lambda>t. t \<noteq> []) (map trim_space (segments cur xs))) st"
proof (induction xs arbitrary: cur st)
  case Nil
  then show ?case
    by (simp add: splitEnd_def splitFlush_def Let_def split: prod.split option.split)
next
  case (Cons x xs)
  obtain c k where x: "x = (c, k)" by (cases x)
  show ?case
  proof (cases "k = SqlCode \<and> c = CHR '';''")
    case True
    obtain e st' where fn: "fn st (trim_space cur) = (e, st')" by (cases "fn st (trim_space cur)")
    have v: "visit_all (splitVisit fn) (x # xs) (cur, st) =
        (if trim_space cur = [] then visit_all (splitVisit fn) xs ([], st)
         else case e of Some err \<Rightarrow> (Some err, [], st') | None \<Rightarrow> visit_all (splitVisit fn) xs ([], st'))"
      using True by (simp add: x splitVisit_def splitFlush_def Let_def fn split: option.split)
    have "segments cur (x # xs) = cur # segments [] xs" using True by (simp add: x)
    then show ?thesis
      by (simp add: v Cons.IH fn split: option.split) (simp add: splitEnd_def)
  next
    case False
    then have "visit_all (splitVisit fn) (x # xs) (cur, st) = visit_all (splitVisit fn) xs (cur @ [c], st)"
      by (auto simp: x splitVisit_def)
    moreover have "segments cur (x # xs) = segments (cur @ [c]) xs"
      using False by (auto simp: x)
    ultimately show ?thesis using Cons.IH [of "cur @ [c]" st] by simp
  qed
qed

lemma splitSQLStatements_call_all:
  "reader_fails r = None \<Longrightarrow>
   splitSQLStatements fn r st = call_all fn (statements_of (reader_bytes r)) st"
proof -
  assume "reader_fails r = None"
  then have "scanSQL (splitVisit fn) r ([], st) =
      visit_all (splitVisit fn) (classify (reader_bytes r)) ([], st)"
    by (simp add: scanSQL_def scanSQLFrom_visit_all split: prod.split option.split)
  then show ?thesis
    by (simp add: splitSQLStatements_def visit_split statements_of_def)
qed

lemma call_all_collect: "call_all (\<lambda>acc stmt. (None, acc @ [stmt])) xs acc = (None, acc @ xs)"
  by (induction xs arbitrary: acc) auto

lemma sqlScriptStatements_eq: "sqlScriptStatements s = statements_of s"
  by (simp add: sqlScriptStatements_def splitSQLStatements_call_all call_all_collect)

section \<open>Splitter and guard agree on boundaries\<close>

definition noSemi :: "string \<Rightarrow> bool" where
  "noSemi x \<longleftrightarrow> (CHR '';'', SqlCode) \<notin> set (classify x)"

lemma segments_takeWhile:
  "segments cur xs = (let ys = takeWhile (\<lambda>x. x \<noteq> (CHR '';'', SqlCode)) xs;
                          zs = dropWhile (\<lambda>x. x \<noteq> (CHR '';'', SqlCode)) xs
     in (cur @ map fst ys) # (if zs = [] then [] else segments [] (tl zs)))"
  by (induction cur xs rule: segments.induct) (auto simp: Let_def)

lemma joinFree_hd: "b = [] \<or> hd b \<notin> {CHR ''-'', CHR ''/'', CHR ''*''} \<Longrightarrow> joinFree a b"
  by (auto simp: joinFree_def)

lemma lex_step_semi: "lex_step m (CHR '';'') r = (SqlCode, m') \<Longrightarrow> quote_mode m \<Longrightarrow> m' = InCode"
  by (cases m) (auto simp: lex_step_def quote_mode_def split: if_splits)

lemma quote_mode_after: "quote_mode m \<Longrightarrow> quote_mode (mode_after m s)"
  by (induction s arbitrary: m) (auto intro: quote_mode_step)

text \<open>Cutting the classification at its first code semicolon leaves the classification of the
  text before it, and the scan goes on in code after it.\<close>

lemma cut_classification:
  assumes "quote_mode m"
  shows "\<exists>a. takeWhile (\<lambda>x. x \<noteq> (CHR '';'', SqlCode)) (cls m s) = cls m a \<and>
     (dropWhile (\<lambda>x. x \<noteq> (CHR '';'', SqlCode)) (cls m s) = [] \<or>
      (\<exists>b. length b < length s \<and>
         dropWhile (\<lambda>x. x \<noteq> (CHR '';'', SqlCode)) (cls m s) = (CHR '';'', SqlCode) # cls InCode b))"
  using assms
proof (induction s arbitrary: m)
  case Nil
  then show ?case by (intro exI [of _ "[]"]) simp
next
  case (Cons c r)
  let ?P = "\<lambda>x. x \<noteq> (CHR '';'', SqlCode)"
  obtain k m' where step: "lex_step m c r = (k, m')" by (cases "lex_step m c r")
  show ?case
  proof (cases "(c, k) = (CHR '';'', SqlCode)")
    case True
    with step Cons.prems have "m' = InCode" by (auto dest: lex_step_semi)
    with True step show ?thesis by (intro exI [of _ "[]"]) auto
  next
    case False
    have "quote_mode m'" using quote_mode_step [OF Cons.prems, of c r] step by simp
    from Cons.IH [OF this] obtain a where a: "takeWhile ?P (cls m' r) = cls m' a"
      and d: "dropWhile ?P (cls m' r) = [] \<or> (\<exists>b. length b < length r \<and>
         dropWhile ?P (cls m' r) = (CHR '';'', SqlCode) # cls InCode b)" by blast
    let ?rest = "map fst (dropWhile ?P (cls m' r))"
    have "r = map fst (takeWhile ?P (cls m' r) @ dropWhile ?P (cls m' r))" by simp
    then have r: "r = a @ ?rest" by (simp only: map_append a cls_bytes)
    have "joinFree (c # a) ?rest" using d by (auto simp: joinFree_def)
    then have "lex_step m c a = (k, m')" using step r by (metis lex_step_append)
    with a have "takeWhile ?P (cls m (c # r)) = cls m (c # a)" using False step by simp
    moreover have "dropWhile ?P (cls m (c # r)) = dropWhile ?P (cls m' r)" using False step by simp
    moreover have "dropWhile ?P (cls m' r) = [] \<or> (\<exists>b. length b < length (c # r) \<and>
         dropWhile ?P (cls m' r) = (CHR '';'', SqlCode) # cls InCode b)"
      using d by (metis length_Cons less_SucI)
    ultimately show ?thesis by metis
  qed
qed

lemma segments_noSemi: "x \<in> set (segments [] (classify s)) \<Longrightarrow> noSemi x"
proof (induction "length s" arbitrary: s rule: less_induct)
  case less
  let ?P = "\<lambda>x. x \<noteq> (CHR '';'', SqlCode)"
  have "quote_mode InCode" by (simp add: quote_mode_def)
  from cut_classification [OF this, of s] obtain a
    where a: "takeWhile ?P (classify s) = classify a"
      and d: "dropWhile ?P (classify s) = [] \<or> (\<exists>b. length b < length s \<and>
         dropWhile ?P (classify s) = (CHR '';'', SqlCode) # classify b)"
    unfolding classify_def by blast
  have "map fst (classify a) = a" by (simp add: classify_def)
  with a d less.prems consider "x = a" | b where "length b < length s" "x \<in> set (segments [] (classify b))"
    by (auto simp: segments_takeWhile [of "[]" "classify s"] Let_def split: if_splits)
  then show ?case
  proof cases
    case 1
    have "(CHR '';'', SqlCode) \<notin> set (takeWhile ?P (classify s))"
      using set_takeWhileD by fastforce
    with 1 a show ?thesis by (simp add: noSemi_def)
  qed (use less.hyps in blast)
qed

text \<open>No comments, and every semicolon inside quotes.\<close>

definition semiQuoted :: "(char \<times> sqlByteKind) list \<Rightarrow> bool" where
  "semiQuoted xs \<longleftrightarrow> (\<forall>(c, k) \<in> set xs. \<not> comment_kind k \<and> (c = CHR '';'' \<longrightarrow> quoted k))"

lemma semiQuoted_simps [simp]:
  "semiQuoted []"
  "semiQuoted ((c, k) # xs) \<longleftrightarrow> \<not> comment_kind k \<and> (c = CHR '';'' \<longrightarrow> quoted k) \<and> semiQuoted xs"
  by (simp_all add: semiQuoted_def)

lemma semiQuoted_append [simp]: "semiQuoted (xs @ ys) \<longleftrightarrow> semiQuoted xs \<and> semiQuoted ys"
  by (auto simp: semiQuoted_def)

lemma space_byte_plain: "space_byte c \<Longrightarrow> lex_step InCode c r = (SqlCode, InCode)"
  by (rule lex_step_plain) (auto simp: space_byte_def ascii_space_def byte_def)

lemma cls_spaces:
  "(\<forall>c \<in> set l. space_byte c) \<Longrightarrow> cls InCode (l @ x) = map (\<lambda>c. (c, SqlCode)) l @ cls InCode x"
  by (induction l) (simp_all add: space_byte_plain)

text \<open>Trimming keeps the classification of what is left.\<close>

lemma classify_trim_space:
  obtains a b where "classify s = a @ classify (trim_space s) @ b"
proof -
  obtain l r where s: "s = l @ trim_space s @ r"
    and sp: "\<forall>c \<in> set l \<union> set r. space_byte c"
    by (rule trim_space_removes)
  have "joinFree (trim_space s) r"
    using sp by (intro joinFree_hd) (cases r; auto simp: space_byte_def ascii_space_def byte_def)
  then have "classify s = map (\<lambda>c. (c, SqlCode)) l @ classify (trim_space s)
      @ cls (mode_after InCode (trim_space s)) r"
    unfolding classify_def using sp by (subst s) (simp add: cls_spaces cls_append)
  then show ?thesis using that by blast
qed

lemma noSemi_trim_space: "noSemi s \<Longrightarrow> noSemi (trim_space s)"
  by (rule classify_trim_space [of s]) (auto simp: noSemi_def)

lemma semiQuoted_trim_space: "semiQuoted (classify s) \<Longrightarrow> semiQuoted (classify (trim_space s))"
  by (rule classify_trim_space [of s]) auto

lemma semiQuoted_strip:
  assumes "noSemi s"
  shows "semiQuoted (classify (stripSQLComments s))"
proof -
  let ?P = "\<lambda>x. x = (CHR '';'', SqlCode)"
  have "filter ?P (classify (stripSQLComments s)) = filter ?P (classify s)"
    unfolding classify_stripSQLComments unfolding classify_def
    by (rule strip_emit_filter) (auto simp: comment_kind_def)
  also have "\<dots> = []" using assms by (auto simp: noSemi_def filter_empty_conv)
  finally have semi: "(CHR '';'', SqlCode) \<notin> set (classify (stripSQLComments s))"
    by (auto simp: filter_empty_conv)
  have "\<not> comment_kind k \<and> (c = CHR '';'' \<longrightarrow> quoted k)"
    if "(c, k) \<in> set (classify (stripSQLComments s))" for c k
    using stripSQLComments_no_comment [OF that] semi that by (cases k) (auto simp: comment_kind_def)
  then show ?thesis by (auto simp: semiQuoted_def)
qed

subsection \<open>Upper case keeps the quoting\<close>

definition textMode :: "lex_mode \<Rightarrow> bool" where
  "textMode m \<longleftrightarrow> (case m of InCode \<Rightarrow> True | InQuote _ cl \<Rightarrow> \<not> is_letter cl \<and> byte cl < 128 | _ \<Rightarrow> False)"

lemma special_chars:
  "\<not> is_letter CHR 0x27" "\<not> is_letter CHR 0x22" "\<not> is_letter CHR ''[''" "\<not> is_letter CHR '']''"
  "\<not> is_letter CHR 0x60" "\<not> is_letter CHR ''-''" "\<not> is_letter CHR ''/''" "\<not> is_letter CHR ''*''"
  "\<not> is_letter CHR '';''"
  "byte CHR 0x27 < 128" "byte CHR 0x22 < 128" "byte CHR ''['' < 128" "byte CHR '']'' < 128"
  "byte CHR 0x60 < 128" "byte CHR ''-'' < 128" "byte CHR ''/'' < 128" "byte CHR ''*'' < 128"
  by (simp_all add: is_letter_def is_lower_def is_upper_def byte_def)

lemma textMode_step:
  "textMode m \<Longrightarrow> lex_step m c r = (k, m') \<Longrightarrow> \<not> comment_kind k \<Longrightarrow> textMode m'"
  by (cases m) (auto simp: textMode_def lex_step_def comment_kind_def special_chars split: if_splits)

lemma lex_step_upc:
  assumes "textMode m" and "peekIsNext r' CHR ''-'' = peekIsNext r CHR ''-''"
    and "peekIsNext r' CHR ''*'' = peekIsNext r CHR ''*''"
  shows "lex_step m (upc c) r' = lex_step m c r"
proof (cases m)
  case InCode
  have "quoteOpen (upc c) = quoteOpen c" by (simp add: upc_eq_nonletter special_chars)
  with InCode show ?thesis
    by (cases "quoteOpen c")
      (simp_all add: lex_step_def upc_eq_nonletter special_chars assms(2,3) del: quoteOpen.simps)
next
  case (InQuote k cl)
  with assms(1) show ?thesis by (simp add: lex_step_def textMode_def upc_eq_nonletter)
qed (use assms(1) in \<open>simp_all add: textMode_def\<close>)

lemma high_neq: "128 \<le> byte c \<or> is_letter c \<Longrightarrow> \<not> is_letter d \<Longrightarrow> byte d < 128 \<Longrightarrow> c \<noteq> d"
  by auto

lemma lex_step_high_kind:
  assumes "textMode m" and "128 \<le> byte c \<or> is_letter c"
  shows "lex_step m c r = (case m of InQuote k _ \<Rightarrow> k | _ \<Rightarrow> SqlCode, m)"
proof (cases m)
  case InCode
  have "c \<noteq> CHR 0x27" "c \<noteq> CHR 0x22" "c \<noteq> CHR ''[''" "c \<noteq> CHR 0x60" "c \<noteq> CHR ''-''" "c \<noteq> CHR ''/''"
    by (rule high_neq [OF assms(2)]; simp add: special_chars)+
  then show ?thesis by (simp add: InCode lex_step_plain)
next
  case (InQuote k cl)
  with assms(1) have "c \<noteq> cl" by (intro high_neq [OF assms(2)]) (simp_all add: textMode_def)
  then show ?thesis by (simp add: InQuote lex_step_def)
qed (use assms(1) in \<open>simp_all add: textMode_def\<close>)

lemma lex_step_high:
  "textMode m \<Longrightarrow> 128 \<le> byte c \<or> is_letter c \<Longrightarrow> snd (lex_step m c r) = m"
  by (simp add: lex_step_high_kind)

lemma peek_to_upper:
  "\<not> is_letter x \<Longrightarrow> byte x < 128 \<Longrightarrow> peekIsNext (to_upper s) x = peekIsNext s x"
  by (cases s) (auto simp: to_upper_Cons upc_eq_nonletter is_letter_def is_upper_def byte_def)

lemma semiQuoted_to_upper:
  "textMode m \<Longrightarrow> semiQuoted (cls m s) \<Longrightarrow> semiQuoted (cls m (to_upper s))"
proof (induction "length s" arbitrary: s m rule: less_induct)
  case less
  show ?case
  proof (cases s)
    case (Cons c r)
    obtain k m' where step: "lex_step m c r = (k, m')" by (cases "lex_step m c r")
    have sq: "\<not> comment_kind k" "c = CHR '';'' \<longrightarrow> quoted k" "semiQuoted (cls m' r)"
      using less.prems(2) by (simp_all add: Cons step)
    have m': "textMode m'" using textMode_step less.prems(1) step sq(1) by blast
    show ?thesis
    proof (cases "128 \<le> byte c \<and> r \<noteq> [] \<and> 128 \<le> byte (hd r) \<and> to_upper s \<noteq> upc c # to_upper r")
      case True
      then obtain d where d: "to_upper s = d # to_upper (tl r)" "is_letter d" "d \<noteq> CHR '';''"
        by (auto simp: Cons to_upper_Cons is_letter_def is_upper_def byte_def split: if_splits)
      have keep: "m' = m" using lex_step_high [OF less.prems(1), of c r] True by (simp add: step)
      obtain c2 r2 where r: "r = c2 # r2" using True by (cases r) auto
      have "snd (lex_step m c2 r2) = m" using lex_step_high [OF less.prems(1)] True r by simp
      with sq(3) keep r have "semiQuoted (cls m r2)" by (simp split: prod.splits)
      with less.hyps [of r2 m] less.prems(1) Cons r have "semiQuoted (cls m (to_upper r2))" by simp
      moreover have "lex_step m d (to_upper r2) = (k, m)"
        using lex_step_high_kind [OF less.prems(1)] d(2) True step by (metis keep prod.inject)
      ultimately show ?thesis using d sq(1) r by simp
    next
      case False
      then have up: "to_upper s = upc c # to_upper r"
        by (auto simp: Cons to_upper_Cons byte_def split: if_splits)
      have "lex_step m (upc c) (to_upper r) = (k, m')"
        unfolding step [symmetric]
        by (rule lex_step_upc [OF less.prems(1)]; rule peek_to_upper; simp add: special_chars)
      moreover have "upc c = CHR '';'' \<longleftrightarrow> c = CHR '';''"
        by (rule upc_eq_nonletter) (simp add: special_chars)
      moreover have "semiQuoted (cls m' (to_upper r))"
        using less.hyps [of r m'] m' sq(3) Cons by simp
      ultimately show ?thesis using sq by (simp add: up)
    qed
  qed simp
qed

lemma semiQuoted_literals: "semiQuoted (classify s) \<Longrightarrow> CHR '';'' \<notin> set (stripSQLLiterals s)"
proof
  assume "semiQuoted (classify s)" and "CHR '';'' \<in> set (stripSQLLiterals s)"
  then obtain c k where "(c, k) \<in> set (classify s)" "CHR '';'' = (if quoted k then CHR '' '' else c)"
    "c = CHR '';'' \<longrightarrow> quoted k"
    by (auto simp: stripSQLLiterals_map semiQuoted_def)
  then show False by (cases "quoted k") auto
qed

lemma guard_no_semicolon:
  assumes "noSemi t"
  shows "guardRestoreStatement t \<noteq> Some RestoreSemicolon"
proof -
  have "semiQuoted (classify (to_upper (trim_space (stripRestoreSQLComments t))))"
    unfolding stripRestoreSQLComments_def classify_def
    by (rule semiQuoted_to_upper)
      (simp_all add: textMode_def assms semiQuoted_strip semiQuoted_trim_space flip: classify_def)
  from semiQuoted_literals [OF this] show ?thesis
    by (simp add: guardRestoreStatement_def Let_def split: option.split)
qed

section \<open>Properties\<close>

text \<open>The restore's splitter runs its callback over the script's statements in order, on
  every read that succeeds, and stops at the callback's first error.\<close>

theorem splitSQLStatements_runs:
  "splitSQLStatements fn \<lparr>reader_bytes = s, reader_fails = None\<rparr> st
   = call_all fn (sqlScriptStatements s) st"
  by (simp add: splitSQLStatements_call_all sqlScriptStatements_eq)

text \<open>Splitter and guard read the same statement boundaries: no statement the splitter
  cuts from a script is refused by the guard for holding a second statement.\<close>

theorem restore_boundaries_agree:
  "t \<in> set (sqlScriptStatements s) \<Longrightarrow> guardRestoreStatement t \<noteq> Some RestoreSemicolon"
  by (auto simp: sqlScriptStatements_eq statements_of_def
      intro!: guard_no_semicolon noSemi_trim_space dest: segments_noSemi)

theorem restore_boundaries_agree_witness:
  "''D'' \<in> set (sqlScriptStatements ''D;E'') \<and> guardRestoreStatement ''D'' \<noteq> Some RestoreSemicolon"
proof -
  have "statements_of ''D;E'' = [''D'', ''E'']"
    by (simp add: statements_of_def classify_def lex_step_def go_eval)
  then have "''D'' \<in> set (sqlScriptStatements ''D;E'')" by (simp add: sqlScriptStatements_eq)
  with restore_boundaries_agree [of "''D''" "''D;E''"] show ?thesis by simp
qed

end
