(* ===== verification/Sqlite_Text.thy ===== *)
theory Sqlite_Text
  imports Go_Base
begin

text \<open>
  The text the SQLite driver can run (the last section of \<^verbatim>\<open>sql_scan.go\<close>):
  \<open>sqliteTokenLen\<close>, the length and class of SQLite's own token at the start of a text,
  \<open>sqliteStatementLen\<close>, one statement, and \<open>sqlRunnableText\<close>, the walk over the parts the
  driver compiles. Every loop of the source is a recursion with a proved measure, so the walk
  returns on every input.
\<close>

datatype sqliteTokenClass = sqliteTokenParsed | sqliteTokenSkipped | sqliteTokenSemi

definition byteAt :: "string \<Rightarrow> nat \<Rightarrow> char" where
  "byteAt z i = (if i < length z then z ! i else CHR 0x00)"

definition sqliteIsSpace :: "char \<Rightarrow> bool" where
  "sqliteIsSpace b \<longleftrightarrow> b = CHR '' '' \<or> (9 \<le> byte b \<and> byte b \<le> 13)"

definition sqliteIsDigit :: "char \<Rightarrow> bool" where
  "sqliteIsDigit b \<longleftrightarrow> is_digit b"

definition sqliteIsHexDigit :: "char \<Rightarrow> bool" where
  "sqliteIsHexDigit b \<longleftrightarrow> sqliteIsDigit b \<or> (97 \<le> byte b \<and> byte b \<le> 102) \<or> (65 \<le> byte b \<and> byte b \<le> 70)"

definition sqliteIdentByte :: "char \<Rightarrow> bool" where
  "sqliteIdentByte b \<longleftrightarrow> b = CHR ''_'' \<or> b = CHR ''$'' \<or> 128 \<le> byte b \<or> sqliteIsDigit b
     \<or> is_lower b \<or> is_upper b"

text \<open>The loop \<^verbatim>\<open>for p(at(i)) { i++ }\<close>, for a \<open>p\<close> that is false at NUL.\<close>

definition scanWhile :: "(char \<Rightarrow> bool) \<Rightarrow> string \<Rightarrow> nat \<Rightarrow> nat" where
  "scanWhile p z i = i + length (takeWhile p (drop i z))"

text \<open>The loop of a block comment, entered after the byte \<open>ch\<close>.\<close>

function blockEnd :: "string \<Rightarrow> nat \<Rightarrow> char \<Rightarrow> nat" where
  "blockEnd z i ch =
     (if ch = CHR ''*'' \<and> byteAt z i = CHR ''/'' then i + 1
      else let ch' = byteAt z i in
        if ch' = CHR 0x00 then i else blockEnd z (i + 1) ch')"
  by pat_completeness auto
termination
  by (relation "measure (\<lambda>(z, i, ch). length z - i)") (auto simp: byteAt_def split: if_splits)

function quoteEnd :: "char \<Rightarrow> string \<Rightarrow> nat \<Rightarrow> nat" where
  "quoteEnd c z i =
     (if i < length z then
        (if z ! i = c then
           (if byteAt z (i + 1) \<noteq> c then i + 1 else quoteEnd c z (i + 2))
         else quoteEnd c z (i + 1))
      else length z)"
  by pat_completeness auto
termination
  by (relation "measure (\<lambda>(c, z, i). length z - i)") auto

function bracketEnd :: "string \<Rightarrow> nat \<Rightarrow> nat" where
  "bracketEnd z i =
     (if i < length z then (if z ! i = CHR '']'' then i + 1 else bracketEnd z (i + 1)) else i)"
  by pat_completeness auto
termination
  by (relation "measure (\<lambda>(z, i). length z - i)") auto

text \<open>The parenthesized suffix of a parameter, from its opening parenthesis at \<open>i\<close>.\<close>

definition parenEnd :: "string \<Rightarrow> nat \<Rightarrow> nat" where
  "parenEnd z i =
     (let j = scanWhile (\<lambda>ch. ch \<noteq> CHR 0x00 \<and> \<not> sqliteIsSpace ch \<and> ch \<noteq> CHR '')'') z (i + 1) in
      if byteAt z j = CHR '')'' then j + 1 else j)"

function paramEnd :: "string \<Rightarrow> nat \<Rightarrow> bool \<Rightarrow> nat" where
  "paramEnd z i named =
     (if i < length z then
        let ch = z ! i in
        if sqliteIdentByte ch then paramEnd z (i + 1) True
        else if ch = CHR ''('' \<and> named then parenEnd z i
        else if ch = CHR '':'' \<and> byteAt z (i + 1) = CHR '':'' then paramEnd z (i + 2) named
        else i
      else i)"
  by pat_completeness auto
termination
  by (relation "measure (\<lambda>(z, i, named). length z - i)") auto

declare blockEnd.simps [simp del] quoteEnd.simps [simp del] bracketEnd.simps [simp del]
  paramEnd.simps [simp del]

definition digitsFrom :: "(char \<Rightarrow> bool) \<Rightarrow> string \<Rightarrow> nat \<Rightarrow> nat" where
  "digitsFrom digit z i = scanWhile (\<lambda>b. digit b \<or> b = CHR ''_'') z i"

definition numberEnd :: "string \<Rightarrow> nat" where
  "numberEnd z =
     (let i =
        (if byteAt z 0 = CHR ''0'' \<and> (byteAt z 1 = CHR ''x'' \<or> byteAt z 1 = CHR ''X'')
            \<and> sqliteIsHexDigit (byteAt z 2) then digitsFrom sqliteIsHexDigit z 3
         else
           let i = digitsFrom sqliteIsDigit z 0;
               i = (if byteAt z i = CHR ''.'' then digitsFrom sqliteIsDigit z (i + 1) else i)
           in if (byteAt z i = CHR ''e'' \<or> byteAt z i = CHR ''E'') \<and>
                 (sqliteIsDigit (byteAt z (i + 1)) \<or>
                  ((byteAt z (i + 1) = CHR ''+'' \<or> byteAt z (i + 1) = CHR ''-'') \<and> sqliteIsDigit (byteAt z (i + 2))))
              then digitsFrom sqliteIsDigit z (i + 2) else i)
      in scanWhile sqliteIdentByte z i)"

definition blobEnd :: "string \<Rightarrow> nat" where
  "blobEnd z =
     (let i = scanWhile sqliteIsHexDigit z 2;
          i = (if byteAt z i \<noteq> CHR 0x27 \<or> i mod 2 \<noteq> 0
               then scanWhile (\<lambda>b. b \<noteq> CHR 0x27) z i else i)
      in if i < length z then i + 1 else i)"

text \<open>The two-byte operators.\<close>

definition twoByteOp :: "char \<Rightarrow> char \<Rightarrow> bool" where
  "twoByteOp c d \<longleftrightarrow> (c = CHR ''='' \<and> d = CHR ''='')
     \<or> (c = CHR ''<'' \<and> (d = CHR ''='' \<or> d = CHR ''>'' \<or> d = CHR ''<''))
     \<or> (c = CHR ''>'' \<and> (d = CHR ''='' \<or> d = CHR ''>''))
     \<or> (c = CHR ''!'' \<and> d = CHR ''='') \<or> (c = CHR ''|'' \<and> d = CHR ''|'')"

definition sqliteTokenLen :: "string \<Rightarrow> nat \<times> sqliteTokenClass" where
  "sqliteTokenLen z =
     (let c = byteAt z 0 in
      if c \<in> {CHR '' '', CHR 0x09, CHR 0x0A, CHR 0x0C, CHR 0x0D} then
        (scanWhile sqliteIsSpace z 1, sqliteTokenSkipped)
      else if c = CHR '';'' then (1, sqliteTokenSemi)
      else if c = CHR ''-'' then
        (if byteAt z 1 = CHR ''-'' then (scanWhile (\<lambda>b. b \<noteq> CHR 0x0A) z 2, sqliteTokenSkipped)
         else if byteAt z 1 = CHR ''>'' then
           (if byteAt z 2 = CHR ''>'' then (3, sqliteTokenParsed) else (2, sqliteTokenParsed))
         else (1, sqliteTokenParsed))
      else if c = CHR ''/'' then
        (if byteAt z 1 \<noteq> CHR ''*'' \<or> byteAt z 2 = CHR 0x00 then (1, sqliteTokenParsed)
         else (blockEnd z 3 (byteAt z 2), sqliteTokenSkipped))
      else if c \<in> {CHR 0x27, CHR 0x22, CHR 0x60} then (quoteEnd c z 1, sqliteTokenParsed)
      else if c = CHR ''['' then (bracketEnd z 1, sqliteTokenParsed)
      else if c = CHR ''.'' \<and> \<not> sqliteIsDigit (byteAt z 1) then (1, sqliteTokenParsed)
      else if c = CHR ''.'' \<or> sqliteIsDigit c then (numberEnd z, sqliteTokenParsed)
      else if c = CHR ''?'' then (scanWhile sqliteIsDigit z 1, sqliteTokenParsed)
      else if c \<in> {CHR ''$'', CHR ''@'', CHR '':'', CHR ''#''} then (paramEnd z 1 False, sqliteTokenParsed)
      else if (c = CHR ''x'' \<or> c = CHR ''X'') \<and> byteAt z 1 = CHR 0x27 then (blobEnd z, sqliteTokenParsed)
      else if c = CHR 0xEF \<and> byteAt z 1 = CHR 0xBB \<and> byteAt z 2 = CHR 0xBF then (3, sqliteTokenSkipped)
      else if sqliteIdentByte c then (scanWhile sqliteIdentByte z 1, sqliteTokenParsed)
      else if twoByteOp c (byteAt z 1) then (2, sqliteTokenParsed)
      else (1, sqliteTokenParsed))"

section \<open>A token is a non-empty part of the text\<close>

lemma scanWhile_ge: "i \<le> scanWhile p z i"
  by (simp add: scanWhile_def)

lemma scanWhile_le: "i \<le> length z \<Longrightarrow> scanWhile p z i \<le> length z"
  using length_takeWhile_le [of p "drop i z"] by (simp add: scanWhile_def)

lemma blockEnd_bounds: "i \<le> length z \<Longrightarrow> i \<le> blockEnd z i ch \<and> blockEnd z i ch \<le> length z"
proof (induction z i ch rule: blockEnd.induct)
  case (1 z i ch)
  show ?case
  proof (cases "ch = CHR ''*'' \<and> byteAt z i = CHR ''/''")
    case True
    then show ?thesis by (subst (1 2) blockEnd.simps) (auto simp: byteAt_def split: if_splits)
  next
    case False
    show ?thesis
    proof (cases "byteAt z i = CHR 0x00")
      case True
      with False 1 show ?thesis by (subst (1 2) blockEnd.simps) auto
    next
      case next_byte: False
      then have "i + 1 \<le> length z" by (simp add: byteAt_def split: if_splits)
      from "1.IH" [OF False refl next_byte this] False next_byte show ?thesis
        by (subst (1 2) blockEnd.simps) auto
    qed
  qed
qed

lemma quoteEnd_bounds: "i \<le> length z \<Longrightarrow> i \<le> quoteEnd c z i \<and> quoteEnd c z i \<le> length z"
proof (induction c z i rule: quoteEnd.induct)
  case (1 c z i)
  have "byteAt z (i + 1) = c \<Longrightarrow> z ! i = c \<Longrightarrow> c \<noteq> CHR 0x00 \<Longrightarrow> i + 2 \<le> length z"
    by (simp add: byteAt_def split: if_splits)
  show ?case
  proof (cases "i < length z \<and> z ! i = c \<and> byteAt z (i + 1) = c")
    case True
    then have step: "quoteEnd c z i = quoteEnd c z (i + 2)" by (subst quoteEnd.simps) simp
    show ?thesis
    proof (cases "i + 2 \<le> length z")
      case False
      then have "quoteEnd c z (i + 2) = length z" by (subst quoteEnd.simps) simp
      with step 1 show ?thesis by simp
    qed (use "1.IH"(1) True step in auto)
  next
    case False
    then show ?thesis using 1 by (subst (1 2) quoteEnd.simps) auto
  qed
qed

lemma bracketEnd_bounds: "i \<le> length z \<Longrightarrow> i \<le> bracketEnd z i \<and> bracketEnd z i \<le> length z"
proof (induction z i rule: bracketEnd.induct)
  case (1 z i)
  then show ?case by (subst (1 2) bracketEnd.simps) auto
qed

lemma parenEnd_bounds: "i < length z \<Longrightarrow> i \<le> parenEnd z i \<and> parenEnd z i \<le> length z"
  using scanWhile_ge [of "i + 1"] scanWhile_le [of "i + 1" z]
  by (auto simp: parenEnd_def Let_def byteAt_def le_Suc_eq Suc_leD split: if_splits)

lemma paramEnd_bounds: "i \<le> length z \<Longrightarrow> i \<le> paramEnd z i named \<and> paramEnd z i named \<le> length z"
proof (induction z i named rule: paramEnd.induct)
  case (1 z i named)
  show ?case
  proof (cases "i < length z")
    case True
    have two: "byteAt z (i + 1) = CHR '':'' \<Longrightarrow> i + 2 \<le> length z"
      by (simp add: byteAt_def split: if_splits)
    show ?thesis
      using "1.IH"(1) [OF True refl] "1.IH"(2) [OF True refl] True two parenEnd_bounds [OF True]
      by (subst (1 2) paramEnd.simps) (auto simp: Let_def)
  qed (subst (1 2) paramEnd.simps, use 1 in simp)
qed

lemma digitsFrom_bounds: "i \<le> length z \<Longrightarrow> i \<le> digitsFrom d z i \<and> digitsFrom d z i \<le> length z"
  by (simp add: digitsFrom_def scanWhile_ge scanWhile_le)

lemma byteAt_in: "byteAt z i \<noteq> CHR 0x00 \<Longrightarrow> i < length z"
  by (simp add: byteAt_def split: if_splits)

lemma ident_nonzero: "sqliteIdentByte b \<Longrightarrow> b \<noteq> CHR 0x00" "sqliteIsDigit b \<Longrightarrow> b \<noteq> CHR 0x00"
  "sqliteIsHexDigit b \<Longrightarrow> b \<noteq> CHR 0x00"
  by (auto simp: sqliteIdentByte_def sqliteIsDigit_def sqliteIsHexDigit_def is_digit_def is_lower_def
      is_upper_def byte_def)

text \<open>The three stages of a decimal number: digits, fraction, exponent.\<close>

lemma decimal_start:
  assumes "sqliteIsDigit (byteAt z 0) \<or> byteAt z 0 = CHR ''.''" and "z \<noteq> []"
  shows "let i = digitsFrom sqliteIsDigit z 0;
             j = (if byteAt z i = CHR ''.'' then digitsFrom sqliteIsDigit z (i + 1) else i)
         in 0 < j \<and> j \<le> length z"
proof -
  let ?i = "digitsFrom sqliteIsDigit z 0"
  have i: "?i \<le> length z" using digitsFrom_bounds by simp
  show ?thesis
  proof (cases "byteAt z ?i = CHR ''.''")
    case True
    then have "?i + 1 \<le> length z" using byteAt_in [of z ?i] by simp
    from digitsFrom_bounds [OF this, of sqliteIsDigit] True show ?thesis by (simp add: Let_def)
  next
    case False
    have "byteAt z 0 = hd z" using assms(2) by (simp add: byteAt_def hd_conv_nth)
    with assms False have "0 < ?i"
      by (cases z) (auto simp: digitsFrom_def scanWhile_def)
    with False i show ?thesis by (simp add: Let_def)
  qed
qed

lemma exponent_bounds:
  assumes "0 < i" "i \<le> length z"
    and "j = (if (byteAt z i = CHR ''e'' \<or> byteAt z i = CHR ''E'') \<and>
                 (sqliteIsDigit (byteAt z (i + 1)) \<or>
                  ((byteAt z (i + 1) = CHR ''+'' \<or> byteAt z (i + 1) = CHR ''-'') \<and> sqliteIsDigit (byteAt z (i + 2))))
              then digitsFrom sqliteIsDigit z (i + 2) else i)"
  shows "0 < j \<and> j \<le> length z"
proof (cases "j = i")
  case False
  then have "byteAt z (i + 1) \<noteq> CHR 0x00" and j: "j = digitsFrom sqliteIsDigit z (i + 2)"
    using assms(3) ident_nonzero(2) by (auto split: if_splits)
  then have "i + 2 \<le> length z" using byteAt_in by fastforce
  from digitsFrom_bounds [OF this, of sqliteIsDigit] j show ?thesis by simp
qed (use assms in simp)

lemma numberEnd_bounds:
  assumes "sqliteIsDigit (byteAt z 0) \<or> byteAt z 0 = CHR ''.''"
  shows "0 < numberEnd z \<and> numberEnd z \<le> length z"
proof -
  have ne: "z \<noteq> []"
    using assms byteAt_in [of z 0] ident_nonzero(2) by (cases z) auto
  have "\<exists>i. numberEnd z = scanWhile sqliteIdentByte z i \<and> 0 < i \<and> i \<le> length z"
  proof (cases "byteAt z 0 = CHR ''0'' \<and> (byteAt z 1 = CHR ''x'' \<or> byteAt z 1 = CHR ''X'')
      \<and> sqliteIsHexDigit (byteAt z 2)")
    case True
    then have "3 \<le> length z" using byteAt_in [of z 2] ident_nonzero(3) by fastforce
    from digitsFrom_bounds [OF this, of sqliteIsHexDigit]
    show ?thesis unfolding numberEnd_def Let_def if_P [OF True] by auto
  next
    case False
    from decimal_start [OF assms ne] exponent_bounds [OF _ _ refl]
    show ?thesis unfolding numberEnd_def Let_def if_not_P [OF False] by blast
  qed
  then show ?thesis using scanWhile_ge scanWhile_le by (metis le_trans less_le_trans)
qed

lemma blobEnd_bounds:
  assumes "2 \<le> length z" shows "0 < blobEnd z \<and> blobEnd z \<le> length z"
proof -
  let ?i = "scanWhile sqliteIsHexDigit z 2"
  let ?j = "if byteAt z ?i \<noteq> CHR 0x27 \<or> ?i mod 2 \<noteq> 0 then scanWhile (\<lambda>b. b \<noteq> CHR 0x27) z ?i else ?i"
  have "2 \<le> ?i" "?i \<le> length z" using scanWhile_ge scanWhile_le assms by auto
  then have "2 \<le> ?j \<and> ?j \<le> length z" using scanWhile_ge [of ?i "\<lambda>b. b \<noteq> CHR 0x27" z]
      scanWhile_le [of ?i z "\<lambda>b. b \<noteq> CHR 0x27"] by auto
  moreover have "blobEnd z = (if ?j < length z then ?j + 1 else ?j)" by (simp only: blobEnd_def Let_def)
  ultimately show ?thesis by (simp only: split: if_split) auto
qed

lemma scan_from_1: "z \<noteq> [] \<Longrightarrow> 0 < scanWhile p z 1 \<and> scanWhile p z 1 \<le> length z"
  using scanWhile_ge [of 1 p z] scanWhile_le [of 1 z p] by (cases z) auto

lemma sqliteTokenLen_bounds:
  assumes "z \<noteq> []"
  shows "0 < fst (sqliteTokenLen z) \<and> fst (sqliteTokenLen z) \<le> length z"
proof -
  have 1: "1 \<le> length z" using assms by (cases z) auto
  have 2: "byteAt z 1 \<noteq> CHR 0x00 \<Longrightarrow> 2 \<le> length z" using byteAt_in [of z 1] by simp
  have 3: "byteAt z 2 \<noteq> CHR 0x00 \<Longrightarrow> 3 \<le> length z" using byteAt_in [of z 2] by simp
  note b = scan_from_1 [OF assms] quoteEnd_bounds [OF 1] bracketEnd_bounds [OF 1] paramEnd_bounds [OF 1]
  have pos: "0 < quoteEnd c z 1" "0 < bracketEnd z 1" "0 < paramEnd z 1 nm" for c nm
    using b by (auto intro: less_le_trans [OF zero_less_one])
  have scan2: "byteAt z 1 = CHR ''-'' \<Longrightarrow> 0 < scanWhile p z 2 \<and> scanWhile p z 2 \<le> length z" for p
    using scanWhile_ge [of 2 p z] scanWhile_le [of 2 z p] 2 by auto
  have block: "byteAt z 2 \<noteq> CHR 0x00 \<Longrightarrow>
      0 < blockEnd z 3 (byteAt z 2) \<and> blockEnd z 3 (byteAt z 2) \<le> length z"
    using blockEnd_bounds [of 3 z "byteAt z 2"] 3 by linarith
  have op: "twoByteOp c (byteAt z 1) \<Longrightarrow> 2 \<le> length z" for c
    using 2 by (auto simp: twoByteOp_def)
  show ?thesis
    unfolding sqliteTokenLen_def Let_def
    using 1 2 3 b pos scan2 block op numberEnd_bounds [of z] blobEnd_bounds
    by (simp split del: if_split) (auto split: if_split)
qed

section \<open>Statements\<close>

text \<open>The loop over the tokens of one statement; \<open>n\<close> counts the bytes used up.\<close>

lemma token_advances:
  assumes "n < length src" and "(sz, cl) = sqliteTokenLen (drop n src)"
  shows "0 < sz" and "n + sz \<le> length src" and "length src - (n + sz) < length src - n"
proof -
  have "drop n src \<noteq> []" using assms(1) by simp
  from sqliteTokenLen_bounds [OF this] show "0 < sz" "n + sz \<le> length src"
    using assms(1) by (simp_all add: assms(2) [symmetric] del: drop_eq_Nil, linarith)
  then show "length src - (n + sz) < length src - n" using assms(1) by simp
qed

function statementLoop :: "bool \<Rightarrow> string \<Rightarrow> nat \<Rightarrow> bool \<Rightarrow> nat \<times> bool" where
  "statementLoop firstOnly src n found =
     (if n < length src then
        (case sqliteTokenLen (drop n src) of (sz, cl) \<Rightarrow>
           (case cl of
              sqliteTokenSkipped \<Rightarrow> statementLoop firstOnly src (n + sz) found
            | sqliteTokenSemi \<Rightarrow>
                (if found then (n + sz, True) else statementLoop firstOnly src (n + sz) found)
            | sqliteTokenParsed \<Rightarrow>
                (if firstOnly then (n + sz, True) else statementLoop firstOnly src (n + sz) True)))
      else (n, found))"
  by pat_completeness auto
termination
  by (relation "measure (\<lambda>(f, src, n, found). length src - n)")
    (simp_all add: token_advances(3))

declare statementLoop.simps [simp del]

definition sqliteStatementLen :: "string \<Rightarrow> bool \<Rightarrow> nat \<times> bool" where
  "sqliteStatementLen src firstOnly = statementLoop firstOnly src 0 False"

lemma semi_token:
  assumes "sqliteTokenLen (drop n src) = (sz, sqliteTokenSemi)" and "n < length src"
  shows "sz = 1" and "src ! n = CHR '';''"
  using assms by (auto simp: sqliteTokenLen_def byteAt_def Let_def split: if_splits)

lemma statementLoop_step:
  assumes "n < length src" and "sqliteTokenLen (drop n src) = (sz, cl)"
    and "statementLoop f src n found = (m, b)"
  obtains (finish) "m = n + sz" "b" "cl = sqliteTokenParsed" "f"
    | (semi) "m = n + sz" "b" "found" "cl = sqliteTokenSemi"
    | (loop) found' where "statementLoop f src (n + sz) found' = (m, b)"
        "found' = (found \<or> cl = sqliteTokenParsed)" "cl \<noteq> sqliteTokenSemi \<or> \<not> found"
        "cl = sqliteTokenParsed \<longrightarrow> \<not> f"
proof -
  have "(m, b) = (case cl of
      sqliteTokenSkipped \<Rightarrow> statementLoop f src (n + sz) found
    | sqliteTokenSemi \<Rightarrow> (if found then (n + sz, True) else statementLoop f src (n + sz) found)
    | sqliteTokenParsed \<Rightarrow> (if f then (n + sz, True) else statementLoop f src (n + sz) True))"
    unfolding assms(3) [symmetric] by (subst statementLoop.simps) (simp add: assms)
  then show ?thesis
    using that by (cases cl) (auto split: if_splits)
qed

lemma statementLoop_bounds:
  "n \<le> length src \<Longrightarrow> statementLoop f src n found = (m, b) \<Longrightarrow>
   n \<le> m \<and> m \<le> length src \<and> (b \<longrightarrow> found \<or> n < m) \<and> (found \<longrightarrow> b) \<and>
   (\<not> f \<longrightarrow> m < length src \<longrightarrow> b \<and> src ! (m - 1) = CHR '';'')"
proof (induction "length src - n" arbitrary: n found rule: less_induct)
  case less
  show ?case
  proof (cases "n < length src")
    case True
    obtain sz cl where tok: "sqliteTokenLen (drop n src) = (sz, cl)"
      by (cases "sqliteTokenLen (drop n src)")
    note adv = token_advances [OF True tok [symmetric]]
    from True tok less.prems(2) show ?thesis
    proof (cases rule: statementLoop_step)
      case finish
      with adv show ?thesis by simp
    next
      case semi
      with semi_token [of n src sz] tok True adv show ?thesis by simp
    next
      case (loop found')
      from less.hyps [OF adv(3) adv(2) loop(1)] adv loop(2) show ?thesis by auto
    qed
  next
    case False
    with less.prems show ?thesis by (subst (asm) statementLoop.simps) auto
  qed
qed

lemma sqliteStatementLen_bounds:
  assumes "sqliteStatementLen src f = (m, b)"
  shows "m \<le> length src" and "b \<Longrightarrow> 0 < m"
    and "\<not> f \<Longrightarrow> m < length src \<Longrightarrow> b \<and> src ! (m - 1) = CHR '';''"
  using statementLoop_bounds [of 0 src f False m b] assms by (auto simp: sqliteStatementLen_def)

text \<open>Stopping at the first token answers the same question.\<close>

lemma statementLoop_first:
  "n \<le> length src \<Longrightarrow>
   snd (statementLoop True src n found) = snd (statementLoop False src n found)"
proof (induction "length src - n" arbitrary: n found rule: less_induct)
  case less
  show ?case
  proof (cases "n < length src")
    case True
    obtain sz cl where tok: "sqliteTokenLen (drop n src) = (sz, cl)"
      by (cases "sqliteTokenLen (drop n src)")
    note adv = token_advances [OF True tok [symmetric]]
    have found: "snd (statementLoop False src (n + sz) True)"
      using statementLoop_bounds [OF adv(2), of False True] by (cases "statementLoop False src (n + sz) True") auto
    note IH = less.hyps [OF adv(3) adv(2)]
    show ?thesis
      using IH found True tok
      by (subst (1 2) statementLoop.simps) (simp split: sqliteTokenClass.split)
  qed (subst (1 2) statementLoop.simps, simp)
qed

section \<open>Runnable src\<close>

lemma trim_space_Nil: "trim_space [] = []"
  by (simp add: trim_space_def trim_left_def trim_right_def trim_by.simps)

text \<open>The walk over the parts: \<open>start\<close> is where the part compiled next begins, \<open>ended\<close> where the
  last statement found ends, and \<open>src\<close> loses the trailing space the driver trims.\<close>

function runnableLoop :: "string \<Rightarrow> string \<Rightarrow> nat \<Rightarrow> nat \<Rightarrow> string option" where
  "runnableLoop query src start ended =
     (case sqliteStatementLen (drop start src) False of
        (n, False) \<Rightarrow> (if ended = 0 then None else Some (take ended query))
      | (n, True) \<Rightarrow>
          (let ended' = start + n;
               rest = drop ended' src;
               part = trim_space rest
           in if part = [] then Some query
              else
                let start' = ended' + (length rest - length (trim_left rest)) in
                runnableLoop query (take (start' + length part) src) start' ended'))"
  by pat_completeness auto
termination
proof (relation "measure (\<lambda>(query, src, start, ended). length src - start)")
  fix query src :: string and start ended n ok x xa xb xc
  assume len: "(n, ok) = sqliteStatementLen (drop start src) False" and "ok = True"
    and x: "x = start + n" "xa = drop x src" "xb = trim_space xa" "xb \<noteq> []"
    "xc = x + (length xa - length (trim_left xa))"
  have "0 < n" using sqliteStatementLen_bounds(2) [OF len [symmetric]] \<open>ok = True\<close> by simp
  then have "start < x" by (simp add: x(1))
  moreover have "x < length src" using x(2-4) trim_space_Nil by (cases "x < length src") auto
  moreover have "x \<le> xc" by (simp add: x(5))
  ultimately have "length (take (xc + length xb) src) - xc < length src - start" by simp
  then show "((query, take (xc + length xb) src, xc, x), query, src, start, ended) \<in>
      measure (\<lambda>(query, src, start, ended). length src - start)"
    by simp
qed simp

declare runnableLoop.simps [simp del]

definition sqlRunnableText :: "string \<Rightarrow> string option" where
  "sqlRunnableText query =
     (let src = takeWhile (\<lambda>c. c \<noteq> CHR 0x00) query in
      if CHR '';'' \<notin> set src then (if snd (sqliteStatementLen src True) then Some query else None)
      else runnableLoop query src 0 0)"

section \<open>Properties\<close>

text \<open>SQLite's token at the start of a non-empty text uses up at least one byte of it and
  never more than there are, so the walk over a text advances and stays inside it.\<close>

theorem sqliteTokenLen_sound:
  "z \<noteq> [] \<Longrightarrow> 0 < fst (sqliteTokenLen z) \<and> fst (sqliteTokenLen z) \<le> length z"
  by (rule sqliteTokenLen_bounds)

theorem sqliteTokenLen_sound_witness:
  "fst (sqliteTokenLen ''-->'') = 3"
  using sqliteTokenLen_sound [of "''-->''"]
  by (simp add: sqliteTokenLen_def byteAt_def scanWhile_def)

lemma runnableLoop_cut:
  assumes "runnableLoop query src start ended = Some r" and "prefix src query"
    and "start \<le> length src"
    and "0 < ended \<longrightarrow> ended \<le> length query \<and> query ! (ended - 1) = CHR '';''"
  shows "r = query \<or> (prefix r query \<and> r \<noteq> [] \<and> last r = CHR '';'')"
  using assms
proof (induction query src start ended rule: runnableLoop.induct)
  case (1 query src start ended)
  obtain n ok where len: "sqliteStatementLen (drop start src) False = (n, ok)"
    by (cases "sqliteStatementLen (drop start src) False")
  let ?e = "start + n"
  let ?rest = "drop ?e src"
  let ?s = "?e + (length ?rest - length (trim_left ?rest))"
  let ?src = "take (?s + length (trim_space ?rest)) src"
  show ?case
  proof (cases ok)
    case False
    with "1.prems" len have "0 < ended" "r = take ended query"
      by (subst (asm) runnableLoop.simps; simp split: if_splits)+
    moreover from this "1.prems"(4) have "last (take ended query) = query ! (ended - 1)"
      by (subst last_conv_nth) auto
    ultimately show ?thesis using "1.prems"(4) by (auto simp: take_is_prefix)
  next
    case True
    show ?thesis
    proof (cases "trim_space ?rest = []")
      case empty: True
      with "1.prems"(1) len True show ?thesis by (subst (asm) runnableLoop.simps) simp
    next
      case False
      have n: "n \<le> length (drop start src)" "0 < n"
        using sqliteStatementLen_bounds(1,2) [OF len] True by auto
      have lt: "?e < length src" using False trim_space_Nil by (cases "?e < length src") auto
      then have "drop start src ! (n - 1) = CHR '';''"
        using sqliteStatementLen_bounds(3) [OF len] by simp
      then have "src ! (?e - 1) = CHR '';''" using n lt by (simp add: nth_drop)
      moreover have "src ! (?e - 1) = query ! (?e - 1)"
        using "1.prems"(2) lt n(2) by (auto simp: prefix_def nth_append)
      ultimately have semi: "query ! (?e - 1) = CHR '';''" by simp
      have run: "runnableLoop query ?src ?s ?e = Some r"
        using "1.prems"(1) len True False by (subst (asm) runnableLoop.simps) (simp add: Let_def)
      have pre: "prefix ?src query" using "1.prems"(2) take_is_prefix prefix_order.trans by blast
      have "length ?rest = length src - ?e" by simp
      then have s: "?s \<le> length src" using lt by linarith
      then have bound: "?s \<le> length ?src" by simp
      have "?e \<le> length query" using lt "1.prems"(2) by (auto dest: prefix_length_le)
      moreover have "ok = True" using True by simp
      ultimately show ?thesis
        using "1.IH" [OF len [symmetric] _ refl refl refl False refl run pre bound] semi by simp
    qed
  qed
qed

text \<open>The text handed to the driver is the query itself or a prefix of it that ends right
  after a semicolon: nothing is rewritten and nothing is added.\<close>

theorem sqlRunnableText_prefix:
  "sqlRunnableText query = Some r \<Longrightarrow>
   r = query \<or> (prefix r query \<and> r \<noteq> [] \<and> last r = CHR '';'')"
  by (auto simp: sqlRunnableText_def Let_def takeWhile_is_prefix prefix_takeWhile
      dest: runnableLoop_cut split: if_splits)

theorem sqlRunnableText_prefix_witness:
  "sqlRunnableText ''x;;'' = Some ''x;''"
proof -
  let ?q = "''x;;''"
  have tok: "sqliteTokenLen ''x;;'' = (1, sqliteTokenParsed)" "sqliteTokenLen '';;'' = (1, sqliteTokenSemi)"
    "sqliteTokenLen '';'' = (1, sqliteTokenSemi)"
    by (simp_all add: sqliteTokenLen_def byteAt_def scanWhile_def sqliteIsDigit_def
        sqliteIdentByte_def go_eval)
  have st: "sqliteStatementLen ?q False = (2, True)" "sqliteStatementLen '';'' False = (1, False)"
    by (simp_all add: sqliteStatementLen_def statementLoop.simps [of False ?q 0 False]
        statementLoop.simps [of False ?q 1 True] statementLoop.simps [of False ?q "Suc 0" True]
        statementLoop.simps [of False "'';''" 0 False]
        statementLoop.simps [of False "'';''" "Suc 0" False] tok)
  have trim: "trim_space '';'' = '';''" "trim_left '';'' = '';''" by (simp_all add: go_eval)
  have "sqlRunnableText ?q = Some ''x;''"
    by (simp add: sqlRunnableText_def Let_def trim st runnableLoop.simps [of ?q ?q 0 0]
        runnableLoop.simps [of ?q ?q 2 2])
  from sqlRunnableText_prefix [OF this] this show ?thesis by simp
qed

lemma runnableLoop_none: "0 < ended \<Longrightarrow> runnableLoop query src start ended \<noteq> None"
proof (induction query src start ended rule: runnableLoop.induct)
  case (1 query src start ended)
  obtain n ok where len: "sqliteStatementLen (drop start src) False = (n, ok)"
    by (cases "sqliteStatementLen (drop start src) False")
  show ?case
  proof (cases "ok \<and> trim_space (drop (start + n) src) \<noteq> []")
    case True
    then have pos: "0 < start + n" using sqliteStatementLen_bounds(2) [OF len] by simp
    have "ok = True" using True by simp
    from "1.IH" [OF len [symmetric] this refl refl refl _ refl pos] True len show ?thesis
      by (subst runnableLoop.simps) (simp add: Let_def)
  qed (use "1.prems" len in \<open>subst runnableLoop.simps, cases ok, auto simp: Let_def\<close>)
qed

text \<open>A text is refused exactly when, up to its first NUL byte, it holds no statement at
  all: only white space, comments and semicolons.\<close>

theorem sqlRunnableText_none:
  "sqlRunnableText query = None \<longleftrightarrow>
   \<not> snd (sqliteStatementLen (takeWhile (\<lambda>c. c \<noteq> CHR 0x00) query) False)"
proof -
  let ?t = "takeWhile (\<lambda>c. c \<noteq> CHR 0x00) query"
  obtain n ok where len: "sqliteStatementLen ?t False = (n, ok)" by (cases "sqliteStatementLen ?t False")
  have first: "snd (sqliteStatementLen ?t True) = snd (sqliteStatementLen ?t False)"
    unfolding sqliteStatementLen_def by (rule statementLoop_first) simp
  have "ok \<Longrightarrow> 0 < n" using sqliteStatementLen_bounds(2) [OF len] by simp
  then have "runnableLoop query ?t 0 0 = None \<longleftrightarrow> \<not> ok"
    using len runnableLoop_none by (subst runnableLoop.simps, cases ok) (simp_all add: Let_def del: not_None_eq)
  with first len show ?thesis by (simp add: sqlRunnableText_def Let_def)
qed

end
