(* ===== verification/Cond_Lexer.thy ===== *)
theory Cond_Lexer
  imports Go_Base
begin

text \<open>
  The lexer of flow condition expressions (\<^verbatim>\<open>flows_condition_expr.go\<close>): \<open>condLexer.next\<close>
  and \<open>condLexer.pipeSegment\<close>. The source keeps the whole text and an index into it; here the
  lexer holds the text that is left and the length of the whole, and the index is their
  difference.
\<close>

datatype condError =
    CondUnterminated nat | CondMalformedNumber nat | CondUnexpectedChar char nat
  | CondEmptyPipe nat | CondUnexpected string nat | CondChained nat | CondTooDeep
  | CondUnclosed string nat | CondEndsEarly | CondOutOfFuel

datatype condTokKind =
    condTokEOF | condTokLParen | condTokRParen | condTokOpenRef | condTokCloseRef
  | condTokAnd | condTokOr | condTokNot | condTokCmp | condTokPipe
  | condTokString | condTokNumber | condTokIdent

record condTok =
  ct_kind :: condTokKind
  ct_text :: string
  ct_pos :: nat

record condLexer =
  lx_len :: nat
  lx_rest :: string

definition condIdentStart :: "char \<Rightarrow> bool" where
  [go_eval]: "condIdentStart b \<longleftrightarrow> b = CHR ''_'' \<or> is_lower b \<or> is_upper b"

definition condIdentByte :: "char \<Rightarrow> bool" where
  [go_eval]: "condIdentByte b \<longleftrightarrow> condIdentStart b \<or> is_digit b \<or> b = CHR ''-'' \<or> b = CHR ''.''"

definition condSpace :: "char \<Rightarrow> bool" where
  [go_eval]: "condSpace b \<longleftrightarrow> b = CHR '' '' \<or> b = CHR 0x09 \<or> b = CHR 0x0A \<or> b = CHR 0x0D"

text \<open>Bytes of an identifier after its first, bracket indices included.\<close>

function identTail :: "string \<Rightarrow> nat" where
  "identTail [] = 0"
| "identTail (c # r) =
     (if condIdentByte c then Suc (identTail r)
      else if c = CHR ''['' then
        let ds = takeWhile is_digit r; after = drop (length ds) r in
        if ds \<noteq> [] \<and> after \<noteq> [] \<and> hd after = CHR '']'' then length ds + 2 + identTail (tl after) else 0
      else 0)"
  by pat_completeness auto
termination
  by (relation "measure length") auto

text \<open>Bytes of a number that starts the text: one byte, digits, and a fraction.\<close>

definition numberLen :: "string \<Rightarrow> nat" where
  [go_eval]: "numberLen s =
     (let n = 1 + length (takeWhile is_digit (drop 1 s)); r = drop n s in
      if 2 \<le> length r \<and> r ! 0 = CHR ''.'' \<and> is_digit (r ! 1)
      then n + 1 + length (takeWhile is_digit (drop (n + 1) s)) else n)"

text \<open>The token a non-empty text starts with: its kind, its bytes and its text.\<close>

definition condScan :: "nat \<Rightarrow> string \<Rightarrow> condError + condTokKind \<times> nat \<times> string" where
  [go_eval]: "condScan start rest =
     (if prefix ''${{'' rest then Inr (condTokOpenRef, 3, ''${{'')
      else if prefix ''{{'' rest then Inr (condTokOpenRef, 2, ''{{'')
      else if prefix ''}}'' rest then Inr (condTokCloseRef, 2, ''}}'')
      else if prefix ''&&'' rest then Inr (condTokAnd, 2, ''&&'')
      else if prefix ''||'' rest then Inr (condTokOr, 2, ''||'')
      else if prefix ''=='' rest then Inr (condTokCmp, 2, ''='')
      else if prefix ''!='' rest \<or> prefix ''>='' rest \<or> prefix ''<='' rest
        then Inr (condTokCmp, 2, take 2 rest)
      else
        let c = hd rest in
        if c = CHR ''('' then Inr (condTokLParen, 1, ''('')
        else if c = CHR '')'' then Inr (condTokRParen, 1, '')'')
        else if c = CHR ''!'' then Inr (condTokNot, 1, ''!'')
        else if c = CHR ''|'' then Inr (condTokPipe, 1, ''|'')
        else if c = CHR ''='' \<or> c = CHR ''>'' \<or> c = CHR ''<'' then Inr (condTokCmp, 1, [c])
        else if c = CHR 0x27 \<or> c = CHR 0x22 then
          (case cut_at c (tl rest) of
             None \<Rightarrow> Inl (CondUnterminated start)
           | Some (a, _) \<Rightarrow> Inr (condTokString, length a + 2, a))
        else if is_digit c \<or> (c = CHR ''-'' \<and> 1 < length rest \<and> is_digit (rest ! 1)) then
          let n = numberLen rest in
          if n < length rest \<and> condIdentByte (rest ! n) then Inl (CondMalformedNumber start)
          else Inr (condTokNumber, n, take n rest)
        else if condIdentStart c then
          let n = 1 + identTail (tl rest) in Inr (condTokIdent, n, take n rest)
        else Inl (CondUnexpectedChar c start))"

definition condNext :: "condLexer \<Rightarrow> condError + condTok \<times> condLexer" where
  [go_eval]: "condNext l =
     (let rest = dropWhile condSpace (lx_rest l);
          start = lx_len l - length rest
      in if rest = [] then
           Inr (\<lparr>ct_kind = condTokEOF, ct_text = [], ct_pos = start\<rparr>, l\<lparr>lx_rest := []\<rparr>)
         else (case condScan start rest of
             Inl e \<Rightarrow> Inl e
           | Inr (k, n, t) \<Rightarrow>
               Inr (\<lparr>ct_kind = k, ct_text = t, ct_pos = start\<rparr>, l\<lparr>lx_rest := drop n rest\<rparr>)))"

text \<open>The bytes of a pipe segment: up to the next pipe, connective, comparison operator,
  closing parenthesis or span end; quoted text and balanced parentheses belong to it.\<close>

function pipeScan :: "nat \<Rightarrow> string \<Rightarrow> nat \<Rightarrow> condError + nat" where
  "pipeScan len [] depth = Inr 0"
| "pipeScan len (c # r) depth =
     (let more = (\<lambda>n res. case res of Inl e \<Rightarrow> Inl e | Inr k \<Rightarrow> Inr (n + k)) in
      if c = CHR 0x27 \<or> c = CHR 0x22 then
        (case cut_at c r of
           None \<Rightarrow> Inl (CondUnterminated (len - length (c # r)))
         | Some (a, b) \<Rightarrow> more (length a + 2) (pipeScan len b depth))
      else if c = CHR ''('' then more 1 (pipeScan len r (depth + 1))
      else if c = CHR '')'' then (if depth = 0 then Inr 0 else more 1 (pipeScan len r (depth - 1)))
      else if c = CHR ''|'' \<or> c = CHR ''='' \<or> c = CHR ''<'' \<or> c = CHR ''>'' then Inr 0
      else if c = CHR ''&'' \<and> prefix ''&'' r then Inr 0
      else if c = CHR ''!'' \<and> prefix ''='' r then Inr 0
      else if c = CHR ''}'' \<and> prefix ''}'' r then Inr 0
      else more 1 (pipeScan len r depth))"
  by pat_completeness auto
termination
  by (relation "measure (\<lambda>(len, s, depth). length s)") (auto simp: cut_at_Some)

definition pipeSegment :: "condLexer \<Rightarrow> condError + string \<times> condLexer" where
  "pipeSegment l =
     (case pipeScan (lx_len l) (lx_rest l) 0 of
        Inl e \<Rightarrow> Inl e
      | Inr i \<Rightarrow>
          (let seg = trim_space (take i (lx_rest l)) in
           if seg = [] then Inl (CondEmptyPipe (lx_len l - length (lx_rest l)))
           else Inr (seg, l\<lparr>lx_rest := drop i (lx_rest l)\<rparr>)))"

section \<open>The lexer advances\<close>

lemma identTail_le: "identTail s \<le> length s"
proof (induction s rule: identTail.induct)
  case (2 c r)
  let ?ds = "takeWhile is_digit r" and ?after = "drop (length (takeWhile is_digit r)) r"
  show ?case
  proof (cases "condIdentByte c \<or> c \<noteq> CHR ''['' \<or> \<not> (?ds \<noteq> [] \<and> ?after \<noteq> [] \<and> hd ?after = CHR '']'')")
    case True
    then show ?thesis using "2.IH"(1) by (auto simp: Let_def)
  next
    case False
    then have "identTail (tl ?after) \<le> length (tl ?after)" using "2.IH"(2) by auto
    moreover have "length (tl ?after) + length ?ds + 1 = length r"
    proof -
      have "0 < length ?after" using False by auto
      then show ?thesis by (simp only: length_tl length_drop)
    qed
    ultimately show ?thesis using False by (simp add: Let_def)
  qed
qed simp

lemma numberLen_bounds: "s \<noteq> [] \<Longrightarrow> 0 < numberLen s \<and> numberLen s \<le> length s"
proof -
  assume "s \<noteq> []"
  then have n: "1 + length (takeWhile is_digit (drop 1 s)) \<le> length s"
    using length_takeWhile_le [of is_digit "drop 1 s"] by (cases s) auto
  have "length (takeWhile is_digit (drop (m + 1) s)) \<le> length s - (m + 1)" for m
    using length_takeWhile_le [of is_digit "drop (m + 1) s"] by simp
  from this [of "1 + length (takeWhile is_digit (drop 1 s))"] n show ?thesis
    unfolding numberLen_def Let_def length_drop by (simp split: if_split) linarith
qed

lemma condScan_bounds:
  assumes "condScan start rest = Inr (k, n, t)" and "rest \<noteq> []"
  shows "k \<noteq> condTokEOF \<and> 0 < n \<and> n \<le> length rest"
proof -
  obtain c r where rest: "rest = c # r" using assms(2) by (cases rest) auto
  have str: "cut_at d r = Some (a, b) \<Longrightarrow> length a + 2 \<le> length rest" for d a b
    by (auto simp: rest cut_at_Some)
  have ide: "identTail r \<le> length r" by (rule identTail_le)
  have num: "0 < numberLen rest" "numberLen rest \<le> length rest"
    using numberLen_bounds [of rest] rest by auto
  show ?thesis
  proof (cases "c = CHR 0x27 \<or> c = CHR 0x22")
    case True
    with assms(1) str show ?thesis
      by (auto simp: condScan_def rest Let_def split: option.splits)
  next
    case False
    with assms(1) ide num show ?thesis
      unfolding condScan_def Let_def rest
      by (auto dest: prefix_length_le split: if_splits simp del: Cons_prefix_Cons)
  qed
qed

text \<open>A token other than the end consumes at least one byte.\<close>

lemma condNext_advances:
  assumes "condNext l = Inr (t, l')"
  shows "lx_len l' = lx_len l" and "suffix (lx_rest l') (lx_rest l)"
    and "ct_kind t \<noteq> condTokEOF \<Longrightarrow> length (lx_rest l') < length (lx_rest l)"
proof -
  let ?rest = "dropWhile condSpace (lx_rest l)"
  have suf: "suffix ?rest (lx_rest l)" by (rule suffix_dropWhile)
  then have len: "length ?rest \<le> length (lx_rest l)" by (rule suffix_length_le)
  have "lx_len l' = lx_len l \<and> suffix (lx_rest l') (lx_rest l) \<and>
      (ct_kind t \<noteq> condTokEOF \<longrightarrow> length (lx_rest l') < length (lx_rest l))"
  proof (cases "?rest = []")
    case True
    with assms show ?thesis by (auto simp: condNext_def Let_def)
  next
    case False
    with assms obtain k n x where scan: "condScan (lx_len l - length ?rest) ?rest = Inr (k, n, x)"
      and l': "l' = l\<lparr>lx_rest := drop n ?rest\<rparr>"
      unfolding condNext_def Let_def if_not_P [OF False] by (auto split: sum.splits)
    have "suffix (drop n ?rest) (lx_rest l)" using suf suffix_drop suffix_order.trans by blast
    moreover have "length (drop n ?rest) < length (lx_rest l)"
      using condScan_bounds [OF scan False] len by (simp, linarith)
    ultimately show ?thesis by (simp add: l')
  qed
  then show "lx_len l' = lx_len l" "suffix (lx_rest l') (lx_rest l)"
    "ct_kind t \<noteq> condTokEOF \<Longrightarrow> length (lx_rest l') < length (lx_rest l)" by auto
qed

lemma pipeSegment_advances:
  "pipeSegment l = Inr (seg, l') \<Longrightarrow>
   lx_len l' = lx_len l \<and> suffix (lx_rest l') (lx_rest l) \<and> seg \<noteq> []"
  by (auto simp: pipeSegment_def Let_def suffix_drop split: sum.splits if_splits)

end
