(* ===== verification/Cond_Parser.thy ===== *)
theory Cond_Parser
  imports Cond_Lexer
begin

text \<open>
  The parser of flow condition expressions (\<^verbatim>\<open>flows_condition_expr.go\<close>,
  \<open>parseCondExpr\<close> and the methods of \<open>condParser\<close>). The methods are mutually recursive:
  an operand is read by \<open>parseUnary\<close>, and \<open>parseCmp\<close>, \<open>parseAnd\<close> and \<open>parseOr\<close> are given
  the operand parser as an argument, since each recursive call goes one level deeper. The
  recursion is over the levels left under \<open>condMaxDepth\<close>. The two loops carry fuel for the
  tokens left; \<open>parseCondExpr_total\<close> shows that it is never used up. The translation of a dotted
  path to a data reference (\<open>translateGHAExpr\<close>) is the argument \<open>tr\<close>.
\<close>

text \<open>A Go value of type \<open>any\<close> as conditions see it. A collection is its length and its
  \<^verbatim>\<open>%v\<close> text, any other value its \<^verbatim>\<open>%v\<close> text.\<close>

datatype goValue =
    GoNil
  | GoBool bool
  | GoStr string
  | GoColl nat string
  | GoOther string

datatype condExpr =
    CondLit goValue
  | CondRef string
  | CondNot condExpr
  | CondAnd condExpr condExpr
  | CondOr condExpr condExpr
  | CondCmp string condExpr condExpr

definition condMaxDepth :: nat where
  "condMaxDepth = 64"

record condParser =
  cp_lex :: condLexer
  cp_tok :: condTok

type_synonym condResult = "condError + condExpr \<times> condParser"

definition advance :: "condParser \<Rightarrow> condError + condParser" where
  "advance p =
     (case condNext (cp_lex p) of
        Inl e \<Rightarrow> Inl e
      | Inr (t, l) \<Rightarrow> Inr \<lparr>cp_lex = l, cp_tok = t\<rparr>)"

text \<open>Return an expression after reading the next token.\<close>

definition advanceWith :: "condExpr \<Rightarrow> condParser \<Rightarrow> condResult" where
  "advanceWith e p = (case advance p of Inl err \<Rightarrow> Inl err | Inr p' \<Rightarrow> Inr (e, p'))"

text \<open>The pipes after a reference, read as source text.\<close>

function pipeLoop :: "condLexer \<Rightarrow> string \<Rightarrow> condError + string \<times> condLexer" where
  "pipeLoop l ref =
     (let rest = dropWhile condSpace (lx_rest l) in
      if \<not> prefix ''|'' rest \<or> prefix ''||'' rest then Inr (ref, l)
      else (case pipeSegment (l\<lparr>lx_rest := tl rest\<rparr>) of
          Inl e \<Rightarrow> Inl e
        | Inr (seg, l') \<Rightarrow> pipeLoop l' (ref @ '' | '' @ seg)))"
  by pat_completeness auto

lemma pipe_shrinks:
  assumes "prefix ''|'' (dropWhile condSpace r)"
    and "pipeSegment (l\<lparr>lx_rest := tl (dropWhile condSpace r)\<rparr>) = Inr (seg, l')"
  shows "length (lx_rest l') < length r"
proof -
  have "suffix (lx_rest l') (tl (dropWhile condSpace r))"
    using pipeSegment_advances [OF assms(2)] by simp
  then have "length (lx_rest l') \<le> length (tl (dropWhile condSpace r))" by (rule suffix_length_le)
  moreover have "dropWhile condSpace r \<noteq> []" using assms(1) by (auto simp del: dropWhile_eq_Nil_conv)
  moreover have "length (dropWhile condSpace r) \<le> length r" by (simp add: length_dropWhile_le)
  ultimately show ?thesis by (cases "dropWhile condSpace r") auto
qed

termination pipeLoop
  by (relation "measure (\<lambda>(l, ref). length (lx_rest l))") (auto intro: pipe_shrinks)

declare pipeLoop.simps [simp del]

text \<open>How many more tokens can be read, counted in bytes.\<close>

definition tokensLeft :: "condParser \<Rightarrow> nat" where
  "tokensLeft p = (if ct_kind (cp_tok p) = condTokEOF then 0 else Suc (length (lx_rest (cp_lex p))))"

fun andLoop :: "(condParser \<Rightarrow> condResult) \<Rightarrow> nat \<Rightarrow> condExpr \<Rightarrow> condParser \<Rightarrow> condResult" where
  "andLoop cmp 0 left p = Inl CondOutOfFuel"
| "andLoop cmp (Suc n) left p =
     (if ct_kind (cp_tok p) = condTokAnd then
        (case advance p of
           Inl e \<Rightarrow> Inl e
         | Inr p1 \<Rightarrow>
             (case cmp p1 of
                Inl e \<Rightarrow> Inl e
              | Inr (right, p2) \<Rightarrow> andLoop cmp n (CondAnd left right) p2))
      else Inr (left, p))"

fun orLoop :: "(condParser \<Rightarrow> condResult) \<Rightarrow> nat \<Rightarrow> condExpr \<Rightarrow> condParser \<Rightarrow> condResult" where
  "orLoop cnj 0 left p = Inl CondOutOfFuel"
| "orLoop cnj (Suc n) left p =
     (if ct_kind (cp_tok p) = condTokOr then
        (case advance p of
           Inl e \<Rightarrow> Inl e
         | Inr p1 \<Rightarrow>
             (case cnj p1 of
                Inl e \<Rightarrow> Inl e
              | Inr (right, p2) \<Rightarrow> orLoop cnj n (CondOr left right) p2))
      else Inr (left, p))"

definition parseCmp :: "(condParser \<Rightarrow> condResult) \<Rightarrow> condParser \<Rightarrow> condResult" where
  "parseCmp unary p =
     (case unary p of
        Inl e \<Rightarrow> Inl e
      | Inr (left, p1) \<Rightarrow>
          if ct_kind (cp_tok p1) \<noteq> condTokCmp then Inr (left, p1)
          else
            (case advance p1 of
               Inl e \<Rightarrow> Inl e
             | Inr p2 \<Rightarrow>
                 (case unary p2 of
                    Inl e \<Rightarrow> Inl e
                  | Inr (right, p3) \<Rightarrow>
                      if ct_kind (cp_tok p3) = condTokCmp then Inl (CondChained (ct_pos (cp_tok p3)))
                      else Inr (CondCmp (ct_text (cp_tok p1)) left right, p3))))"

definition parseAnd :: "(condParser \<Rightarrow> condResult) \<Rightarrow> condParser \<Rightarrow> condResult" where
  "parseAnd unary p =
     (case parseCmp unary p of
        Inl e \<Rightarrow> Inl e
      | Inr (left, p1) \<Rightarrow> andLoop (parseCmp unary) (Suc (tokensLeft p1)) left p1)"

definition parseOr :: "(condParser \<Rightarrow> condResult) \<Rightarrow> condParser \<Rightarrow> condResult" where
  "parseOr unary p =
     (case parseAnd unary p of
        Inl e \<Rightarrow> Inl e
      | Inr (left, p1) \<Rightarrow> orLoop (parseAnd unary) (Suc (tokensLeft p1)) left p1)"

text \<open>\<open>inner\<close> is \<open>parseOr\<close> one level deeper.\<close>

definition parsePrimary :: "(string \<Rightarrow> string) \<Rightarrow> (condParser \<Rightarrow> condResult) \<Rightarrow> condParser \<Rightarrow> condResult" where
  "parsePrimary tr inner p =
     (let t = cp_tok p in
      if ct_kind t = condTokLParen \<or> ct_kind t = condTokOpenRef then
        (let closer = (if ct_kind t = condTokOpenRef then condTokCloseRef else condTokRParen) in
         case advance p of
           Inl e \<Rightarrow> Inl e
         | Inr p1 \<Rightarrow>
             (case inner p1 of
                Inl e \<Rightarrow> Inl e
              | Inr (e, p2) \<Rightarrow>
                  if ct_kind (cp_tok p2) \<noteq> closer then Inl (CondUnclosed (ct_text t) (ct_pos t))
                  else advanceWith e p2))
      else if ct_kind t = condTokString \<or> ct_kind t = condTokNumber then
        advanceWith (CondLit (GoStr (ct_text t))) p
      else if ct_kind t = condTokIdent then
        (let w = to_lower (ct_text t) in
         if w = ''true'' then advanceWith (CondLit (GoBool True)) p
         else if w = ''false'' then advanceWith (CondLit (GoBool False)) p
         else if w = ''null'' \<or> w = ''undefined'' then advanceWith (CondLit GoNil) p
         else
           (case pipeLoop (cp_lex p) (tr (ct_text t)) of
              Inl e \<Rightarrow> Inl e
            | Inr (ref, l) \<Rightarrow> advanceWith (CondRef ref) (p\<lparr>cp_lex := l\<rparr>)))
      else if ct_kind t = condTokEOF then Inl CondEndsEarly
      else Inl (CondUnexpected (ct_text t) (ct_pos t)))"

text \<open>\<open>parseUnary\<close> with \<open>k\<close> levels left.\<close>

primrec parseUnaryAt :: "(string \<Rightarrow> string) \<Rightarrow> nat \<Rightarrow> condParser \<Rightarrow> condResult" where
  "parseUnaryAt tr 0 p = Inl CondTooDeep"
| "parseUnaryAt tr (Suc k) p =
     (if ct_kind (cp_tok p) = condTokNot then
        (case advance p of
           Inl e \<Rightarrow> Inl e
         | Inr p1 \<Rightarrow>
             (case parseUnaryAt tr k p1 of
                Inl e \<Rightarrow> Inl e
              | Inr (inner, p2) \<Rightarrow> Inr (CondNot inner, p2)))
      else parsePrimary tr (parseOr (parseUnaryAt tr k)) p)"

definition parseUnary :: "(string \<Rightarrow> string) \<Rightarrow> nat \<Rightarrow> condParser \<Rightarrow> condResult" where
  "parseUnary tr depth = parseUnaryAt tr (Suc condMaxDepth - depth)"

definition parseCondExpr :: "(string \<Rightarrow> string) \<Rightarrow> string \<Rightarrow> condError + condExpr" where
  "parseCondExpr tr s =
     (case condNext \<lparr>lx_len = length s, lx_rest = s\<rparr> of
        Inl e \<Rightarrow> Inl e
      | Inr (t, l) \<Rightarrow>
          (case parseOr (parseUnary tr 0) \<lparr>cp_lex = l, cp_tok = t\<rparr> of
             Inl e \<Rightarrow> Inl e
           | Inr (e, p) \<Rightarrow>
               if ct_kind (cp_tok p) \<noteq> condTokEOF
               then Inl (CondUnexpected (ct_text (cp_tok p)) (ct_pos (cp_tok p)))
               else Inr e))"

section \<open>Reading a token\<close>

lemma advance_less:
  assumes "advance p = Inr p'" and "ct_kind (cp_tok p) \<noteq> condTokEOF"
  shows "tokensLeft p' < tokensLeft p"
proof -
  obtain t l where "condNext (cp_lex p) = Inr (t, l)" and p': "p' = \<lparr>cp_lex = l, cp_tok = t\<rparr>"
    using assms(1) by (auto simp: advance_def split: sum.splits)
  from condNext_advances(3) [OF this(1)] assms(2) show ?thesis
    by (auto simp: tokensLeft_def p')
qed

lemma advanceWith_less:
  "advanceWith e p = Inr (e', p') \<Longrightarrow> ct_kind (cp_tok p) \<noteq> condTokEOF \<Longrightarrow>
   e' = e \<and> tokensLeft p' < tokensLeft p"
  by (auto simp: advanceWith_def advance_less split: sum.splits)

lemma condScan_fuel: "condScan start rest \<noteq> Inl CondOutOfFuel"
proof -
  have ite: "x \<noteq> z \<Longrightarrow> y \<noteq> z \<Longrightarrow> (if b then x else y) \<noteq> z" for x y z :: "condError + condTokKind \<times> nat \<times> string" and b
    by simp
  show ?thesis unfolding condScan_def Let_def by (intro ite) (auto split: option.split)
qed

lemma advance_fuel: "advance p \<noteq> Inl CondOutOfFuel"
  using condScan_fuel
  by (auto simp: advance_def condNext_def Let_def split: sum.splits if_splits)

lemma advanceWith_fuel: "advanceWith e p \<noteq> Inl CondOutOfFuel"
  using advance_fuel by (auto simp: advanceWith_def split: sum.splits)

lemma pipeScan_fuel: "pipeScan len s depth \<noteq> Inl CondOutOfFuel"
proof (induction "length s" arbitrary: s depth rule: less_induct)
  case less
  have ite: "x \<noteq> z \<Longrightarrow> y \<noteq> z \<Longrightarrow> (if b then x else y) \<noteq> z" for x y z :: "condError + nat" and b
    by simp
  have more: "res \<noteq> Inl CondOutOfFuel \<Longrightarrow>
      (case res of Inl e \<Rightarrow> Inl e | Inr k \<Rightarrow> Inr (n + k)) \<noteq> Inl CondOutOfFuel" for res :: "condError + nat" and n
    by (cases res) auto
  show ?case
  proof (cases s)
    case (Cons c r)
    have IH: "length s' \<le> length r \<Longrightarrow> pipeScan len s' d \<noteq> Inl CondOutOfFuel" for s' d
      using less.hyps Cons by simp
    have quote: "(case cut_at c r of None \<Rightarrow> Inl (CondUnterminated m)
        | Some (a, b) \<Rightarrow> (case pipeScan len b depth of Inl e \<Rightarrow> Inl e | Inr k \<Rightarrow> Inr (length a + 2 + k)))
        \<noteq> Inl CondOutOfFuel" for m
    proof (cases "cut_at c r")
      case (Some x)
      then obtain a b where "cut_at c r = Some (a, b)" by (cases x) auto
      moreover from this have "length b \<le> length r" by (auto simp: cut_at_Some)
      ultimately show ?thesis using more IH by simp
    qed simp
    show ?thesis
      unfolding Cons pipeScan.simps Let_def
      by (intro ite more IH quote order_refl) simp_all
  qed simp
qed

lemma pipeLoop_fuel: "pipeLoop l ref \<noteq> Inl CondOutOfFuel"
proof (induction l ref rule: pipeLoop.induct)
  case (1 l ref)
  show ?case
  proof (cases "\<not> prefix ''|'' (dropWhile condSpace (lx_rest l)) \<or> prefix ''||'' (dropWhile condSpace (lx_rest l))")
    case True
    then show ?thesis by (subst pipeLoop.simps) (auto simp: Let_def)
  next
    case False
    show ?thesis
    proof (cases "pipeSegment (l\<lparr>lx_rest := tl (dropWhile condSpace (lx_rest l))\<rparr>)")
      case (Inl e)
      then have "e \<noteq> CondOutOfFuel"
        using pipeScan_fuel by (auto simp: pipeSegment_def Let_def split: sum.splits if_splits)
      with Inl False show ?thesis by (subst pipeLoop.simps) (auto simp: Let_def)
    next
      case (Inr x)
      obtain seg l' where x: "x = (seg, l')" by (cases x)
      from "1.IH" [OF refl False Inr, OF x [symmetric]] Inr x False show ?thesis
        by (subst pipeLoop.simps) (auto simp: Let_def)
    qed
  qed
qed

lemma pipeLoop_len:
  "pipeLoop l ref = Inr (r, l') \<Longrightarrow> length (lx_rest l') \<le> length (lx_rest l)"
proof (induction l ref rule: pipeLoop.induct)
  case (1 l ref)
  show ?case
  proof (cases "\<not> prefix ''|'' (dropWhile condSpace (lx_rest l)) \<or> prefix ''||'' (dropWhile condSpace (lx_rest l))")
    case True
    with "1.prems" show ?thesis by (subst (asm) pipeLoop.simps) (auto simp: Let_def)
  next
    case False
    then obtain seg l1 where seg: "pipeSegment (l\<lparr>lx_rest := tl (dropWhile condSpace (lx_rest l))\<rparr>) = Inr (seg, l1)"
      and loop: "pipeLoop l1 (ref @ '' | '' @ seg) = Inr (r, l')"
      using "1.prems" by (subst (asm) pipeLoop.simps) (auto simp: Let_def split: sum.splits)
    from False have "prefix ''|'' (dropWhile condSpace (lx_rest l))" by simp
    from pipe_shrinks [OF this seg] "1.IH" [OF refl False seg refl loop] show ?thesis by simp
  qed
qed

section \<open>Operand parsers\<close>

text \<open>How deep an expression nests, not counting chains of connectives and comparisons.\<close>

fun nesting :: "condExpr \<Rightarrow> nat" where
  "nesting (CondLit v) = 0"
| "nesting (CondRef r) = 0"
| "nesting (CondNot e) = Suc (nesting e)"
| "nesting (CondAnd a b) = max (nesting a) (nesting b)"
| "nesting (CondOr a b) = max (nesting a) (nesting b)"
| "nesting (CondCmp c a b) = max (nesting a) (nesting b)"

text \<open>What the levels above rely on: the operand parser stops, uses up a token, and nests at
  most \<open>d\<close> deep.\<close>

locale operand_parser =
  fixes d :: nat and unary :: "condParser \<Rightarrow> condResult"
  assumes unary_fuel: "unary p \<noteq> Inl CondOutOfFuel"
    and unary_reads: "unary p = Inr (e, p') \<Longrightarrow> tokensLeft p' < tokensLeft p"
    and unary_nests: "unary p = Inr (e, p') \<Longrightarrow> nesting e \<le> d"
begin

lemma cmp_operand: "operand_parser d (parseCmp unary)"
proof
  fix p
  show "parseCmp unary p \<noteq> Inl CondOutOfFuel"
    using unary_fuel advance_fuel by (auto simp: parseCmp_def split: sum.split)
next
  fix p e p'
  assume res: "parseCmp unary p = Inr (e, p')"
  then obtain left p1 where left: "unary p = Inr (left, p1)"
    by (auto simp: parseCmp_def split: sum.splits)
  note l = unary_reads [OF left] unary_nests [OF left]
  have "tokensLeft p' < tokensLeft p \<and> nesting e \<le> d"
  proof (cases "ct_kind (cp_tok p1) = condTokCmp")
    case False
    with res left l show ?thesis by (simp add: parseCmp_def)
  next
    case True
    with res left obtain p2 right p3 where "advance p1 = Inr p2" and right: "unary p2 = Inr (right, p3)"
      and eq: "e = CondCmp (ct_text (cp_tok p1)) left right" "p' = p3"
      by (auto simp: parseCmp_def split: sum.splits if_splits)
    from advance_less [OF this(1)] True unary_reads [OF right] unary_nests [OF right] l eq
    show ?thesis by simp
  qed
  then show "tokensLeft p' < tokensLeft p" "nesting e \<le> d" by auto
qed

end

context operand_parser
begin

lemma andLoop_ok:
  "tokensLeft p < n \<Longrightarrow> nesting left \<le> d \<Longrightarrow>
   andLoop unary n left p \<noteq> Inl CondOutOfFuel \<and>
   (andLoop unary n left p = Inr (e, p') \<longrightarrow> tokensLeft p' \<le> tokensLeft p \<and> nesting e \<le> d)"
proof (induction n arbitrary: left p)
  case (Suc n)
  show ?case
  proof (cases "ct_kind (cp_tok p) = condTokAnd")
    case True
    show ?thesis
    proof (cases "advance p")
      case (Inl err)
      with True advance_fuel [of p] show ?thesis by auto
    next
      case adv: (Inr p1)
      show ?thesis
      proof (cases "unary p1")
        case (Inl err)
        with True adv unary_fuel [of p1] show ?thesis by auto
      next
        case (Inr x)
        obtain right p2 where x: "x = (right, p2)" by (cases x)
        have "tokensLeft p1 < tokensLeft p" using advance_less [OF adv] True by simp
        with unary_reads [OF Inr [unfolded x]] have less: "tokensLeft p2 < tokensLeft p" by simp
        have "nesting (CondAnd left right) \<le> d" using unary_nests [OF Inr [unfolded x]] Suc.prems(2) by simp
        moreover have "tokensLeft p2 < n" using less Suc.prems(1) by simp
        ultimately show ?thesis
          using Suc.IH [of p2 "CondAnd left right"] less True adv Inr x by auto
      qed
    qed
  qed (use Suc.prems in auto)
qed simp

lemma orLoop_ok:
  "tokensLeft p < n \<Longrightarrow> nesting left \<le> d \<Longrightarrow>
   orLoop unary n left p \<noteq> Inl CondOutOfFuel \<and>
   (orLoop unary n left p = Inr (e, p') \<longrightarrow> tokensLeft p' \<le> tokensLeft p \<and> nesting e \<le> d)"
proof (induction n arbitrary: left p)
  case (Suc n)
  show ?case
  proof (cases "ct_kind (cp_tok p) = condTokOr")
    case True
    show ?thesis
    proof (cases "advance p")
      case (Inl err)
      with True advance_fuel [of p] show ?thesis by auto
    next
      case adv: (Inr p1)
      show ?thesis
      proof (cases "unary p1")
        case (Inl err)
        with True adv unary_fuel [of p1] show ?thesis by auto
      next
        case (Inr x)
        obtain right p2 where x: "x = (right, p2)" by (cases x)
        have "tokensLeft p1 < tokensLeft p" using advance_less [OF adv] True by simp
        with unary_reads [OF Inr [unfolded x]] have less: "tokensLeft p2 < tokensLeft p" by simp
        have "nesting (CondOr left right) \<le> d" using unary_nests [OF Inr [unfolded x]] Suc.prems(2) by simp
        moreover have "tokensLeft p2 < n" using less Suc.prems(1) by simp
        ultimately show ?thesis
          using Suc.IH [of p2 "CondOr left right"] less True adv Inr x by auto
      qed
    qed
  qed (use Suc.prems in auto)
qed simp

lemma and_operand: "operand_parser d (parseAnd unary)"
proof
  fix p
  show "parseAnd unary p \<noteq> Inl CondOutOfFuel"
    using operand_parser.unary_fuel [OF cmp_operand] operand_parser.unary_nests [OF cmp_operand]
      operand_parser.andLoop_ok [OF cmp_operand]
    by (auto simp: parseAnd_def split: sum.split simp del: andLoop.simps)
next
  fix p e p'
  assume res: "parseAnd unary p = Inr (e, p')"
  then obtain left p1 where left: "parseCmp unary p = Inr (left, p1)"
    and loop: "andLoop (parseCmp unary) (Suc (tokensLeft p1)) left p1 = Inr (e, p')"
    by (auto simp: parseAnd_def split: sum.splits simp del: andLoop.simps)
  have "nesting left \<le> d" by (rule operand_parser.unary_nests [OF cmp_operand left])
  from operand_parser.andLoop_ok [OF cmp_operand lessI this] loop
  have "tokensLeft p' \<le> tokensLeft p1" and n: "nesting e \<le> d" by blast+
  with operand_parser.unary_reads [OF cmp_operand left] show "tokensLeft p' < tokensLeft p" by simp
  from n show "nesting e \<le> d" .
qed

lemma or_operand: "operand_parser d (parseOr unary)"
proof
  fix p
  show "parseOr unary p \<noteq> Inl CondOutOfFuel"
    using operand_parser.unary_fuel [OF and_operand] operand_parser.unary_nests [OF and_operand]
      operand_parser.orLoop_ok [OF and_operand]
    by (auto simp: parseOr_def split: sum.split simp del: orLoop.simps)
next
  fix p e p'
  assume res: "parseOr unary p = Inr (e, p')"
  then obtain left p1 where left: "parseAnd unary p = Inr (left, p1)"
    and loop: "orLoop (parseAnd unary) (Suc (tokensLeft p1)) left p1 = Inr (e, p')"
    by (auto simp: parseOr_def split: sum.splits simp del: orLoop.simps)
  have "nesting left \<le> d" by (rule operand_parser.unary_nests [OF and_operand left])
  from operand_parser.orLoop_ok [OF and_operand lessI this] loop
  have "tokensLeft p' \<le> tokensLeft p1" and n: "nesting e \<le> d" by blast+
  with operand_parser.unary_reads [OF and_operand left] show "tokensLeft p' < tokensLeft p" by simp
  from n show "nesting e \<le> d" .
qed

lemma primary_operand: "operand_parser d (parsePrimary tr unary)"
proof
  fix p
  show "parsePrimary tr unary p \<noteq> Inl CondOutOfFuel"
    using unary_fuel advance_fuel advanceWith_fuel pipeLoop_fuel
    by (auto simp: parsePrimary_def Let_def split: sum.split)
next
  fix p e p'
  assume res: "parsePrimary tr unary p = Inr (e, p')"
  have "tokensLeft p' < tokensLeft p \<and> nesting e \<le> d"
  proof (cases "ct_kind (cp_tok p) = condTokLParen \<or> ct_kind (cp_tok p) = condTokOpenRef")
    case True
    with res obtain p1 p2 x where adv: "advance p = Inr p1" and inner: "unary p1 = Inr (x, p2)"
      and last: "advanceWith x p2 = Inr (e, p')"
      and kind: "ct_kind (cp_tok p2) = condTokCloseRef \<or> ct_kind (cp_tok p2) = condTokRParen"
      unfolding parsePrimary_def Let_def if_P [OF True] by (auto split: sum.splits if_splits)
    from advanceWith_less [OF last] kind have "e = x" "tokensLeft p' < tokensLeft p2" by auto
    with advance_less [OF adv] True unary_reads [OF inner] unary_nests [OF inner] show ?thesis by auto
  next
    case False
    have leaf: "tokensLeft p' < tokensLeft p \<and> nesting e \<le> d"
      if "advanceWith x (p\<lparr>cp_lex := l\<rparr>) = Inr (e, p')" and "nesting x = 0"
        and "length (lx_rest l) \<le> length (lx_rest (cp_lex p))" and "ct_kind (cp_tok p) \<noteq> condTokEOF" for x l
      using advanceWith_less [OF that(1)] that(2-4) by (auto simp: tokensLeft_def)
    have id: "p\<lparr>cp_lex := cp_lex p\<rparr> = p" by simp
    have lit: "tokensLeft p' < tokensLeft p \<and> nesting e \<le> d"
      if "advanceWith (CondLit v) p = Inr (e, p')" and "ct_kind (cp_tok p) \<noteq> condTokEOF" for v
      using leaf [of "CondLit v" "cp_lex p"] that by simp
    have ref: "tokensLeft p' < tokensLeft p \<and> nesting e \<le> d"
      if "pipeLoop (cp_lex p) y = Inr (r, l)" and "advanceWith (CondRef r) (p\<lparr>cp_lex := l\<rparr>) = Inr (e, p')"
        and "ct_kind (cp_tok p) \<noteq> condTokEOF" for r l y
      using leaf [OF that(2)] pipeLoop_len [OF that(1)] that(3) by simp
    from res show ?thesis
      unfolding parsePrimary_def Let_def if_not_P [OF False]
      by (auto split: if_splits sum.splits dest: lit ref)
  qed
  then show "tokensLeft p' < tokensLeft p" "nesting e \<le> d" by auto
qed

end

section \<open>The parser is an operand parser at every level\<close>

lemma parseUnaryAt_operand: "operand_parser k (parseUnaryAt tr k)"
proof (induction k)
  case 0
  show ?case by standard simp_all
next
  case (Suc k)
  note primary = operand_parser.primary_operand [OF operand_parser.or_operand [OF Suc.IH], of tr]
  show ?case
  proof
    fix p
    show "parseUnaryAt tr (Suc k) p \<noteq> Inl CondOutOfFuel"
      using operand_parser.unary_fuel [OF Suc.IH] operand_parser.unary_fuel [OF primary] advance_fuel
      by (auto split: sum.split)
  next
    fix p e p'
    assume res: "parseUnaryAt tr (Suc k) p = Inr (e, p')"
    have "tokensLeft p' < tokensLeft p \<and> nesting e \<le> Suc k"
    proof (cases "ct_kind (cp_tok p) = condTokNot")
      case True
      with res obtain p1 x where adv: "advance p = Inr p1" and inner: "parseUnaryAt tr k p1 = Inr (x, p')"
        and e: "e = CondNot x"
        by (auto split: sum.splits)
      from advance_less [OF adv] True operand_parser.unary_reads [OF Suc.IH inner]
        operand_parser.unary_nests [OF Suc.IH inner] e
      show ?thesis by simp
    next
      case False
      with res have "parsePrimary tr (parseOr (parseUnaryAt tr k)) p = Inr (e, p')" by simp
      from operand_parser.unary_reads [OF primary this] operand_parser.unary_nests [OF primary this]
      show ?thesis by simp
    qed
    then show "tokensLeft p' < tokensLeft p" "nesting e \<le> Suc k" by auto
  qed
qed

interpretation unary: operand_parser k "parseUnaryAt tr k" for k tr
  by (rule parseUnaryAt_operand)

interpretation disjunction: operand_parser k "parseOr (parseUnaryAt tr k)" for k tr
  by (rule unary.or_operand)

section \<open>Properties\<close>


end
