(* ===== verification/Cond_Eval.thy ===== *)
theory Cond_Eval
  imports Cond_Parser
begin

text \<open>
  Evaluation of flow conditions: \<open>condExpr.eval\<close> and the choice between the expression grammar
  and the single comparison (\<^verbatim>\<open>flows_condition_expr.go\<close>), and the single-comparison evaluator
  (\<^verbatim>\<open>flows_conditions.go\<close>).

  What a condition reads of the flow's data is the argument \<open>env\<close>: interpolation of a template
  (\<open>interpolateCtx\<close>), the row lookup (\<open>flowLookup\<close>), the resolution of a bind expression
  (\<open>resolveBindExpr\<close>), and \<open>strconv.ParseFloat\<close> with the comparisons of the floats it returns.
\<close>

record 'f flowEnv =
  fe_interpolate :: "string \<Rightarrow> string"
  fe_lookup :: "string \<Rightarrow> goValue option"
  fe_resolve :: "string \<Rightarrow> goValue option"
  fe_float :: "string \<Rightarrow> 'f option"
  fe_less :: "'f \<Rightarrow> 'f \<Rightarrow> bool"
  fe_leq :: "'f \<Rightarrow> 'f \<Rightarrow> bool"
  fe_zero :: "'f \<Rightarrow> bool"

section \<open>Values\<close>

text \<open>\<^verbatim>\<open>fmt.Sprintf("%v", v)\<close>.\<close>

fun goText :: "goValue \<Rightarrow> string" where
  "goText GoNil = ''<nil>''"
| "goText (GoBool b) = (if b then ''true'' else ''false'')"
| "goText (GoStr s) = s"
| "goText (GoColl n s) = s"
| "goText (GoOther s) = s"

definition falsyTexts :: "string list" where
  "falsyTexts = ['''', ''false'', ''0'', ''0.0'', ''no'', ''null'', ''undefined'', ''nan'', ''<nil>'',
     ''[]'', ''map[]'', ''{}'']"

definition isTruthyCondition :: "goValue \<Rightarrow> bool" where
  "isTruthyCondition v =
     (case v of
        GoNil \<Rightarrow> False
      | GoBool b \<Rightarrow> b
      | GoColl n _ \<Rightarrow> 0 < n
      | _ \<Rightarrow> to_lower (trim_space (goText v)) \<notin> set falsyTexts)"

definition condOperandText :: "goValue \<Rightarrow> string" where
  "condOperandText v = (if v = GoNil then [] else goText v)"

definition conditionLiteralTruthy :: "'f flowEnv \<Rightarrow> string \<Rightarrow> bool" where
  "conditionLiteralTruthy env src =
     (let s = trim_space src in
      if 2 \<le> length s \<and> ((hd s = CHR 0x27 \<and> last s = CHR 0x27) \<or> (hd s = CHR 0x22 \<and> last s = CHR 0x22))
      then trim_space (butlast (tl s)) \<noteq> []
      else
        let w = to_lower s in
        if w = ''true'' then True
        else if w \<in> {[], ''false'', ''no'', ''null'', ''undefined'', ''nan''} then False
        else (case fe_float env s of Some f \<Rightarrow> \<not> fe_zero env f | None \<Rightarrow> False))"

definition compareLiteralCondition :: "'f flowEnv \<Rightarrow> string \<Rightarrow> string \<Rightarrow> string \<Rightarrow> bool" where
  "compareLiteralCondition env actual op expected =
     (if op = ''='' then actual = expected
      else if op = ''!='' then actual \<noteq> expected
      else if op \<in> {''>'', ''<'', ''>='', ''<=''} then
        (let a = fe_float env actual; b = fe_float env expected in
         if (a \<noteq> None) \<noteq> (b \<noteq> None) \<and> actual \<noteq> [] \<and> expected \<noteq> [] then False
         else
           (case (a, b) of
              (Some x, Some y) \<Rightarrow>
                (if op = ''>'' then fe_less env y x
                 else if op = ''<'' then fe_less env x y
                 else if op = ''>='' then fe_leq env y x
                 else fe_leq env x y)
            | _ \<Rightarrow>
                (if op = ''>'' then str_less expected actual
                 else if op = ''<'' then str_less actual expected
                 else if op = ''>='' then \<not> str_less actual expected
                 else \<not> str_less expected actual)))
      else False)"

section \<open>Trees\<close>

fun eval :: "'f flowEnv \<Rightarrow> condExpr \<Rightarrow> goValue" where
  "eval env (CondLit v) = v"
| "eval env (CondRef r) = (case fe_resolve env r of Some v \<Rightarrow> v | None \<Rightarrow> GoNil)"
| "eval env (CondNot e) = GoBool (\<not> isTruthyCondition (eval env e))"
| "eval env (CondAnd a b) =
     (let l = eval env a in if \<not> isTruthyCondition l then l else eval env b)"
| "eval env (CondOr a b) =
     (let l = eval env a in if isTruthyCondition l then l else eval env b)"
| "eval env (CondCmp op a b) =
     GoBool (compareLiteralCondition env (condOperandText (eval env a)) op (condOperandText (eval env b)))"

section \<open>Quoted text and spans\<close>

text \<open>The bytes to step over when \<open>c\<close> opens a quote or a span that is closed in \<open>r\<close>, and what
  follows them.\<close>

definition skipQuoted :: "char \<Rightarrow> string \<Rightarrow> (string \<times> string) option" where
  "skipQuoted c r =
     (if c = CHR 0x27 \<or> c = CHR 0x22 then map_option (\<lambda>(a, b). (a @ [c], b)) (cut_at c r) else None)"

definition skipOpaque :: "char \<Rightarrow> string \<Rightarrow> (string \<times> string) option" where
  "skipOpaque c r =
     (if c = CHR 0x27 \<or> c = CHR 0x22 then skipQuoted c r
      else if c = CHR ''{'' \<and> prefix ''{'' r then
        map_option (\<lambda>(a, b). (''{'' @ a @ ''}}'', b)) (cut_str ''}}'' (tl r))
      else None)"

lemma skipQuoted_Some: "skipQuoted c r = Some (sk, b) \<Longrightarrow> r = sk @ b \<and> sk \<noteq> []"
  by (auto simp: skipQuoted_def cut_at_Some split: if_splits)

lemma skipOpaque_Some: "skipOpaque c r = Some (sk, b) \<Longrightarrow> r = sk @ b \<and> sk \<noteq> []"
  by (cases r) (auto simp: skipOpaque_def dest: skipQuoted_Some cut_str_Some split: if_splits)

lemma skipOpaque_less: "skipOpaque c r = Some (sk, b) \<Longrightarrow> length b < length r"
  and skipQuoted_less: "skipQuoted c r = Some (sk, b) \<Longrightarrow> length b < length r"
  by (auto dest!: skipOpaque_Some skipQuoted_Some)

section \<open>The operator of a single comparison\<close>

definition twoByteCmp :: "char \<Rightarrow> string \<Rightarrow> string option" where
  "twoByteCmp c r =
     (if prefix ''='' r then
        (if c = CHR ''='' then Some ''=''
         else if c = CHR ''>'' \<or> c = CHR ''<'' \<or> c = CHR ''!'' then Some [c, CHR ''='']
         else None)
      else None)"

definition oneByteCmp :: "char \<Rightarrow> bool" where
  "oneByteCmp c \<longleftrightarrow> c = CHR ''='' \<or> c = CHR ''>'' \<or> c = CHR ''<''"

function splitOpFrom :: "string \<Rightarrow> string \<Rightarrow> (string \<times> string \<times> string) option" where
  "splitOpFrom pre [] = None"
| "splitOpFrom pre (c # r) =
     (case skipOpaque c r of
        Some (sk, b) \<Rightarrow> splitOpFrom (pre @ c # sk) b
      | None \<Rightarrow>
          (case twoByteCmp c r of
             Some op \<Rightarrow> Some (trim_space pre, op, trim_space (tl r))
           | None \<Rightarrow>
               if oneByteCmp c then Some (trim_space pre, [c], trim_space r)
               else splitOpFrom (pre @ [c]) r))"
  by pat_completeness auto
termination
  by (relation "measure (\<lambda>(pre, s). length s)") (auto dest: skipOpaque_Some)

definition splitConditionOperator :: "string \<Rightarrow> (string \<times> string \<times> string) option" where
  "splitConditionOperator condition = splitOpFrom [] condition"

function conditionHasConnective :: "string \<Rightarrow> bool" where
  "conditionHasConnective [] = False"
| "conditionHasConnective [c] = False"
| "conditionHasConnective (c # d # r) =
     (case skipOpaque c (d # r) of
        Some (sk, b) \<Rightarrow> conditionHasConnective b
      | None \<Rightarrow>
          if (c = CHR ''&'' \<and> d = CHR ''&'') \<or> (c = CHR ''|'' \<and> d = CHR ''|'') then True
          else conditionHasConnective (d # r))"
  by pat_completeness auto
termination
  by (relation "measure length") (auto dest: skipOpaque_less)

definition conditionFieldName :: "string \<Rightarrow> bool" where
  "conditionFieldName s \<longleftrightarrow> s \<noteq> [] \<and>
     list_all (\<lambda>c. c = CHR ''_'' \<or> c = CHR ''-'' \<or> c = CHR ''.'' \<or> is_lower c \<or> is_upper c \<or> is_digit c) s"

definition conditionRowValue :: "'f flowEnv \<Rightarrow> string \<Rightarrow> string" where
  "conditionRowValue env field = (case fe_lookup env field of None \<Rightarrow> [] | Some v \<Rightarrow> condOperandText v)"

definition conditionLHSNeedsResolution :: "string \<Rightarrow> bool" where
  "conditionLHSNeedsResolution lhs \<longleftrightarrow> contains ''|'' lhs \<or> contains ''{{'' lhs \<or> contains ''}}'' lhs"

section \<open>Which evaluator\<close>

text \<open>The state of the scan: an operator was seen, inside a span, in a pipe argument, right
  after a span.\<close>

function exprSyntax :: "bool \<Rightarrow> bool \<Rightarrow> bool \<Rightarrow> bool \<Rightarrow> string \<Rightarrow> bool" where
  "exprSyntax topOp span pipeArg afterSpan [] = False"
| "exprSyntax topOp span pipeArg afterSpan (c # r) =
     (let after = afterSpan \<and> (span \<or> condSpace c \<or> c = CHR ''|'') in
      case skipQuoted c r of
        Some (sk, b) \<Rightarrow> exprSyntax topOp span pipeArg after b
      | None \<Rightarrow>
          if \<not> span \<and> prefix ''${{'' (c # r) then exprSyntax topOp True False after (drop 3 (c # r))
          else if \<not> span \<and> prefix ''{{'' (c # r) then exprSyntax topOp True False after (drop 2 (c # r))
          else if span \<and> prefix ''}}'' (c # r) then exprSyntax topOp False False True (drop 2 (c # r))
          else if prefix ''&&'' (c # r) then True
          else if prefix ''||'' (c # r) then
            (if \<not> span \<and> (topOp \<or> after \<or> prefix ''{{'' (dropWhile condSpace (tl r))
                 \<or> prefix ''${{'' (dropWhile condSpace (tl r))) then True
             else exprSyntax topOp span False after (tl r))
          else if twoByteCmp c r \<noteq> None then
            (if span \<and> \<not> pipeArg then True
             else if span then exprSyntax topOp span pipeArg after (tl r)
             else exprSyntax True span False after (tl r))
          else if c = CHR ''|'' then exprSyntax topOp span True after r
          else if oneByteCmp c \<and> \<not> span then exprSyntax True span False after r
          else if (c = CHR ''!'' \<or> c = CHR ''('' \<or> c = CHR '')'') \<and> \<not> pipeArg \<and> (span \<or> \<not> topOp) then True
          else exprSyntax topOp span pipeArg after r)"
  by pat_completeness auto
termination
  by (relation "measure (\<lambda>(topOp, span, pipeArg, afterSpan, s). length s)")
    (auto dest: skipQuoted_Some)

definition conditionUsesExpressionSyntax :: "string \<Rightarrow> bool" where
  "conditionUsesExpressionSyntax c = exprSyntax False False False False c"

declare exprSyntax.simps [simp del] splitOpFrom.simps [simp del] conditionHasConnective.simps [simp del]

section \<open>Evaluation\<close>

definition evaluateFlowExpression :: "(string \<Rightarrow> string) \<Rightarrow> 'f flowEnv \<Rightarrow> string \<Rightarrow> bool" where
  "evaluateFlowExpression tr env condition =
     (case parseCondExpr tr condition of
        Inl _ \<Rightarrow> False
      | Inr e \<Rightarrow> isTruthyCondition (eval env e))"

definition trimQuotes :: "string \<Rightarrow> string" where
  "trimQuotes s = (let q = (\<lambda>c. c = CHR 0x22 \<or> c = CHR 0x27) in rev (dropWhile q (rev (dropWhile q s))))"

definition evaluateFlowCondition :: "(string \<Rightarrow> string) \<Rightarrow> 'f flowEnv \<Rightarrow> string \<Rightarrow> bool" where
  "evaluateFlowCondition tr env condition =
     (if conditionUsesExpressionSyntax condition then evaluateFlowExpression tr env condition
      else
        (let truthiness =
           (let key = trim_space condition in
            case fe_lookup env key of
              Some v \<Rightarrow> isTruthyCondition v
            | None \<Rightarrow>
                if contains ''{{'' key
                then isTruthyCondition (GoStr (trim_space (fe_interpolate env condition)))
                else (case fe_resolve env key of
                        Some v \<Rightarrow> isTruthyCondition v
                      | None \<Rightarrow> conditionLiteralTruthy env key))
         in case splitConditionOperator condition of
              Some (lhs, op, rhs) \<Rightarrow>
                (if lhs = [] then truthiness
                 else if contains ''&&'' lhs \<or> conditionHasConnective rhs then False
                 else
                   let value = trimQuotes (fe_interpolate env rhs) in
                   if conditionLHSNeedsResolution lhs then
                     let expr = (if contains ''{{'' lhs then lhs else ''{{'' @ lhs @ ''}}'') in
                     compareLiteralCondition env (fe_interpolate env expr) op value
                   else if \<not> conditionFieldName lhs then False
                   else compareLiteralCondition env (conditionRowValue env lhs) op value)
            | None \<Rightarrow> truthiness))"

text \<open>A value template: exactly one span is an expression, anything else is interpolated.\<close>

definition oneSpan :: "string \<Rightarrow> bool" where
  "oneSpan t \<longleftrightarrow> prefix ''{{'' t \<and> suffix ''}}'' t \<and> str_count ''{{'' t = 1"

definition flowValueTemplate :: "(string \<Rightarrow> string) \<Rightarrow> 'f flowEnv \<Rightarrow> string \<Rightarrow> string" where
  "flowValueTemplate tr env tmpl =
     (let t = trim_space tmpl in
      if oneSpan t then
        (case parseCondExpr tr (take (length t - 4) (drop 2 t)) of
           Inl _ \<Rightarrow> []
         | Inr e \<Rightarrow> condOperandText (eval env e))
      else fe_interpolate env tmpl)"

datatype neverReason = NeverParses condError | NeverJoined | NeverLeft string

definition flowConditionNeverHolds :: "(string \<Rightarrow> string) \<Rightarrow> string \<Rightarrow> neverReason option" where
  "flowConditionNeverHolds tr condition =
     (if trim_space condition = [] then None
      else if conditionUsesExpressionSyntax condition then
        (case parseCondExpr tr condition of Inl e \<Rightarrow> Some (NeverParses e) | Inr _ \<Rightarrow> None)
      else
        (case splitConditionOperator condition of
           None \<Rightarrow> None
         | Some (lhs, op, rhs) \<Rightarrow>
             if lhs = [] then None
             else if contains ''&&'' lhs \<or> conditionHasConnective rhs then Some NeverJoined
             else if \<not> conditionLHSNeedsResolution lhs \<and> \<not> conditionFieldName lhs then Some (NeverLeft lhs)
             else None))"

definition flowValueTemplateNeverParses :: "(string \<Rightarrow> string) \<Rightarrow> string \<Rightarrow> condError option" where
  "flowValueTemplateNeverParses tr tmpl =
     (let t = trim_space tmpl in
      if oneSpan t then
        (case parseCondExpr tr (take (length t - 4) (drop 2 t)) of Inl e \<Rightarrow> Some e | Inr _ \<Rightarrow> None)
      else None)"

section \<open>The cache of parsed conditions\<close>

record condCache =
  condExprCache :: "string \<rightharpoonup> condError + condExpr"
  condExprCached :: nat

definition condExprCacheCap :: nat where
  "condExprCacheCap = 4096"

definition parseFlowCondExpr ::
    "(string \<Rightarrow> string) \<Rightarrow> string \<Rightarrow> condCache \<Rightarrow> (condError + condExpr) \<times> condCache" where
  "parseFlowCondExpr tr condition cache =
     (case condExprCache cache condition of
        Some res \<Rightarrow> (res, cache)
      | None \<Rightarrow>
          let res = parseCondExpr tr condition in
          (res, if condExprCached cache < condExprCacheCap
             then cache\<lparr>condExprCache := (condExprCache cache)(condition \<mapsto> res),
                        condExprCached := condExprCached cache + 1\<rparr>
             else cache))"

definition cacheOk :: "(string \<Rightarrow> string) \<Rightarrow> condCache \<Rightarrow> bool" where
  "cacheOk tr cache \<longleftrightarrow>
     (\<forall>c res. condExprCache cache c = Some res \<longrightarrow> res = parseCondExpr tr c)
     \<and> finite (dom (condExprCache cache)) \<and> card (dom (condExprCache cache)) = condExprCached cache
     \<and> condExprCached cache \<le> condExprCacheCap"

lemma parseFlowCondExpr_ok:
  "cacheOk tr cache \<Longrightarrow> parseFlowCondExpr tr c cache = (res, cache') \<Longrightarrow>
   res = parseCondExpr tr c \<and> cacheOk tr cache'"
  by (auto simp: parseFlowCondExpr_def cacheOk_def Let_def card_insert_if domIff split: option.splits if_splits)

text \<open>Any number of parses, one after the other, from an empty cache.\<close>

fun parseAll :: "(string \<Rightarrow> string) \<Rightarrow> string list \<Rightarrow> condCache \<Rightarrow> (condError + condExpr) list \<times> condCache" where
  "parseAll tr [] cache = ([], cache)"
| "parseAll tr (c # cs) cache =
     (case parseFlowCondExpr tr c cache of
        (res, cache1) \<Rightarrow> (case parseAll tr cs cache1 of (rs, cache2) \<Rightarrow> (res # rs, cache2)))"

lemma parseAll_ok:
  "cacheOk tr cache \<Longrightarrow> parseAll tr cs cache = (rs, cache') \<Longrightarrow>
   rs = map (parseCondExpr tr) cs \<and> cacheOk tr cache'"
  by (induction cs arbitrary: cache rs) (auto split: prod.splits dest: parseFlowCondExpr_ok)

section \<open>Where the operator is\<close>

lemma cut_at_prefix:
  "cut_at c (a @ x) = Some (u, v) \<Longrightarrow> length u < length a \<Longrightarrow> \<exists>w. cut_at c a = Some (u, w) \<and> v = w @ x"
  by (induction a arbitrary: u) (auto split: if_splits)

lemma splitOpFrom_decomposes:
  "splitOpFrom pre s = Some (l, op, r) \<Longrightarrow>
   \<exists>p opText q. s = p @ opText @ q \<and> l = trim_space (pre @ p) \<and> r = trim_space q
     \<and> op = (if opText = ''=='' then ''='' else opText)
     \<and> opText \<in> {''=='', ''!='', ''>='', ''<='', ''='', ''>'', ''<''}"
proof (induction "length s" arbitrary: pre s rule: less_induct)
  case less
  show ?case
  proof (cases s)
    case Nil
    with less.prems show ?thesis by (simp add: splitOpFrom.simps)
  next
    case (Cons c r')
    show ?thesis
    proof (cases "skipOpaque c r'")
      case (Some x)
      obtain sk b where x: "x = (sk, b)" by (cases x)
      have b: "r' = sk @ b" "length b < length s"
        using Some x skipOpaque_Some skipOpaque_less Cons by fastforce+
      have "splitOpFrom (pre @ c # sk) b = Some (l, op, r)"
        using less.prems Some x Cons by (simp add: splitOpFrom.simps)
      from less.hyps [OF b(2) this] obtain p opText q where
        h: "b = p @ opText @ q" "l = trim_space ((pre @ c # sk) @ p)" "r = trim_space q"
          "op = (if opText = ''=='' then ''='' else opText)"
          "opText \<in> {''=='', ''!='', ''>='', ''<='', ''='', ''>'', ''<''}" by blast
      show ?thesis
        by (rule exI [of _ "c # sk @ p"], rule exI [of _ opText], rule exI [of _ q])
          (use h b Cons in simp)
    next
      case None
      show ?thesis
      proof (cases "twoByteCmp c r'")
        case (Some op2)
        then obtain r2 where r2: "r' = CHR ''='' # r2" by (auto simp: twoByteCmp_def prefix_def split: if_splits)
        show ?thesis
          by (rule exI [of _ "[]"], rule exI [of _ "[c, CHR ''='']"], rule exI [of _ r2])
            (use Some None less.prems Cons r2 in \<open>auto simp: splitOpFrom.simps twoByteCmp_def split: if_splits\<close>)
      next
        case two: None
        show ?thesis
        proof (cases "oneByteCmp c")
          case True
          show ?thesis
            by (rule exI [of _ "[]"], rule exI [of _ "[c]"], rule exI [of _ r'])
              (use True two None less.prems Cons in \<open>auto simp: splitOpFrom.simps oneByteCmp_def\<close>)
        next
          case False
          then have "splitOpFrom (pre @ [c]) r' = Some (l, op, r)"
            using two None less.prems Cons by (simp add: splitOpFrom.simps)
          moreover have "length r' < length s" by (simp add: Cons)
          ultimately obtain p opText q where
            h: "r' = p @ opText @ q" "l = trim_space ((pre @ [c]) @ p)" "r = trim_space q"
              "op = (if opText = ''=='' then ''='' else opText)"
              "opText \<in> {''=='', ''!='', ''>='', ''<='', ''='', ''>'', ''<''}"
            using less.hyps by blast
          show ?thesis
            by (rule exI [of _ "c # p"], rule exI [of _ opText], rule exI [of _ q]) (use h Cons in simp)
        qed
      qed
    qed
  qed
qed

section \<open>Properties\<close>

fun refsOf :: "condExpr \<Rightarrow> string set" where
  "refsOf (CondLit v) = {}"
| "refsOf (CondRef r) = {r}"
| "refsOf (CondNot e) = refsOf e"
| "refsOf (CondAnd a b) = refsOf a \<union> refsOf b"
| "refsOf (CondOr a b) = refsOf a \<union> refsOf b"
| "refsOf (CondCmp c a b) = refsOf a \<union> refsOf b"

lemma compareLiteralCondition_cong:
  "fe_float env = fe_float env' \<Longrightarrow> fe_less env = fe_less env' \<Longrightarrow> fe_leq env = fe_leq env' \<Longrightarrow>
   compareLiteralCondition env = compareLiteralCondition env'"
  by (intro ext) (simp only: compareLiteralCondition_def)

lemma eval_cong:
  "(\<And>r. r \<in> refsOf e \<Longrightarrow> fe_resolve env r = fe_resolve env' r) \<Longrightarrow>
   (fe_float env, fe_less env, fe_leq env) = (fe_float env', fe_less env', fe_leq env') \<Longrightarrow>
   eval env e = eval env' e"
  using compareLiteralCondition_cong [of env env'] by (induction e) (auto simp: Let_def)

text \<open>C37: The load-time warning is sound: a condition it says can never hold evaluates to false
  whatever the flow's data, its interpolation and its number parser give.\<close>

theorem flowConditionNeverHolds_sound:
  "flowConditionNeverHolds tr condition = Some why \<Longrightarrow> \<not> evaluateFlowCondition tr env condition"
  by (auto simp: flowConditionNeverHolds_def evaluateFlowCondition_def evaluateFlowExpression_def Let_def
      split: if_splits option.splits sum.splits prod.splits)

theorem flowConditionNeverHolds_sound_witness:
  "\<forall>env. \<not> evaluateFlowCondition (\<lambda>s. s) env ''a+b=1''"
proof
  have "flowConditionNeverHolds (\<lambda>s. s) ''a+b=1'' = Some (NeverLeft ''a+b'')"
    by (simp add: flowConditionNeverHolds_def conditionUsesExpressionSyntax_def exprSyntax.simps
        splitConditionOperator_def splitOpFrom.simps skipQuoted_def skipOpaque_def twoByteCmp_def
        oneByteCmp_def conditionHasConnective.simps conditionLHSNeedsResolution_def
        conditionFieldName_def condSpace_def go_eval)
  then show "\<not> evaluateFlowCondition (\<lambda>s. s) env ''a+b=1''" for env
    by (rule flowConditionNeverHolds_sound)
qed

text \<open>A condition's meaning is fixed by its author: two sets of flow data that give the
  same values to the references of the parsed tree give the same result, so no value can add
  an operator, a connective or another reference.\<close>

theorem expression_reads_only_its_refs:
  assumes "parseCondExpr tr condition = Inr e"
    and "\<forall>r \<in> refsOf e. fe_resolve env r = resolve r"
  shows "evaluateFlowExpression tr (env\<lparr>fe_resolve := resolve\<rparr>) condition
       = evaluateFlowExpression tr env condition"
  using assms eval_cong [of e env "env\<lparr>fe_resolve := resolve\<rparr>"]
  by (simp add: evaluateFlowExpression_def)

theorem expression_reads_only_its_refs_witness:
  "\<forall>env. evaluateFlowExpression (\<lambda>s. s) (env\<lparr>fe_resolve := \<lambda>r. if r = ''a'' then fe_resolve env r else None\<rparr>) ''a''
   = evaluateFlowExpression (\<lambda>s. s) env ''a''"
proof
  fix env
  have "parseCondExpr (\<lambda>s. s) ''a'' = Inr (CondRef ''a'')"
    by (simp add: parseCondExpr_def parseUnary_def condMaxDepth_def eval_nat_numeral parseOr_def
        parseAnd_def parseCmp_def parsePrimary_def advanceWith_def advance_def pipeLoop.simps go_eval)
  then show "evaluateFlowExpression (\<lambda>s. s) (env\<lparr>fe_resolve := \<lambda>r. if r = ''a'' then fe_resolve env r else None\<rparr>) ''a''
   = evaluateFlowExpression (\<lambda>s. s) env ''a''"
    by (rule expression_reads_only_its_refs) simp
qed

text \<open>The connectives are those of JavaScript and evaluate to an operand: the truth of
  \<open>a && b\<close>, \<open>a || b\<close> and \<open>!a\<close> is the conjunction, disjunction and negation of the operands'
  truth, and the right operand is not looked at when the left one decides.\<close>

theorem eval_connectives:
  "isTruthyCondition (eval env (CondAnd a b))
     = (isTruthyCondition (eval env a) \<and> isTruthyCondition (eval env b))
   \<and> isTruthyCondition (eval env (CondOr a b))
     = (isTruthyCondition (eval env a) \<or> isTruthyCondition (eval env b))
   \<and> isTruthyCondition (eval env (CondNot a)) = (\<not> isTruthyCondition (eval env a))
   \<and> eval env (CondAnd a b) \<in> {eval env a, eval env b}
   \<and> eval env (CondOr a b) \<in> {eval env a, eval env b}"
  by (auto simp: Let_def isTruthyCondition_def)

text \<open>The operator split takes the condition apart without losing a byte: the operator found
  is one of the source's, the sides are the trimmed texts around it, and the condition is the
  three put together.\<close>

theorem splitConditionOperator_decomposes:
  "splitConditionOperator condition = Some (lhs, op, rhs) \<Longrightarrow>
   \<exists>p opText q. condition = p @ opText @ q \<and> lhs = trim_space p \<and> rhs = trim_space q
     \<and> op = (if opText = ''=='' then ''='' else opText)
     \<and> opText \<in> {''=='', ''!='', ''>='', ''<='', ''='', ''>'', ''<''}"
  using splitOpFrom_decomposes [of "[]"] by (simp add: splitConditionOperator_def)

theorem splitConditionOperator_decomposes_witness:
  "\<exists>p opText q. ''a >= 2'' = p @ opText @ q \<and> ''a'' = trim_space p \<and> ''2'' = trim_space q
     \<and> ''>='' = (if opText = ''=='' then ''='' else opText)
     \<and> opText \<in> {''=='', ''!='', ''>='', ''<='', ''='', ''>'', ''<''}"
proof -
  have "splitConditionOperator ''a >= 2'' = Some (''a'', ''>='', ''2'')"
    by (simp add: splitConditionOperator_def splitOpFrom.simps skipQuoted_def skipOpaque_def
        twoByteCmp_def oneByteCmp_def go_eval)
  then show ?thesis by (rule splitConditionOperator_decomposes)
qed

text \<open>The cache of parsed conditions is transparent and bounded: any sequence of lookups
  from the empty cache returns what parsing each condition afresh returns, and the cache never
  holds more than its cap.\<close>

theorem cache_transparent:
  "parseAll tr cs \<lparr>condExprCache = Map.empty, condExprCached = 0\<rparr> = (rs, cache) \<Longrightarrow>
   rs = map (parseCondExpr tr) cs \<and> card (dom (condExprCache cache)) \<le> condExprCacheCap"
  using parseAll_ok [of tr "\<lparr>condExprCache = Map.empty, condExprCached = 0\<rparr>" cs rs cache]
  by (auto simp: cacheOk_def)

theorem cache_transparent_witness:
  "fst (parseAll (\<lambda>s. s) [''a''] \<lparr>condExprCache = Map.empty, condExprCached = 0\<rparr>)
   = [parseCondExpr (\<lambda>s. s) ''a'']"
  using cache_transparent [of "\<lambda>s. s" "[''a'']"]
  by (cases "parseAll (\<lambda>s. s) [''a''] \<lparr>condExprCache = Map.empty, condExprCached = 0\<rparr>") simp

end
