(* ===== verification/Scopes.thy ===== *)
theory Scopes
  imports Go_Base
begin

text \<open>
  Token scopes (\<^verbatim>\<open>scopes.go\<close>) and platform roles (\<^verbatim>\<open>roles.go\<close>). A credential's scopes are a
  text of \<^verbatim>\<open>resource:action\<close> words; \<open>hasScope\<close> reads it, \<open>intersectScopes\<close> combines two,
  \<open>scopesWithin\<close> compares them. The locale \<open>authority\<close> states what the callers of these
  functions rely on, and the texts are shown to provide it.
\<close>

section \<open>Scopes\<close>

record session =
  Scopes :: string
  CredentialScopes :: string
  accessTables :: "string \<Rightarrow> bool"

definition parseScope :: "string \<Rightarrow> string \<times> string" where
  [go_eval]: "parseScope scope =
     (case cut_at CHR '':'' scope of
        Some (r, a) \<Rightarrow> if r = [] \<or> a = [] then ([], []) else (r, a)
      | None \<Rightarrow> ([], []))"

text \<open>What one parsed scope allows; the loop of \<open>hasScope\<close> returns at the first that does.\<close>

definition scopeAllows :: "string \<times> string \<Rightarrow> string \<Rightarrow> string \<Rightarrow> bool" where
  [go_eval]: "scopeAllows ra table action =
     (case ra of (resource, scopeAction) \<Rightarrow>
        if resource = [] then False
        else if resource \<noteq> ''*'' \<and> resource \<noteq> table then False
        else scopeAction = ''*'' \<or> scopeAction = action \<or> (action = ''read'' \<and> scopeAction = ''write''))"

definition scopesAllow :: "string \<Rightarrow> string \<Rightarrow> string \<Rightarrow> bool" where
  [go_eval]: "scopesAllow scopes table action \<longleftrightarrow>
     scopes = [] \<or> scopes = ''*'' \<or>
     list_ex (\<lambda>scope. scopeAllows (parseScope scope) table action) (str_fields scopes)"

definition hasScope :: "session option \<Rightarrow> string \<Rightarrow> string \<Rightarrow> bool" where
  "hasScope sess table action =
     (case sess of None \<Rightarrow> False | Some s \<Rightarrow> scopesAllow (Scopes s) table action)"

definition credentialOnly :: "string \<Rightarrow> session" where
  "credentialOnly scopes = \<lparr>Scopes = scopes, CredentialScopes = [], accessTables = (\<lambda>_. False)\<rparr>"

definition accessDecidesTable :: "session option \<Rightarrow> string \<Rightarrow> string \<Rightarrow> bool" where
  "accessDecidesTable sess table action =
     (case sess of
        None \<Rightarrow> False
      | Some s \<Rightarrow>
          if \<not> accessTables s table then False
          else let cred = CredentialScopes s in
            cred = [] \<or> cred = ''*'' \<or> hasScope (Some (credentialOnly cred)) table action)"

definition checkScope :: "session option \<Rightarrow> string \<Rightarrow> string \<Rightarrow> (string \<times> string) option" where
  "checkScope sess table action =
     (if \<not> hasScope sess table action \<and> \<not> accessDecidesTable sess table action
      then Some (table, action) else None)"

definition scopesWithin :: "string \<Rightarrow> string \<Rightarrow> bool" where
  "scopesWithin granted requested =
     (if granted = [] \<or> granted = ''*'' \<or> granted = ''*:*'' then True
      else if requested = [] \<or> requested = ''*'' then False
      else
        list_all (\<lambda>scope. case parseScope scope of (resource, action) \<Rightarrow>
            resource \<noteq> [] \<and> hasScope (Some (credentialOnly granted)) resource action) (str_fields requested)
        \<and> str_fields requested \<noteq> [])"

text \<open>The action two scopes have in common, if they have one.\<close>

definition commonAction :: "string \<Rightarrow> string \<Rightarrow> string option" where
  "commonAction la ra =
     (if la = ra then Some la
      else if la = ''*'' then Some ra
      else if ra = ''*'' then Some la
      else if (la = ''write'' \<and> ra = ''read'') \<or> (la = ''read'' \<and> ra = ''write'') then Some ''read''
      else None)"

definition commonScope :: "string \<Rightarrow> string \<Rightarrow> string option" where
  "commonScope left right =
     (case parseScope left of (lr, la) \<Rightarrow>
      case parseScope right of (rr, ra) \<Rightarrow>
        if lr = [] then None
        else if rr = [] \<or> (lr \<noteq> rr \<and> lr \<noteq> ''*'' \<and> rr \<noteq> ''*'') then None
        else map_option (\<lambda>action. (if lr = ''*'' then rr else lr) @ '':'' @ action) (commonAction la ra))"

text \<open>The scopes in the order they are found, the first occurrence of each.\<close>

fun addScopes :: "string list \<Rightarrow> string option list \<Rightarrow> string list" where
  "addScopes out [] = out"
| "addScopes out (None # xs) = addScopes out xs"
| "addScopes out (Some scope # xs) = addScopes (if scope \<in> set out then out else out @ [scope]) xs"

definition intersectScopes :: "string \<Rightarrow> string \<Rightarrow> string" where
  "intersectScopes a b =
     (if a = [] \<or> a = ''*'' then b
      else if b = [] \<or> b = ''*'' then a
      else
        (let out = addScopes []
             (concat (map (\<lambda>left. map (commonScope left) (str_fields b)) (str_fields a)))
         in if out = [] then ''_none_:read'' else join '' '' out))"

definition isScopeIdentifier :: "string \<Rightarrow> bool" where
  "isScopeIdentifier s \<longleftrightarrow> s = ''*'' \<or>
     (s \<noteq> [] \<and> list_all (\<lambda>c. is_lower c \<or> is_upper c \<or> is_digit c \<or> c = CHR ''_'') s)"

datatype scopeError = ScopeFormat string | ScopeResource string string | ScopeAction string string

fun validateScopeList :: "string list \<Rightarrow> scopeError option" where
  "validateScopeList [] = None"
| "validateScopeList (scope # xs) =
     (case parseScope scope of (resource, action) \<Rightarrow>
        if resource = [] then Some (ScopeFormat scope)
        else if \<not> isScopeIdentifier resource then Some (ScopeResource resource scope)
        else if \<not> isScopeIdentifier action then Some (ScopeAction action scope)
        else validateScopeList xs)"

definition validateScopes :: "string \<Rightarrow> scopeError option" where
  "validateScopes scopes =
     (if scopes = [] \<or> scopes = ''*'' then None else validateScopeList (str_fields scopes))"

definition sessionHasFullAccess :: "session option \<Rightarrow> bool" where
  "sessionHasFullAccess sess =
     (case sess of None \<Rightarrow> False | Some s \<Rightarrow> Scopes s = [] \<or> Scopes s = ''*'')"

section \<open>Parsing scopes\<close>

lemma parseScope_wellformed:
  "parseScope scope = (r, a) \<Longrightarrow> r \<noteq> [] \<Longrightarrow> scope = r @ '':'' @ a \<and> CHR '':'' \<notin> set r \<and> a \<noteq> []"
  by (auto simp: parseScope_def cut_at_Some split: option.splits if_splits)

lemma parseScope_print:
  "r \<noteq> [] \<Longrightarrow> CHR '':'' \<notin> set r \<Longrightarrow> a \<noteq> [] \<Longrightarrow> parseScope (r @ '':'' @ a) = (r, a)"
proof -
  assume "r \<noteq> []" "CHR '':'' \<notin> set r" "a \<noteq> []"
  moreover from this have "cut_at CHR '':'' (r @ '':'' @ a) = Some (r, a)"
    by (simp add: cut_at_Some)
  ultimately show ?thesis by (simp add: parseScope_def)
qed

lemma scopeAllows_iff: "scopeAllows (r, a) t x \<longleftrightarrow> r \<noteq> [] \<and> (r = ''*'' \<or> r = t) \<and>
    (a = ''*'' \<or> a = x \<or> (x = ''read'' \<and> a = ''write''))"
  by (auto simp: scopeAllows_def)

lemma commonAction_allows:
  "(\<exists>c. commonAction la ra = Some c \<and> (c = ''*'' \<or> c = x \<or> (x = ''read'' \<and> c = ''write'')))
   \<longleftrightarrow> (la = ''*'' \<or> la = x \<or> (x = ''read'' \<and> la = ''write''))
     \<and> (ra = ''*'' \<or> ra = x \<or> (x = ''read'' \<and> ra = ''write''))"
  by (auto simp: commonAction_def)

lemma commonAction_nonempty: "commonAction la ra = Some c \<Longrightarrow> la \<noteq> [] \<Longrightarrow> ra \<noteq> [] \<Longrightarrow> c \<noteq> []"
  by (auto simp: commonAction_def split: if_splits)

lemma commonScope_Some:
  assumes "commonScope left right = Some scope"
  obtains lr la rr ra c where "parseScope left = (lr, la)" "parseScope right = (rr, ra)"
    "lr \<noteq> []" "rr \<noteq> []" "lr = rr \<or> lr = ''*'' \<or> rr = ''*''" "commonAction la ra = Some c"
    "scope = (if lr = ''*'' then rr else lr) @ '':'' @ c"
    "parseScope scope = (if lr = ''*'' then rr else lr, c)"
proof -
  obtain lr la where l: "parseScope left = (lr, la)" by (cases "parseScope left")
  obtain rr ra where r: "parseScope right = (rr, ra)" by (cases "parseScope right")
  from assms l r have ne: "lr \<noteq> []" "rr \<noteq> []" "lr = rr \<or> lr = ''*'' \<or> rr = ''*''"
    by (auto simp: commonScope_def split: if_splits)
  with assms l r obtain c where c: "commonAction la ra = Some c"
    "scope = (if lr = ''*'' then rr else lr) @ '':'' @ c"
    by (auto simp: commonScope_def split: if_splits)
  from parseScope_wellformed [OF l ne(1)] parseScope_wellformed [OF r ne(2)]
  have "parseScope scope = (if lr = ''*'' then rr else lr, c)"
    unfolding c(2) by (intro parseScope_print) (use ne c commonAction_nonempty in auto)
  with that l r ne c show ?thesis by blast
qed

text \<open>The scope two scopes have in common allows what both allow.\<close>

lemma commonScope_allows:
  "(\<exists>scope. commonScope left right = Some scope \<and> scopeAllows (parseScope scope) t x)
   \<longleftrightarrow> scopeAllows (parseScope left) t x \<and> scopeAllows (parseScope right) t x"
proof
  assume "\<exists>scope. commonScope left right = Some scope \<and> scopeAllows (parseScope scope) t x"
  then obtain scope where c: "commonScope left right = Some scope" "scopeAllows (parseScope scope) t x" by blast
  from c(1) show "scopeAllows (parseScope left) t x \<and> scopeAllows (parseScope right) t x"
  proof (cases rule: commonScope_Some)
    case (1 lr la rr ra c')
    with c(2) commonAction_allows [of la ra x] show ?thesis
      by (auto simp: scopeAllows_iff split: if_splits)
  qed
next
  assume both: "scopeAllows (parseScope left) t x \<and> scopeAllows (parseScope right) t x"
  obtain lr la where l: "parseScope left = (lr, la)" by (cases "parseScope left")
  obtain rr ra where r: "parseScope right = (rr, ra)" by (cases "parseScope right")
  from both l r have ne: "lr \<noteq> []" "rr \<noteq> []" "lr = ''*'' \<or> lr = t" "rr = ''*'' \<or> rr = t"
    by (auto simp: scopeAllows_iff)
  obtain c where c: "commonAction la ra = Some c"
    "c = ''*'' \<or> c = x \<or> (x = ''read'' \<and> c = ''write'')"
    using commonAction_allows [of la ra x] both l r by (auto simp: scopeAllows_iff)
  let ?r = "if lr = ''*'' then rr else lr"
  have some: "commonScope left right = Some (?r @ '':'' @ c)"
    using l r ne c(1) by (auto simp: commonScope_def)
  from parseScope_wellformed [OF l ne(1)] parseScope_wellformed [OF r ne(2)]
  have "parseScope (?r @ '':'' @ c) = (?r, c)"
    by (intro parseScope_print) (use ne c commonAction_nonempty in auto)
  with some c(2) ne show "\<exists>scope. commonScope left right = Some scope \<and> scopeAllows (parseScope scope) t x"
    by (auto simp: scopeAllows_iff)
qed

text \<open>A common scope is one word: no white space comes in.\<close>

lemma commonScope_word:
  assumes "commonScope left right = Some scope" "spaceFree left" "spaceFree right"
  shows "scope \<noteq> [] \<and> spaceFree scope"
  using assms(1)
proof (cases rule: commonScope_Some)
  case (1 lr la rr ra c)
  have free: "spaceFree lr \<and> spaceFree la" "spaceFree rr \<and> spaceFree ra"
    using parseScope_wellformed [OF 1(1) 1(3)] parseScope_wellformed [OF 1(2) 1(4)] assms(2,3)
      spaceFree_appendD [of lr "'':'' @ la"] spaceFree_appendD [of rr "'':'' @ ra"] by auto
  have "spaceFree ''read''" by (simp add: wide_spaces_def ascii_space_def byte_def)
  with free 1(6) have "spaceFree c" by (auto simp: commonAction_def split: if_splits)
  with free have "spaceFree ((if lr = ''*'' then rr else lr) @ CHR '':'' # c)"
    by (intro spaceFree_join) (auto simp: byte_def ascii_space_def)
  with 1(7) show ?thesis by simp
qed

lemma set_addScopes: "set (addScopes out xs) = set out \<union> {s. Some s \<in> set xs}"
  by (induction out xs rule: addScopes.induct) auto

section \<open>What scopes promise\<close>

text \<open>Authority texts with an intersection: what a restricted credential may do is what both
  texts allow, on every table but the deny sentinel's.\<close>

locale authority =
  fixes allows :: "string \<Rightarrow> string \<Rightarrow> string \<Rightarrow> bool"
    and meet :: "string \<Rightarrow> string \<Rightarrow> string"
    and real_table :: "string \<Rightarrow> bool"
  assumes meet_allows: "real_table t \<Longrightarrow> allows (meet a b) t x \<longleftrightarrow> allows a t x \<and> allows b t x"
begin

definition covers :: "string \<Rightarrow> string \<Rightarrow> bool" where
  "covers a b \<longleftrightarrow> (\<forall>t x. real_table t \<longrightarrow> allows b t x \<longrightarrow> allows a t x)"

lemma meet_covered: "covers a (meet a b)" "covers b (meet a b)"
  by (auto simp: covers_def meet_allows)

lemma meet_greatest: "covers a c \<Longrightarrow> covers b c \<Longrightarrow> covers (meet a b) c"
  by (auto simp: covers_def meet_allows)

text \<open>The order and the grouping of the texts do not matter.\<close>

lemma meet_comm: "real_table t \<Longrightarrow> allows (meet a b) t x = allows (meet b a) t x"
  by (auto simp: meet_allows)

lemma meet_assoc: "real_table t \<Longrightarrow> allows (meet (meet a b) c) t x = allows (meet a (meet b c)) t x"
  by (auto simp: meet_allows)

text \<open>A credential narrowed along a chain of grants never regains what one of them lacks.\<close>

lemma chain_allows:
  "real_table t \<Longrightarrow> allows (foldl meet a cs) t x \<longleftrightarrow> allows a t x \<and> (\<forall>c \<in> set cs. allows c t x)"
  by (induction cs arbitrary: a) (auto simp: meet_allows)

end

lemma intersectScopes_allows:
  assumes "t \<noteq> ''_none_''"
  shows "scopesAllow (intersectScopes a b) t x \<longleftrightarrow> scopesAllow a t x \<and> scopesAllow b t x"
proof (cases "a = [] \<or> a = ''*'' \<or> b = [] \<or> b = ''*''")
  case True
  then show ?thesis by (auto simp: intersectScopes_def scopesAllow_def)
next
  case False
  let ?out = "addScopes [] (concat (map (\<lambda>left. map (commonScope left) (str_fields b)) (str_fields a)))"
  have out: "set ?out = {s. \<exists>l \<in> set (str_fields a). \<exists>r \<in> set (str_fields b). commonScope l r = Some s}"
    unfolding set_addScopes by (auto simp: image_iff) metis+
  have both: "(\<exists>s \<in> set ?out. scopeAllows (parseScope s) t x) \<longleftrightarrow> scopesAllow a t x \<and> scopesAllow b t x"
    using False commonScope_allows [of _ _ t x]
    by (auto simp: out scopesAllow_def list_ex_iff) blast+
  show ?thesis
  proof (cases "?out = []")
    case True
    have "\<not> scopesAllow ''_none_:read'' t x"
    proof -
      have "str_fields ''_none_:read'' = [''_none_:read'']"
        using str_fields_join [of "[''_none_:read'']"] by (simp add: wide_spaces_def ascii_space_def byte_def)
      then show ?thesis using assms
        by (simp add: scopesAllow_def scopeAllows_def parseScope_def)
    qed
    with True both False show ?thesis by (simp add: intersectScopes_def Let_def)
  next
    case ne: False
    have word: "\<forall>s \<in> set ?out. s \<noteq> [] \<and> spaceFree s"
      using out commonScope_word str_fields_spaceFree by blast
    have "str_fields (join '' '' ?out) = ?out" by (rule str_fields_join [OF word])
    moreover have "join '' '' ?out \<noteq> [] \<and> join '' '' ?out \<noteq> ''*''"
    proof -
      have "str_fields [] = []" by (simp add: str_fields_def fields_acc.simps)
      moreover have "str_fields ''*'' = [''*'']"
        using str_fields_join [of "[''*'']"] by (simp add: wide_spaces_def ascii_space_def byte_def)
      moreover have "''*'' \<notin> set ?out"
        unfolding out by (auto elim!: commonScope_Some simp: Cons_eq_append_conv split: if_splits)
      ultimately show ?thesis using ne str_fields_join [OF word] by (metis list.set_intros(1))
    qed
    ultimately show ?thesis using both ne False
      by (simp add: intersectScopes_def Let_def scopesAllow_def list_ex_iff)
  qed
qed

interpretation scopes: authority scopesAllow intersectScopes "\<lambda>t. t \<noteq> ''_none_''"
  by unfold_locales (rule intersectScopes_allows)

section \<open>Well-formed texts\<close>

definition validScope :: "string \<Rightarrow> bool" where
  "validScope scope \<longleftrightarrow> (case parseScope scope of (r, a) \<Rightarrow> r \<noteq> [] \<and> isScopeIdentifier r \<and> isScopeIdentifier a)"

lemma validateScopeList_None: "validateScopeList xs = None \<longleftrightarrow> (\<forall>x \<in> set xs. validScope x)"
  by (induction xs) (auto simp: validScope_def split: prod.splits)

lemma commonScope_valid:
  "commonScope l r = Some scope \<Longrightarrow> validScope l \<Longrightarrow> validScope r \<Longrightarrow> validScope scope"
  by (erule commonScope_Some)
    (auto simp: validScope_def commonAction_def isScopeIdentifier_def is_lower_def byte_def split: if_splits)

lemma fields_sentinel: "str_fields ''_none_:read'' = [''_none_:read'']"
  using str_fields_join [of "[''_none_:read'']"] by (simp add: wide_spaces_def ascii_space_def byte_def)

lemma valid_sentinel: "validScope ''_none_:read''"
  by (simp add: validScope_def parseScope_def isScopeIdentifier_def is_lower_def is_upper_def is_digit_def byte_def)

lemma intersectScopes_fields:
  assumes "a \<noteq> []" "a \<noteq> ''*''" "b \<noteq> []" "b \<noteq> ''*''"
    and "s \<in> set (str_fields (intersectScopes a b))"
  shows "s = ''_none_:read'' \<or> (\<exists>l \<in> set (str_fields a). \<exists>r \<in> set (str_fields b). commonScope l r = Some s)"
proof -
  let ?out = "addScopes [] (concat (map (\<lambda>left. map (commonScope left) (str_fields b)) (str_fields a)))"
  have out: "set ?out = {s. \<exists>l \<in> set (str_fields a). \<exists>r \<in> set (str_fields b). commonScope l r = Some s}"
    unfolding set_addScopes by (auto simp: image_iff) metis+
  have word: "\<forall>s \<in> set ?out. s \<noteq> [] \<and> spaceFree s"
    using out commonScope_word str_fields_spaceFree by blast
  show ?thesis
  proof (cases "?out = []")
    case True
    with assms fields_sentinel show ?thesis by (simp add: intersectScopes_def Let_def)
  next
    case False
    with assms str_fields_join [OF word] have "s \<in> set ?out" by (simp add: intersectScopes_def Let_def)
    with out show ?thesis by blast
  qed
qed

lemma scopeAllows_within:
  assumes "scopesAllow granted r a" and "scopeAllows (r, a) t x"
  shows "scopesAllow granted t x"
proof (cases "granted = [] \<or> granted = ''*''")
  case False
  with assms(1) obtain g where g: "g \<in> set (str_fields granted)" "scopeAllows (parseScope g) r a"
    by (auto simp: scopesAllow_def list_ex_iff)
  obtain gr ga where p: "parseScope g = (gr, ga)" by (cases "parseScope g")
  from g(2) assms(2) have "scopeAllows (gr, ga) t x" by (auto simp: p scopeAllows_iff)
  with p have "scopeAllows (parseScope g) t x" by simp
  with g(1) False show ?thesis unfolding scopesAllow_def list_ex_iff by blast
qed (auto simp: scopesAllow_def)

section \<open>Properties of scopes\<close>

text \<open>A credential narrowed by a chain of grants may do exactly what it and every grant of
  the chain allow, on any table but the one the deny sentinel names: intersecting the texts
  loses no permission, invents none, and the order does not matter.\<close>

theorem intersect_chain_exact:
  "t \<noteq> ''_none_'' \<Longrightarrow>
   scopesAllow (foldl intersectScopes a cs) t x
   \<longleftrightarrow> scopesAllow a t x \<and> list_all (\<lambda>c. scopesAllow c t x) cs"
  by (simp add: scopes.chain_allows list_all_iff)

theorem intersect_chain_exact_witness:
  "scopesAllow (foldl intersectScopes ''a:*'' [''*:write'', ''a:read'']) ''a'' ''read''
   \<longleftrightarrow> scopesAllow ''a:*'' ''a'' ''read'' \<and> list_all (\<lambda>c. scopesAllow c ''a'' ''read'') [''*:write'', ''a:read'']"
  by (rule intersect_chain_exact) simp

text \<open>A credential that passes the \<open>scopesWithin\<close> check cannot do more than the one that
  grants it: whatever the requested scopes allow, the granted scopes allow.\<close>

theorem scopesWithin_sound:
  assumes "scopesWithin granted requested" and "scopesAllow requested t x"
  shows "scopesAllow granted t x"
proof (cases "granted = [] \<or> granted = ''*''")
  case False
  show ?thesis
  proof (cases "granted = ''*:*''")
    case True
    have "str_fields ''*:*'' = [''*:*'']"
      using str_fields_join [of "[''*:*'']"] by (simp add: wide_spaces_def ascii_space_def byte_def)
    with True show ?thesis by (simp add: scopesAllow_def scopeAllows_def parseScope_def)
  next
    case star: False
    with assms False obtain s where "s \<in> set (str_fields requested)" and s: "scopeAllows (parseScope s) t x"
      by (auto simp: scopesWithin_def scopesAllow_def list_ex_iff)
    moreover obtain r a where p: "parseScope s = (r, a)" by (cases "parseScope s")
    ultimately have within: "scopesAllow granted r a"
      using assms(1) star False
      by (auto simp: scopesWithin_def hasScope_def credentialOnly_def list_all_iff split: if_splits)
    with scopeAllows_within [OF within] s p show ?thesis by simp
  qed
qed (auto simp: scopesAllow_def)

theorem scopesWithin_sound_witness:
  "scopesAllow ''a:write'' ''a'' ''read''"
proof -
  have f: "str_fields ''a:write'' = [''a:write'']" "str_fields ''a:read'' = [''a:read'']"
    using str_fields_join [of "[''a:write'']"] str_fields_join [of "[''a:read'']"]
    by (simp_all add: wide_spaces_def ascii_space_def byte_def)
  have "scopesWithin ''a:write'' ''a:read''" "scopesAllow ''a:read'' ''a'' ''read''"
    by (simp_all add: scopesWithin_def scopesAllow_def hasScope_def credentialOnly_def
        scopeAllows_def parseScope_def f)
  then show ?thesis by (rule scopesWithin_sound)
qed

text \<open>Valid scopes stay valid: the intersection of two texts that pass \<open>validateScopes\<close>
  passes it, the deny sentinel included.\<close>

theorem intersectScopes_valid:
  assumes "validateScopes a = None" and "validateScopes b = None"
  shows "validateScopes (intersectScopes a b) = None"
proof (cases "a = [] \<or> a = ''*'' \<or> b = [] \<or> b = ''*''")
  case True
  with assms show ?thesis by (auto simp: intersectScopes_def)
next
  case False
  with assms have "\<forall>l \<in> set (str_fields a). validScope l" "\<forall>r \<in> set (str_fields b). validScope r"
    by (auto simp: validateScopes_def validateScopeList_None)
  with False intersectScopes_fields [of a b] valid_sentinel commonScope_valid
  have "\<forall>s \<in> set (str_fields (intersectScopes a b)). validScope s" by blast
  then show ?thesis by (simp add: validateScopes_def validateScopeList_None)
qed

theorem intersectScopes_valid_witness:
  "validateScopes (intersectScopes [] ''*'') = None"
  by (rule intersectScopes_valid) (simp_all add: validateScopes_def)

end
