(* ===== verification/Roles.thy ===== *)
theory Roles
  imports Go_Base
begin

text \<open>
  Platform roles and page gates: \<open>hasRole\<close>, \<open>pageRoleAllowed\<close>, \<open>RoleMiddleware\<close>,
  \<open>RequireMiddleware\<close> and \<open>SetUserRole\<close> of \<^verbatim>\<open>roles.go\<close>, and \<open>checkRequireFields\<close> of
  \<^verbatim>\<open>pdf.go\<close>. What the database says (the roles a user holds, the user's fields) is an
  argument.
\<close>

fun hierarchy :: "string \<Rightarrow> nat option" where
  "hierarchy r =
     (if r = ''admin'' then Some 100
      else if r = ''manager'' then Some 50
      else if r = ''editor'' then Some 30
      else if r = ''user'' then Some 10
      else None)"

declare hierarchy.simps [simp del]

definition userLevel :: "string \<Rightarrow> nat" where
  "userLevel userRole =
     (case hierarchy (to_lower userRole) of
        None \<Rightarrow> 10
      | Some l \<Rightarrow> if l = 0 then 10 else l)"

definition hasRole :: "string \<Rightarrow> string \<Rightarrow> bool" where
  "hasRole userRole requiredRole =
     (case hierarchy (to_lower requiredRole) of
        None \<Rightarrow> equal_fold userRole requiredRole
      | Some requiredLevel \<Rightarrow> requiredLevel \<le> userLevel userRole)"

definition pageRoleAllowed :: "string list \<Rightarrow> string \<Rightarrow> bool" where
  "pageRoleAllowed held requiredRole =
     list_ex (\<lambda>part. let role = trim_space part in
         role \<noteq> [] \<and> list_ex (\<lambda>have. hasRole have role) held) (split_at CHR '','' requiredRole)"

datatype gate = GateNext | GateLogin | GateForbidden

text \<open>\<open>held\<close> is \<^term>\<open>None\<close> when the request has no session.\<close>

definition RoleMiddleware :: "string \<Rightarrow> string list option \<Rightarrow> gate" where
  "RoleMiddleware requiredRole held =
     (if requiredRole = [] \<or> requiredRole = ''public'' then GateNext
      else (case held of
          None \<Rightarrow> GateLogin
        | Some roles \<Rightarrow> if \<not> pageRoleAllowed roles requiredRole then GateForbidden else GateNext))"

text \<open>A user's fields as their \<^verbatim>\<open>%v\<close> text; a missing field prints as \<^verbatim>\<open><nil>\<close>.\<close>

type_synonym userFields = "string \<rightharpoonup> string"

fun requireLoop :: "userFields \<Rightarrow> nat \<Rightarrow> string list \<Rightarrow> bool" where
  "requireLoop userMap valid [] \<longleftrightarrow> 0 < valid"
| "requireLoop userMap valid (part # parts) =
     (case cut_at CHR '':'' part of
        None \<Rightarrow> requireLoop userMap valid parts
      | Some (field, vals) \<Rightarrow>
          if field = [] then requireLoop userMap valid parts
          else
            let userVal = (case userMap field of Some v \<Rightarrow> v | None \<Rightarrow> ''<nil>'') in
            if list_ex (\<lambda>allowed. trim_space allowed = userVal) (split_at CHR '','' vals)
            then requireLoop userMap (valid + 1) parts
            else False)"

definition checkRequireFields :: "string \<Rightarrow> userFields \<Rightarrow> bool" where
  "checkRequireFields require userMap = requireLoop userMap 0 (str_fields require)"

definition RequireMiddleware :: "string \<Rightarrow> userFields option option \<Rightarrow> gate" where
  "RequireMiddleware require sess =
     (if require = [] then GateNext
      else (case sess of
          None \<Rightarrow> GateLogin
        | Some None \<Rightarrow> GateForbidden
        | Some (Some userMap) \<Rightarrow> if \<not> checkRequireFields require userMap then GateForbidden else GateNext))"

text \<open>The stored role, or \<^term>\<open>None\<close> for the refused empty one.\<close>

definition SetUserRole :: "string \<Rightarrow> string option" where
  "SetUserRole role = (let r = trim_space (to_lower role) in if r = [] then None else Some r)"

section \<open>Lemmas\<close>

lemma hierarchy_pos: "hierarchy r = Some l \<Longrightarrow> 10 \<le> l \<and> l \<le> 100"
  by (auto simp: hierarchy.simps split: if_splits)

lemma userLevel_ge: "10 \<le> userLevel r"
  using hierarchy_pos by (auto simp: userLevel_def split: option.split)

lemma userLevel_builtin: "hierarchy (to_lower r) = Some l \<Longrightarrow> userLevel r = l"
  using hierarchy_pos [of "to_lower r" l] by (simp add: userLevel_def)

lemma requireLoop_iff:
  "requireLoop userMap valid parts \<longleftrightarrow>
     (\<forall>part \<in> set parts. \<forall>field vals. cut_at CHR '':'' part = Some (field, vals) \<and> field \<noteq> [] \<longrightarrow>
        (\<exists>allowed \<in> set (split_at CHR '','' vals).
           trim_space allowed = (case userMap field of Some v \<Rightarrow> v | None \<Rightarrow> ''<nil>'')))
     \<and> (0 < valid \<or> (\<exists>part \<in> set parts. \<exists>field vals. cut_at CHR '':'' part = Some (field, vals) \<and> field \<noteq> []))"
proof (induction parts arbitrary: valid)
  case (Cons part parts)
  show ?case
  proof (cases "cut_at CHR '':'' part")
    case None
    then show ?thesis by (simp add: Cons.IH)
  next
    case (Some x)
    obtain field vals where x: "x = (field, vals)" by (cases x)
    show ?thesis by (cases "field = []") (auto simp: Some x Cons.IH Let_def list_ex_iff)
  qed
qed simp

section \<open>Properties\<close>

text \<open>The built-in roles form a ladder: whoever passes a built-in requirement passes every
  lower one, and a custom role reaches no built-in requirement above \<open>user\<close>, so no role
  escalates by its name.\<close>

theorem hasRole_ladder:
  assumes "hierarchy (to_lower high) = Some h" and "hierarchy (to_lower low) = Some l" and "l \<le> h"
  shows "(hasRole userRole high \<longrightarrow> hasRole userRole low) \<and>
     (hierarchy (to_lower userRole) = None \<longrightarrow> (hasRole userRole low \<longleftrightarrow> l = 10))"
  using assms hierarchy_pos [of "to_lower low" l]
  by (auto simp: hasRole_def userLevel_def)

theorem hasRole_ladder_witness:
  "hasRole ''Manager'' ''editor'' \<and> \<not> hasRole ''org'' ''editor''"
proof -
  have h: "hierarchy (to_lower ''manager'') = Some 50" "hierarchy (to_lower ''editor'') = Some 30"
    "hierarchy (to_lower ''org'') = None" "hasRole ''Manager'' ''manager''"
    by (simp_all add: hasRole_def userLevel_def hierarchy.simps go_eval)
  from hasRole_ladder [OF h(1,2), of "''Manager''"] hasRole_ladder [OF h(1,2), of "''org''"] h(3,4)
  show ?thesis by simp
qed

text \<open>A page gate is opened by a session that holds, after trimming, one of the roles it
  names, and by nothing else; an anonymous visitor is sent to the login of every gated page.\<close>

theorem RoleMiddleware_opens:
  "RoleMiddleware requiredRole held = GateNext \<longleftrightarrow>
     requiredRole = [] \<or> requiredRole = ''public'' \<or>
     (\<exists>roles have role. held = Some roles \<and> have \<in> set roles \<and> role \<noteq> [] \<and>
        role \<in> set (map trim_space (split_at CHR '','' requiredRole)) \<and> hasRole have role)"
  by (auto simp: RoleMiddleware_def pageRoleAllowed_def list_ex_iff Let_def split: option.split)

text \<open>The field gate checks what it names: it admits a user exactly when it names at least
  one field and every named field's value is among its alternatives, so a gate made only of
  malformed parts refuses everybody.\<close>

theorem checkRequireFields_exact:
  "checkRequireFields require userMap \<longleftrightarrow>
   (let named = {(field, vals). \<exists>part \<in> set (str_fields require).
          cut_at CHR '':'' part = Some (field, vals) \<and> field \<noteq> []} in
    named \<noteq> {} \<and>
    named \<subseteq> {(field, vals). (case userMap field of Some v \<Rightarrow> v | None \<Rightarrow> ''<nil>'')
                  \<in> set (map trim_space (split_at CHR '','' vals))})"
  unfolding checkRequireFields_def requireLoop_iff Let_def
  by (auto simp: image_iff subset_iff) (metis+)?

end
