(* ===== verification/Client_Ip.thy ===== *)
theory Client_Ip
  imports Go_Base
begin

text \<open>
  The client address of a request (\<^verbatim>\<open>client_ip.go\<close>): whose word is taken for it, and what a
  client can and cannot change. Package \<^verbatim>\<open>net\<close>'s parsing and printing of addresses is a
  record of functions; a list of networks is a list of membership tests. The edge networks are
  the argument \<open>edge\<close>, which the program fills with \<open>cloudflareEdgeNets\<close>.
\<close>

record 'ip netFns =
  splitHost :: "string \<Rightarrow> string option"
  parseIP :: "string \<Rightarrow> 'ip option"
  showIP :: "'ip \<Rightarrow> string"
  parseCIDR :: "string \<Rightarrow> ('ip \<Rightarrow> bool) option"
  singleNet :: "'ip \<Rightarrow> 'ip \<Rightarrow> bool"
  isLocal :: "'ip \<Rightarrow> bool"
  isV4 :: "'ip \<Rightarrow> bool"
  mask64 :: "'ip \<Rightarrow> 'ip"

record httpRequest =
  RemoteAddr :: string
  xForwardedFor :: "string list"
  cfConnectingIP :: string
  xRealIP :: string
  routerMarker :: bool

record 'ip trustedProxies =
  local :: bool
  nets :: "('ip \<Rightarrow> bool) list"

definition ipInNets :: "'ip \<Rightarrow> ('ip \<Rightarrow> bool) list \<Rightarrow> bool" where
  "ipInNets ip ns = list_ex (\<lambda>n. n ip) ns"

definition parseTrustedNets :: "'ip netFns \<Rightarrow> string \<Rightarrow> ('ip \<Rightarrow> bool) list" where
  "parseTrustedNets fn lst =
     concat (map (\<lambda>f.
         case parseCIDR fn f of
           Some n \<Rightarrow> [n]
         | None \<Rightarrow> (case parseIP fn f of Some ip \<Rightarrow> [singleNet fn ip] | None \<Rightarrow> []))
       (fields_by (\<lambda>c. \<not> (c = CHR '','' \<or> c = CHR '' '' \<or> c = CHR 0x09 \<or> c = CHR 0x0A)) [] lst))"

definition cloudflareEdgeNets :: "'ip netFns \<Rightarrow> ('ip \<Rightarrow> bool) list" where
  "cloudflareEdgeNets fn = parseTrustedNets fn
     (''173.245.48.0/20 103.21.244.0/22 103.22.200.0/22 103.31.4.0/22 '' @
      ''141.101.64.0/18 108.162.192.0/18 190.93.240.0/20 188.114.96.0/20 '' @
      ''197.234.240.0/22 198.41.128.0/17 162.158.0.0/15 104.16.0.0/13 '' @
      ''104.24.0.0/14 172.64.0.0/13 131.0.72.0/22 '' @
      ''2400:cb00::/32 2606:4700::/32 2803:f800::/32 2405:b500::/32 '' @
      ''2405:8100::/32 2a06:98c0::/29 2c0f:f248::/32'')"

definition operatorTrustedProxies :: "'ip netFns \<Rightarrow> string \<Rightarrow> 'ip trustedProxies" where
  "operatorTrustedProxies fn env =
     (let v = trim_space env; w = to_lower v in
      if w \<in> {[], ''0'', ''false'', ''no'', ''off''} then \<lparr>local = False, nets = []\<rparr>
      else if w \<in> {''1'', ''true'', ''yes'', ''on''} then \<lparr>local = True, nets = []\<rparr>
      else \<lparr>local = False, nets = parseTrustedNets fn v\<rparr>)"

definition trusts :: "'ip netFns \<Rightarrow> 'ip trustedProxies \<Rightarrow> 'ip \<Rightarrow> bool" where
  "trusts fn p ip \<longleftrightarrow> (local p \<and> isLocal fn ip) \<or> ipInNets ip (nets p)"

definition forwardedHops :: "string list \<Rightarrow> string list" where
  "forwardedHops values =
     concat (map (\<lambda>v. filter (\<lambda>h. h \<noteq> []) (map trim_space (split_at CHR '','' v))) values)"

definition trimBrackets :: "string \<Rightarrow> string" where
  "trimBrackets s =
     (let q = (\<lambda>c. c = CHR ''['' \<or> c = CHR '']'') in rev (dropWhile q (rev (dropWhile q s))))"

definition parseHopIP :: "'ip netFns \<Rightarrow> string \<Rightarrow> 'ip option" where
  "parseHopIP fn src =
     (let s = trim_space src;
          h = (case splitHost fn s of Some h \<Rightarrow> h | None \<Rightarrow> s)
      in parseIP fn (trimBrackets h))"

text \<open>The walk over the hops from the right: \<^term>\<open>Inl\<close> is a returned address, \<^term>\<open>Inr\<close> the
  last hop when every one was trusted.\<close>

fun walkHops :: "'ip netFns \<Rightarrow> ('ip \<Rightarrow> bool) list \<Rightarrow> 'ip trustedProxies \<Rightarrow> string \<Rightarrow> 'ip \<Rightarrow> string list \<Rightarrow> 'ip + 'ip" where
  "walkHops fn edge proxies cfHeader hop hops =
     (if ipInNets hop edge \<and> parseHopIP fn cfHeader \<noteq> None then Inl (the (parseHopIP fn cfHeader))
      else if \<not> ipInNets hop edge \<and> \<not> trusts fn proxies hop then Inl hop
      else (case hops of
          [] \<Rightarrow> Inr hop
        | h # hs \<Rightarrow> (case parseHopIP fn h of None \<Rightarrow> Inl hop | Some ip \<Rightarrow> walkHops fn edge proxies cfHeader ip hs)))"

declare walkHops.simps [simp del]

definition requestPeer :: "'ip netFns \<Rightarrow> httpRequest \<Rightarrow> string" where
  "requestPeer fn r = (case splitHost fn (RemoteAddr r) of Some h \<Rightarrow> h | None \<Rightarrow> RemoteAddr r)"

definition resolveClientIP :: "'ip netFns \<Rightarrow> ('ip \<Rightarrow> bool) list \<Rightarrow> string \<Rightarrow> httpRequest \<Rightarrow> bool \<Rightarrow> string" where
  "resolveClientIP fn edge env r trustRouter =
     (let peer = requestPeer fn r in
      case parseIP fn peer of
        None \<Rightarrow> peer
      | Some ip \<Rightarrow>
          (let hops = forwardedHops (xForwardedFor r) in
           if trustRouter \<and> routerMarker r then
             (case hops of
                [] \<Rightarrow> showIP fn ip
              | h # _ \<Rightarrow> (case parseHopIP fn h of Some first \<Rightarrow> showIP fn first | None \<Rightarrow> showIP fn ip))
           else
             (let proxies = operatorTrustedProxies fn env in
              case walkHops fn edge proxies (cfConnectingIP r) ip (rev hops) of
                Inl client \<Rightarrow> showIP fn client
              | Inr hop \<Rightarrow>
                  (if hops = [] \<and> trusts fn proxies ip then
                     (case parseHopIP fn (xRealIP r) of Some real \<Rightarrow> showIP fn real | None \<Rightarrow> showIP fn hop)
                   else showIP fn hop))))"

definition clientRateBucket :: "'ip netFns \<Rightarrow> string \<Rightarrow> string" where
  "clientRateBucket fn ip =
     (case parseIP fn ip of
        None \<Rightarrow> ip
      | Some parsed \<Rightarrow> if isV4 fn parsed then ip else showIP fn (mask64 fn parsed) @ ''/64'')"

section \<open>Lemmas\<close>

lemma forwardedHops_append: "forwardedHops (a @ b) = forwardedHops a @ forwardedHops b"
  by (simp add: forwardedHops_def)

text \<open>What lies beyond the hop the walk stopped at is never read.\<close>

lemma walkHops_stops:
  "walkHops fn edge proxies cf hop hops = Inl client \<Longrightarrow>
   walkHops fn edge proxies cf hop (hops @ front) = Inl client"
proof (induction hops arbitrary: hop)
  case Nil
  then show ?case by (subst walkHops.simps, subst (asm) walkHops.simps) (auto split: if_splits)
next
  case (Cons h hs)
  then show ?case
    by (subst walkHops.simps, subst (asm) walkHops.simps) (auto split: if_splits option.splits)
qed

lemma resolve_stops:
  assumes "parseIP fn (requestPeer fn r) = Some ip"
    and "\<not> (trustRouter \<and> routerMarker r)"
    and "walkHops fn edge (operatorTrustedProxies fn env) (cfConnectingIP r) ip
      (rev (forwardedHops (xForwardedFor r))) = Inl client"
  shows "resolveClientIP fn edge env r trustRouter = showIP fn client"
  unfolding resolveClientIP_def Let_def assms(1) if_not_P [OF assms(2)] by (simp add: assms(1,3))

lemma requestPeer_headers: "requestPeer fn (r\<lparr>xForwardedFor := hs\<rparr>) = requestPeer fn r"
  by (simp add: requestPeer_def cong: option.case_cong)

section \<open>Properties\<close>

text \<open>A client that connects directly cannot choose its address: when the TCP peer is neither
  an edge network nor a declared proxy and no router marker is believed, the answer is the
  peer's own address, whatever the forwarding headers say.\<close>

theorem direct_peer_unspoofable:
  assumes "splitHost fn (RemoteAddr r) = Some peer" and "parseIP fn peer = Some ip"
    and "\<not> ipInNets ip edge" and "\<not> trusts fn (operatorTrustedProxies fn env) ip"
    and "\<not> (trustRouter \<and> routerMarker r)"
  shows "resolveClientIP fn edge env r trustRouter = showIP fn ip"
  using assms walkHops.simps [of fn edge "operatorTrustedProxies fn env" "cfConnectingIP r" ip]
  by (auto simp: resolveClientIP_def requestPeer_def Let_def)

definition demoNet :: "string netFns" where
  "demoNet = \<lparr>splitHost = map_option fst \<circ> cut_at CHR '':'',
     parseIP = (\<lambda>s. if s \<noteq> [] \<and> list_all (\<lambda>c. is_digit c \<or> c = CHR ''.'') s then Some s else None),
     showIP = id, parseCIDR = (\<lambda>_. None), singleNet = (=), isLocal = (=) ''127.0.0.1'',
     isV4 = (\<lambda>_. True), mask64 = id\<rparr>"

theorem direct_peer_unspoofable_witness:
  "resolveClientIP demoNet [(=) ''9.9''] ''1''
     \<lparr>RemoteAddr = ''1.2:80'', xForwardedFor = [''6.6''], cfConnectingIP = ''7.7'', xRealIP = ''8.8'',
      routerMarker = False\<rparr> False = ''1.2''"
proof -
  have "resolveClientIP demoNet [(=) ''9.9''] ''1''
     \<lparr>RemoteAddr = ''1.2:80'', xForwardedFor = [''6.6''], cfConnectingIP = ''7.7'', xRealIP = ''8.8'',
      routerMarker = False\<rparr> False = showIP demoNet ''1.2''"
    by (rule direct_peer_unspoofable [where peer = "''1.2''"])
      (simp_all add: demoNet_def ipInNets_def trusts_def operatorTrustedProxies_def Let_def go_eval)
  then show ?thesis by (simp add: demoNet_def)
qed

text \<open>Entries a client writes itself are never reached: once the walk over the forwarded hops
  stops at an address, hops put before the ones that are there, in an earlier header or at the
  front of one, change nothing.\<close>

theorem forged_hops_ignored:
  assumes "walkHops fn edge (operatorTrustedProxies fn env) (cfConnectingIP r) ip
      (rev (forwardedHops (xForwardedFor r))) = Inl client"
    and "parseIP fn (requestPeer fn r) = Some ip"
    and "\<not> (trustRouter \<and> routerMarker r)"
  shows "resolveClientIP fn edge env (r\<lparr>xForwardedFor := forged @ xForwardedFor r\<rparr>) trustRouter
       = resolveClientIP fn edge env r trustRouter"
proof -
  have "resolveClientIP fn edge env (r\<lparr>xForwardedFor := forged @ xForwardedFor r\<rparr>) trustRouter = showIP fn client"
    using assms walkHops_stops [OF assms(1), of "rev (forwardedHops forged)"]
    by (intro resolve_stops) (simp_all add: forwardedHops_append requestPeer_headers)
  then show ?thesis using resolve_stops [OF assms(2,3,1)] by simp
qed

theorem forged_hops_ignored_witness:
  "resolveClientIP demoNet [] ''1''
     \<lparr>RemoteAddr = ''127.0.0.1'', xForwardedFor = [''6.6'', ''5.5''], cfConnectingIP = [], xRealIP = [],
      routerMarker = False\<rparr> False
   = resolveClientIP demoNet [] ''1''
     \<lparr>RemoteAddr = ''127.0.0.1'', xForwardedFor = [''5.5''], cfConnectingIP = [], xRealIP = [],
      routerMarker = False\<rparr> False"
proof -
  let ?r = "\<lparr>RemoteAddr = ''127.0.0.1'', xForwardedFor = [''5.5''], cfConnectingIP = [], xRealIP = [],
      routerMarker = False\<rparr>"
  have trim: "trim_space ''5.5'' = ''5.5''" by (simp add: go_eval)
  have hops: "rev (forwardedHops [''5.5'']) = [''5.5'']"
    by (simp add: forwardedHops_def trim)
  have local: "operatorTrustedProxies demoNet ''1'' = \<lparr>local = True, nets = []\<rparr>"
    by (simp add: operatorTrustedProxies_def Let_def go_eval)
  have hop: "parseHopIP demoNet ''5.5'' = Some ''5.5''"
    by (simp add: parseHopIP_def Let_def trim trimBrackets_def demoNet_def is_digit_def byte_def)
  have t: "trusts demoNet \<lparr>local = True, nets = []\<rparr> ''127.0.0.1''"
    "\<not> trusts demoNet \<lparr>local = True, nets = []\<rparr> ''5.5''"
    by (simp_all add: trusts_def ipInNets_def demoNet_def)
  have "walkHops demoNet [] (operatorTrustedProxies demoNet ''1'') [] ''127.0.0.1'' [''5.5''] = Inl ''5.5''"
    unfolding local by (subst walkHops.simps, simp add: t hop ipInNets_def, subst walkHops.simps,
        simp add: t ipInNets_def)
  moreover have "parseIP demoNet (requestPeer demoNet ?r) = Some ''127.0.0.1''"
    by (simp add: requestPeer_def demoNet_def is_digit_def byte_def)
  ultimately show ?thesis
    using forged_hops_ignored [of demoNet "[]" "''1''" ?r "''127.0.0.1''" "''5.5''" False "[''6.6'']"] hops by simp
qed

end
