(* ===== verification/Rate_Limiter.thy ===== *)
theory Rate_Limiter
  imports Go_Base "HOL-Library.AList"
begin

text \<open>
  The request rate limiter (\<^verbatim>\<open>ratelimit.go\<close>) in its two modes: an in-memory map of visitors
  and, in a cluster, a table shared through SQLite. Times are integers, nanoseconds in the
  local mode and seconds in the shared one. The visitor map is an association list whose order
  is the order the map is iterated in; Go randomises it, and the statements hold for every
  order. The locale \<open>fixed_window\<close> says what both modes promise, and the budget of a window
  is proved once for both.
\<close>

type_synonym time = int

record visitor =
  tokens :: int
  lastReset :: time
  denied :: bool

record rateLimiter =
  visitors :: "(string \<times> visitor) list"
  rate :: int
  window :: time

definition realtimeMaxVisitors :: nat where
  "realtimeMaxVisitors = 50000"

definition newRateLimiter :: "int \<Rightarrow> time \<Rightarrow> rateLimiter" where
  "newRateLimiter r w = \<lparr>visitors = [], rate = r, window = w\<rparr>"

section \<open>The local mode\<close>

text \<open>Expired entries go first; if that does not free a tenth of the map, further entries in
  iteration order do.\<close>

definition evictStalestLocked :: "time \<Rightarrow> rateLimiter \<Rightarrow> rateLimiter" where
  "evictStalestLocked now rl =
     (let target = length (visitors rl) div 10 + 1;
          fresh = filter (\<lambda>(k, v). \<not> lastReset v < now - window rl) (visitors rl);
          removed = length (visitors rl) - length fresh
      in rl\<lparr>visitors := drop (target - removed) fresh\<rparr>)"

text \<open>The answer of a check: allowed, how long until the window resets, first refusal.\<close>

type_synonym checked = "bool \<times> time \<times> bool"

definition checkLocal :: "rateLimiter \<Rightarrow> time \<Rightarrow> string \<Rightarrow> checked \<times> rateLimiter" where
  "checkLocal rl now key =
     (let fresh = \<lparr>tokens = rate rl - 1, lastReset = now, denied = False\<rparr> in
      case map_of (visitors rl) key of
        None \<Rightarrow>
          (let rl' = (if realtimeMaxVisitors \<le> length (visitors rl) then evictStalestLocked now rl else rl)
           in ((True, 0, False), rl'\<lparr>visitors := AList.update key fresh (visitors rl')\<rparr>))
      | Some v \<Rightarrow>
          if now - lastReset v > window rl then
            ((True, 0, False), rl\<lparr>visitors := AList.update key fresh (visitors rl)\<rparr>)
          else if tokens v \<le> 0 then
            ((False, window rl - (now - lastReset v), \<not> denied v),
             rl\<lparr>visitors := AList.update key (v\<lparr>denied := True\<rparr>) (visitors rl)\<rparr>)
          else
            ((True, 0, False),
             rl\<lparr>visitors := AList.update key (v\<lparr>tokens := tokens v - 1\<rparr>) (visitors rl)\<rparr>))"

definition cleanup :: "time \<Rightarrow> rateLimiter \<Rightarrow> rateLimiter" where
  "cleanup now rl =
     rl\<lparr>visitors := filter (\<lambda>(k, v). \<not> lastReset v < now - 2 * window rl) (visitors rl)\<rparr>"

text \<open>The header value for a refusal, in whole seconds, rounded up.\<close>

definition nanosPerSecond :: int where
  "nanosPerSecond = 1000000000"

definition setRetryAfter :: "time \<Rightarrow> int" where
  "setRetryAfter d = (let secs = - ((- d) div nanosPerSecond) in if secs < 1 then 1 else secs)"

section \<open>The shared mode\<close>

record sharedRow =
  rl_count :: int
  window_start :: time

record sharedLimiter =
  rows :: "(string \<times> sharedRow) list"
  s_rate :: int
  windowSec :: time

text \<open>The upsert: a new row counts one, an expired window starts again, a live one counts on.\<close>

definition upsert :: "sharedLimiter \<Rightarrow> time \<Rightarrow> string \<Rightarrow> sharedLimiter" where
  "upsert rl now key =
     (let row = (case map_of (rows rl) key of
           None \<Rightarrow> \<lparr>rl_count = 1, window_start = now\<rparr>
         | Some r \<Rightarrow>
             if now - window_start r > windowSec rl then \<lparr>rl_count = 1, window_start = now\<rparr>
             else r\<lparr>rl_count := rl_count r + 1\<rparr>)
      in rl\<lparr>rows := AList.update key row (rows rl)\<rparr>)"

text \<open>\<open>writeFails\<close> and \<open>readFails\<close> are the database's errors: the limiter fails open.\<close>

definition checkShared :: "bool \<Rightarrow> bool \<Rightarrow> sharedLimiter \<Rightarrow> time \<Rightarrow> string \<Rightarrow> checked \<times> sharedLimiter" where
  "checkShared writeFails readFails rl now key =
     (if writeFails then ((True, 0, False), rl)
      else
        (let rl' = upsert rl now key in
         if readFails then ((True, 0, False), rl')
         else (case map_of (rows rl') key of
             None \<Rightarrow> ((True, 0, False), rl')
           | Some r \<Rightarrow>
               if rl_count r \<le> s_rate rl then ((True, 0, False), rl')
               else ((False, windowSec rl - (now - window_start r), rl_count r = s_rate rl + 1), rl'))))"

definition cleanupShared :: "time \<Rightarrow> sharedLimiter \<Rightarrow> sharedLimiter" where
  "cleanupShared now rl =
     rl\<lparr>rows := filter (\<lambda>(k, r). \<not> now - window_start r > 2 * windowSec rl) (rows rl)\<rparr>"

section \<open>What a fixed window promises\<close>

text \<open>The answers to \<open>k\<close>'s requests in a sequence of requests.\<close>

fun answersTo :: "('st \<Rightarrow> time \<Rightarrow> string \<Rightarrow> checked \<times> 'st) \<Rightarrow> string \<Rightarrow> 'st \<Rightarrow> (time \<times> string) list \<Rightarrow> bool list" where
  "answersTo check k st [] = []"
| "answersTo check k st ((now, k') # es) =
     (case check st now k' of
        ((b, _), st') \<Rightarrow> (if k' = k then b # answersTo check k st' es else answersTo check k st' es))"

definition requestsOf :: "string \<Rightarrow> (time \<times> string) list \<Rightarrow> nat" where
  "requestsOf k es = length (filter (\<lambda>e. snd e = k) es)"

text \<open>Within the window a key opened, each of its requests is allowed while there is budget left
  and uses one unit of it, and the requests of other keys leave it alone. \<open>roomy st n\<close> says
  that \<open>n\<close> requests make the limiter forget nothing.\<close>

locale fixed_window =
  fixes check :: "'st \<Rightarrow> time \<Rightarrow> string \<Rightarrow> checked \<times> 'st"
    and left :: "'st \<Rightarrow> string \<Rightarrow> nat"
    and open_at :: "'st \<Rightarrow> string \<Rightarrow> time \<Rightarrow> bool"
    and roomy :: "'st \<Rightarrow> nat \<Rightarrow> bool"
  assumes own_request: "open_at st k now \<Longrightarrow> roomy st (Suc n) \<Longrightarrow> check st now k = ((b, rest), st') \<Longrightarrow>
      b = (0 < left st k) \<and> left st' k = left st k - 1 \<and> open_at st' k = open_at st k \<and> roomy st' n"
    and other_request: "k' \<noteq> k \<Longrightarrow> open_at st k t \<Longrightarrow> roomy st (Suc n) \<Longrightarrow> check st now k' = (c, st') \<Longrightarrow>
      left st' k = left st k \<and> open_at st' k = open_at st k \<and> roomy st' n"
begin

lemma budget_exact:
  "\<forall>(t, k') \<in> set es. open_at st k t \<Longrightarrow> roomy st (length es) \<Longrightarrow>
   answersTo check k st es =
     (let m = requestsOf k es in
      replicate (min (left st k) m) True @ replicate (m - left st k) False)"
proof (induction es arbitrary: st)
  case (Cons e es)
  obtain now k' where e: "e = (now, k')" by (cases e)
  obtain b rest st' where c: "check st now k' = ((b, rest), st')" by (cases "check st now k'") auto
  show ?case
  proof (cases "k' = k")
    case True
    have st': "b = (0 < left st k) \<and> left st' k = left st k - 1 \<and> open_at st' k = open_at st k \<and> roomy st' (length es)"
      using own_request [of st k now "length es" b rest st'] Cons.prems True c by (simp add: e)
    then have "answersTo check k st' es = (let m = requestsOf k es in
        replicate (min (left st k - 1) m) True @ replicate (m - (left st k - 1)) False)"
      using Cons.IH [of st'] Cons.prems by (simp add: e)
    with st' c True show ?thesis
      by (cases "left st k") (simp_all add: e Let_def min_def requestsOf_def)
  next
    case False
    have "open_at st k now" using Cons.prems by (simp add: e)
    with False c Cons.prems have "left st' k = left st k \<and> open_at st' k = open_at st k \<and> roomy st' (length es)"
      using other_request [of k' k st now "length es" now "(b, rest)" st'] by simp
    with Cons.IH [of st'] Cons.prems False c show ?thesis by (simp add: e requestsOf_def)
  qed
qed (simp add: requestsOf_def)

end

section \<open>Both modes keep it\<close>

definition localLeft :: "rateLimiter \<Rightarrow> string \<Rightarrow> nat" where
  "localLeft rl k = (case map_of (visitors rl) k of None \<Rightarrow> 0 | Some v \<Rightarrow> nat (tokens v))"

definition localOpen :: "rateLimiter \<Rightarrow> string \<Rightarrow> time \<Rightarrow> bool" where
  "localOpen rl k t \<longleftrightarrow> (case map_of (visitors rl) k of None \<Rightarrow> False | Some v \<Rightarrow> t - lastReset v \<le> window rl)"

definition localRoomy :: "rateLimiter \<Rightarrow> nat \<Rightarrow> bool" where
  "localRoomy rl n \<longleftrightarrow> length (visitors rl) + n \<le> realtimeMaxVisitors"

lemma length_update: "length (AList.update k v al) \<le> Suc (length al)"
  by (induction al) auto

lemma length_update_Some: "map_of al k = Some x \<Longrightarrow> length (AList.update k v al) = length al"
  by (induction al) (auto split: if_splits)

lemma checkLocal_own:
  assumes "localOpen rl k now" "localRoomy rl (Suc n)" "checkLocal rl now k = ((b, rest), rl')"
  shows "b = (0 < localLeft rl k) \<and> localLeft rl' k = localLeft rl k - 1
     \<and> localOpen rl' k = localOpen rl k \<and> localRoomy rl' n"
proof -
  obtain v where v: "map_of (visitors rl) k = Some v" "\<not> now - lastReset v > window rl"
    using assms(1) by (auto simp: localOpen_def split: option.splits)
  show ?thesis
  proof (cases "tokens v \<le> 0")
    case True
    with v assms(3) have "b = False" "rl' = rl\<lparr>visitors := AList.update k (v\<lparr>denied := True\<rparr>) (visitors rl)\<rparr>"
      by (auto simp: checkLocal_def Let_def)
    with v True assms(2) length_update_Some [OF v(1)] show ?thesis
      by (auto simp: localLeft_def localOpen_def localRoomy_def fun_eq_iff update_conv')
  next
    case False
    with v assms(3) have "b = True" "rl' = rl\<lparr>visitors := AList.update k (v\<lparr>tokens := tokens v - 1\<rparr>) (visitors rl)\<rparr>"
      by (auto simp: checkLocal_def Let_def)
    with v False assms(2) length_update_Some [OF v(1)] show ?thesis
      by (auto simp: localLeft_def localOpen_def localRoomy_def fun_eq_iff update_conv')
  qed
qed

lemma checkLocal_other:
  assumes "k' \<noteq> k" "localRoomy rl (Suc n)" "checkLocal rl now k' = (c, rl')"
  shows "localLeft rl' k = localLeft rl k \<and> localOpen rl' k = localOpen rl k \<and> localRoomy rl' n"
proof -
  have room: "\<not> realtimeMaxVisitors \<le> length (visitors rl)" using assms(2) by (simp add: localRoomy_def)
  obtain v where "rl' = rl\<lparr>visitors := AList.update k' v (visitors rl)\<rparr>"
    using assms(3) room by (auto simp: checkLocal_def Let_def split: option.splits if_splits)
  with assms(1,2) length_update [of k' v "visitors rl"] show ?thesis
    by (auto simp: localLeft_def localOpen_def localRoomy_def fun_eq_iff update_conv' cong: option.case_cong)
qed

interpretation local_window: fixed_window checkLocal localLeft localOpen localRoomy
  by unfold_locales (use checkLocal_own checkLocal_other in blast)+

definition sharedLeft :: "sharedLimiter \<Rightarrow> string \<Rightarrow> nat" where
  "sharedLeft rl k = (case map_of (rows rl) k of None \<Rightarrow> 0 | Some r \<Rightarrow> nat (s_rate rl - rl_count r))"

definition sharedOpen :: "sharedLimiter \<Rightarrow> string \<Rightarrow> time \<Rightarrow> bool" where
  "sharedOpen rl k t \<longleftrightarrow> (case map_of (rows rl) k of None \<Rightarrow> False | Some r \<Rightarrow> t - window_start r \<le> windowSec rl)"

lemma checkShared_own:
  assumes "sharedOpen rl k now" "checkShared False False rl now k = ((b, rest), rl')"
  shows "b = (0 < sharedLeft rl k) \<and> sharedLeft rl' k = sharedLeft rl k - 1 \<and> sharedOpen rl' k = sharedOpen rl k"
proof -
  obtain r where r: "map_of (rows rl) k = Some r" "\<not> now - window_start r > windowSec rl"
    using assms(1) by (auto simp: sharedOpen_def split: option.splits)
  then have up: "upsert rl now k = rl\<lparr>rows := AList.update k (r\<lparr>rl_count := rl_count r + 1\<rparr>) (rows rl)\<rparr>"
    by (auto simp: upsert_def Let_def)
  with assms(2) have "b = (rl_count r + 1 \<le> s_rate rl)" "rl' = upsert rl now k"
    by (auto simp: checkShared_def Let_def update_conv' split: if_splits)
  with up r show ?thesis
    by (auto simp: sharedLeft_def sharedOpen_def fun_eq_iff update_conv')
qed

lemma checkShared_other:
  assumes "k' \<noteq> k" "checkShared False False rl now k' = (c, rl')"
  shows "sharedLeft rl' k = sharedLeft rl k \<and> sharedOpen rl' k = sharedOpen rl k"
proof -
  have "rl' = upsert rl now k'"
    using assms(2) by (auto simp: checkShared_def Let_def split: option.splits if_splits)
  with assms(1) show ?thesis
    by (auto simp: sharedLeft_def sharedOpen_def upsert_def Let_def fun_eq_iff update_conv' cong: option.case_cong)
qed

interpretation shared_window: fixed_window "checkShared False False" sharedLeft sharedOpen "\<lambda>_ _. True"
  by unfold_locales (use checkShared_own checkShared_other in blast)+

section \<open>The size of the map\<close>

inductive limiter_reach :: "int \<Rightarrow> time \<Rightarrow> rateLimiter \<Rightarrow> bool" for r w where
  start: "limiter_reach r w (newRateLimiter r w)"
| check: "limiter_reach r w rl \<Longrightarrow> checkLocal rl now key = (c, rl') \<Longrightarrow> limiter_reach r w rl'"
| tick: "limiter_reach r w rl \<Longrightarrow> limiter_reach r w (cleanup now rl)"

definition limiterOk :: "rateLimiter \<Rightarrow> bool" where
  "limiterOk rl \<longleftrightarrow> distinct (map fst (visitors rl)) \<and> length (visitors rl) \<le> realtimeMaxVisitors"

lemma distinct_keys_filter: "distinct (map fst xs) \<Longrightarrow> distinct (map fst (filter P xs))"
  by (induction xs) auto

lemma evict_ok:
  assumes "distinct (map fst (visitors rl))"
  shows "distinct (map fst (visitors (evictStalestLocked now rl)))"
    and "visitors rl \<noteq> [] \<Longrightarrow> length (visitors (evictStalestLocked now rl)) < length (visitors rl)"
proof -
  let ?fresh = "filter (\<lambda>(k, v). \<not> lastReset v < now - window rl) (visitors rl)"
  have "distinct (map fst ?fresh)" using assms by (rule distinct_keys_filter)
  then show "distinct (map fst (visitors (evictStalestLocked now rl)))"
    by (simp add: evictStalestLocked_def Let_def flip: drop_map) 
  assume "visitors rl \<noteq> []"
  then have "0 < length (visitors rl)" by simp
  moreover have "length ?fresh \<le> length (visitors rl)" by simp
  moreover have arith: "n - (m div 10 + 1 - (m - n)) < m" if "n \<le> m" "0 < m" for n m :: nat
    using that by arith
  moreover have "length (visitors (evictStalestLocked now rl)) =
      length ?fresh - (length (visitors rl) div 10 + 1 - (length (visitors rl) - length ?fresh))"
    by (simp add: evictStalestLocked_def Let_def)
  ultimately show "length (visitors (evictStalestLocked now rl)) < length (visitors rl)"
    by presburger
qed

lemma checkLocal_ok:
  assumes "limiterOk rl" and "checkLocal rl now key = (c, rl')"
  shows "limiterOk rl'"
proof (cases "map_of (visitors rl) key")
  case (Some v)
  then obtain x where "rl' = rl\<lparr>visitors := AList.update key x (visitors rl)\<rparr>"
    using assms(2) by (auto simp: checkLocal_def Let_def split: if_splits)
  with assms(1) length_update_Some [OF Some] show ?thesis
    by (simp add: limiterOk_def distinct_update)
next
  case None
  let ?e = "if realtimeMaxVisitors \<le> length (visitors rl) then evictStalestLocked now rl else rl"
  have "rl' = ?e\<lparr>visitors := AList.update key \<lparr>tokens = rate rl - 1, lastReset = now, denied = False\<rparr> (visitors ?e)\<rparr>"
    using assms(2) None unfolding checkLocal_def Let_def by (simp split: if_splits)
  moreover have "distinct (map fst (visitors ?e))" "length (visitors ?e) < realtimeMaxVisitors"
    using assms(1) evict_ok(1) [of rl now] evict_ok(2) [of rl now]
    by (auto simp: limiterOk_def) (cases "visitors rl = []"; simp add: realtimeMaxVisitors_def)
  ultimately obtain e x where "rl' = e\<lparr>visitors := AList.update key x (visitors e)\<rparr>"
    "distinct (map fst (visitors e))" "length (visitors e) < realtimeMaxVisitors" by blast
  then show ?thesis
    using length_update [of key x "visitors e"] by (simp add: limiterOk_def distinct_update)
qed

lemma limiter_reach_ok: "limiter_reach r w rl \<Longrightarrow> limiterOk rl"
proof (induction rule: limiter_reach.induct)
  case start
  show ?case by (simp add: limiterOk_def newRateLimiter_def)
next
  case (check rl now key c rl')
  then show ?case by (blast intro: checkLocal_ok)
next
  case (tick rl now)
  have "distinct (map fst (filter P (visitors rl)))" for P
    by (rule distinct_keys_filter) (use tick.IH in \<open>simp add: limiterOk_def\<close>)
  moreover have "length (filter P (visitors rl)) \<le> realtimeMaxVisitors" for P
    using tick.IH length_filter_le [of P "visitors rl"] unfolding limiterOk_def by linarith
  ultimately show ?case by (simp add: limiterOk_def cleanup_def)
qed

text \<open>Rounding up to whole seconds exceeds the time unless it is a whole number of seconds.\<close>

lemma retry_seconds:
  assumes "0 \<le> d"
  shows "d < setRetryAfter d * nanosPerSecond \<longleftrightarrow> \<not> (0 < d \<and> nanosPerSecond dvd d)"
proof -
  let ?N = nanosPerSecond
  let ?q = "- ((- d) div ?N)" and ?r = "(- d) mod ?N"
  have N: "0 < ?N" by (simp add: nanosPerSecond_def)
  have "- d = ?N * ((- d) div ?N) + ?r" by simp
  then have d: "d = ?q * ?N - ?r" by (metis add.inverse_inverse minus_add_distrib minus_mult_left mult.commute uminus_add_conv_diff diff_conv_add_uminus)
  have r: "0 \<le> ?r" "?r < ?N" using N by simp_all
  have dvd: "?N dvd d \<longleftrightarrow> ?r = 0" by (metis dvd_eq_mod_eq_0 dvd_minus_iff)
  show ?thesis
  proof (cases "?q < 1")
    case True
    with d r assms N have "d = 0"
      by (smt (verit) mult_nonpos_nonneg)
    with N show ?thesis by (simp add: setRetryAfter_def Let_def)
  next
    case False
    then have "setRetryAfter d = ?q" by (simp add: setRetryAfter_def Let_def)
    moreover have "d < ?q * ?N \<longleftrightarrow> ?r \<noteq> 0" using d r by linarith
    moreover have "0 < d \<or> ?r \<noteq> 0"
    proof (rule ccontr)
      assume "\<not> (0 < d \<or> ?r \<noteq> 0)"
      with d have "?q * ?N \<le> 0" by simp
      moreover have "0 < ?q * ?N" using False N by (intro mult_pos_pos) simp_all
      ultimately show False by simp
    qed
    ultimately show ?thesis using dvd by auto
  qed
qed

section \<open>Properties\<close>

text \<open>However requests and cleanups interleave, and whatever the order the map is iterated
  in, the in-memory limiter never holds more than \<open>realtimeMaxVisitors\<close> visitors, one per
  key: a flood of distinct keys cannot grow it.\<close>

theorem visitor_map_bounded:
  "limiter_reach r w rl \<Longrightarrow>
   length (visitors rl) \<le> realtimeMaxVisitors \<and> distinct (map fst (visitors rl))"
  using limiter_reach_ok by (auto simp: limiterOk_def)

theorem visitor_map_bounded_witness:
  "length (visitors (cleanup 5 (newRateLimiter 1 60))) \<le> realtimeMaxVisitors"
  using visitor_map_bounded [OF limiter_reach.tick [OF limiter_reach.start [of 1 60], of 5]] by simp

text \<open>A window's budget is exact: in the window a new key opens, its first \<open>rate\<close> requests
  are allowed and all the others refused, however the requests of other keys fall between
  them, while the map has room for them.\<close>

theorem local_window_budget:
  assumes "map_of (visitors rl) k = None" and "1 \<le> rate rl"
    and "length (visitors rl) + length es < realtimeMaxVisitors"
    and "\<forall>(t, k') \<in> set es. t - t0 \<le> window rl"
  shows "answersTo checkLocal k rl ((t0, k) # es) =
     (let m = Suc (requestsOf k es); n = nat (rate rl) in
      replicate (min n m) True @ replicate (m - n) False)"
proof -
  let ?v = "\<lparr>tokens = rate rl - 1, lastReset = t0, denied = False\<rparr>"
  let ?rl = "rl\<lparr>visitors := AList.update k ?v (visitors rl)\<rparr>"
  have "checkLocal rl t0 k = ((True, 0, False), ?rl)"
    using assms(1,3) by (simp add: checkLocal_def Let_def)
  then have "answersTo checkLocal k rl ((t0, k) # es) = True # answersTo checkLocal k ?rl es" by simp
  also have "answersTo checkLocal k ?rl es = (let m = requestsOf k es in
      replicate (min (localLeft ?rl k) m) True @ replicate (m - localLeft ?rl k) False)"
  proof (rule local_window.budget_exact)
    show "\<forall>(t, k') \<in> set es. localOpen ?rl k t"
      using assms(4) by (auto simp: localOpen_def update_conv')
    show "localRoomy ?rl (length es)"
      using assms(3) length_update [of k ?v "visitors rl"] by (simp add: localRoomy_def)
  qed
  also have "localLeft ?rl k = nat (rate rl) - 1"
    by (simp add: localLeft_def update_conv')
  finally show ?thesis
    using assms(2) by (cases "nat (rate rl)") (auto simp: Let_def)
qed

theorem local_window_budget_witness:
  "answersTo checkLocal ''a'' (newRateLimiter 2 60) [(0, ''a''), (1, ''b''), (2, ''a''), (3, ''a'')]
   = [True, True, False]"
  using local_window_budget [of "newRateLimiter 2 60" "''a''" "[(1, ''b''), (2, ''a''), (3, ''a'')]" 0]
  by (simp add: newRateLimiter_def realtimeMaxVisitors_def requestsOf_def numeral_2_eq_2)

text \<open>The shared limiter gives the same exact budget: in the window a new key's row opens, the
  first \<open>rate\<close> requests are allowed and the others refused, as long as the database answers.\<close>

theorem shared_window_budget:
  assumes "map_of (rows rl) k = None" and "1 \<le> s_rate rl"
    and "\<forall>(t, k') \<in> set es. t - t0 \<le> windowSec rl"
  shows "answersTo (checkShared False False) k rl ((t0, k) # es) =
     (let m = Suc (requestsOf k es); n = nat (s_rate rl) in
      replicate (min n m) True @ replicate (m - n) False)"
proof -
  let ?rl = "rl\<lparr>rows := AList.update k \<lparr>rl_count = 1, window_start = t0\<rparr> (rows rl)\<rparr>"
  have "checkShared False False rl t0 k = ((True, 0, False), ?rl)"
    using assms(1,2) by (simp add: checkShared_def upsert_def Let_def update_conv')
  then have "answersTo (checkShared False False) k rl ((t0, k) # es)
      = True # answersTo (checkShared False False) k ?rl es" by simp
  also have "answersTo (checkShared False False) k ?rl es = (let m = requestsOf k es in
      replicate (min (sharedLeft ?rl k) m) True @ replicate (m - sharedLeft ?rl k) False)"
    by (rule shared_window.budget_exact) (use assms(3) in \<open>auto simp: sharedOpen_def update_conv'\<close>)
  also have "sharedLeft ?rl k = nat (s_rate rl) - 1"
    by (simp add: sharedLeft_def update_conv')
  finally show ?thesis
    using assms(2) by (cases "nat (s_rate rl)") (auto simp: Let_def)
qed

theorem shared_window_budget_witness:
  "answersTo (checkShared False False) ''a'' \<lparr>rows = [], s_rate = 1, windowSec = 60\<rparr> [(0, ''a''), (60, ''a'')]
   = [True, False]"
  using shared_window_budget [of "\<lparr>rows = [], s_rate = 1, windowSec = 60\<rparr>" "''a''" "[(60, ''a'')]" 0]
  by (simp add: requestsOf_def)

text \<open>Waiting exactly the seconds a refusal's \<open>Retry-After\<close> header names leads to a fresh
  window, except when the time left was a whole number of seconds: the window expires strictly
  after its length, so the client is then refused once more.\<close>

theorem retry_after_boundary:
  assumes "checkLocal rl now key = ((False, d, first), rl')"
  shows "fst (fst (checkLocal rl' (now + setRetryAfter d * nanosPerSecond) key))
     \<longleftrightarrow> \<not> (0 < d \<and> nanosPerSecond dvd d)"
proof -
  obtain v where v: "map_of (visitors rl) key = Some v" "now - lastReset v \<le> window rl" "tokens v \<le> 0"
    "d = window rl - (now - lastReset v)" "rl' = rl\<lparr>visitors := AList.update key (v\<lparr>denied := True\<rparr>) (visitors rl)\<rparr>"
    using assms by (auto simp: checkLocal_def Let_def split: option.splits if_splits)
  let ?t = "now + setRetryAfter d * nanosPerSecond"
  have again: "fst (fst (checkLocal rl' ?t key)) \<longleftrightarrow> ?t - lastReset v > window rl"
    using v by (simp add: checkLocal_def Let_def update_conv')
  have "0 \<le> d" using v(2,4) by simp
  then have "d < setRetryAfter d * nanosPerSecond \<longleftrightarrow> \<not> (0 < d \<and> nanosPerSecond dvd d)"
    by (rule retry_seconds)
  with again v(4) show ?thesis by auto
qed

theorem retry_after_boundary_witness:
  "\<not> fst (fst (checkLocal
      \<lparr>visitors = [(''a'', \<lparr>tokens = 0, lastReset = 0, denied = True\<rparr>)], rate = 1, window = 60000000000\<rparr>
      60000000000 ''a''))"
  using retry_after_boundary [of
      "\<lparr>visitors = [(''a'', \<lparr>tokens = 0, lastReset = 0, denied = False\<rparr>)], rate = 1, window = 60000000000\<rparr>"
      0 "''a''" 60000000000 True]
  by (simp add: checkLocal_def Let_def setRetryAfter_def nanosPerSecond_def)

end
