(* ===== verification/Circuit_Breaker.thy ===== *)
theory Circuit_Breaker
  imports Go_Base
begin

text \<open>
  The circuit breaker for outgoing calls (\<^verbatim>\<open>circuitbreaker.go\<close>): the state machine of one host's
  circuit, the step relation of the breaker over all hosts, and the keys circuits are stored
  under. Times are integers in nanoseconds.
\<close>

datatype cbState = cbStateClosed | cbStateOpen | cbStateHalfOpen

record circuit =
  cb_state :: cbState
  failures :: nat
  lastFailure :: int
  lastAttempt :: int

type_synonym breaker = "string \<rightharpoonup> circuit"

definition second :: int where
  "second = 1000000000"

definition cbFailureThreshold :: nat where
  "cbFailureThreshold = 5"

definition cbCooldown :: int where
  "cbCooldown = 60 * second"

text \<open>The error of a refused call: the circuit's failures and the cooldown left, or a probe in
  progress.\<close>

datatype cbError = CircuitOpen nat int | ProbeInProgress

definition CheckCircuit :: "int \<Rightarrow> string \<Rightarrow> breaker \<Rightarrow> cbError option \<times> breaker" where
  "CheckCircuit now host br =
     (case br host of
        None \<Rightarrow> (None, br)
      | Some c \<Rightarrow>
          (case cb_state c of
             cbStateClosed \<Rightarrow> (None, br)
           | cbStateOpen \<Rightarrow>
               if now - lastFailure c > cbCooldown
               then (None, br(host \<mapsto> c\<lparr>cb_state := cbStateHalfOpen, lastAttempt := now\<rparr>))
               else (Some (CircuitOpen (failures c) (cbCooldown - (now - lastFailure c))), br)
           | cbStateHalfOpen \<Rightarrow>
               if now - lastAttempt c < 5 * second then (Some ProbeInProgress, br)
               else (None, br(host \<mapsto> c\<lparr>lastAttempt := now\<rparr>))))"

definition RecordSuccess :: "string \<Rightarrow> breaker \<Rightarrow> breaker" where
  "RecordSuccess host br =
     (case br host of
        None \<Rightarrow> br
      | Some c \<Rightarrow> br(host \<mapsto> c\<lparr>cb_state := cbStateClosed, failures := 0\<rparr>))"

definition RecordFailure :: "int \<Rightarrow> string \<Rightarrow> breaker \<Rightarrow> breaker" where
  "RecordFailure now host br =
     (let c = (case br host of
           Some c \<Rightarrow> c
         | None \<Rightarrow> \<lparr>cb_state = cbStateClosed, failures = 0, lastFailure = 0, lastAttempt = 0\<rparr>);
          c = c\<lparr>failures := failures c + 1, lastFailure := now\<rparr>
      in if cb_state c = cbStateHalfOpen then br(host \<mapsto> c\<lparr>cb_state := cbStateOpen\<rparr>)
         else if cbFailureThreshold \<le> failures c \<and> cb_state c = cbStateClosed
         then br(host \<mapsto> c\<lparr>cb_state := cbStateOpen\<rparr>)
         else br(host \<mapsto> c))"

section \<open>The step relation\<close>

text \<open>The calls the rest of the program makes, with the clock, and what each answers.\<close>

datatype cbEvent = Check int string | Success string | Failure int string

fun eventHost :: "cbEvent \<Rightarrow> string" where
  "eventHost (Check now h) = h"
| "eventHost (Success h) = h"
| "eventHost (Failure now h) = h"

inductive cb_step :: "breaker \<Rightarrow> cbEvent \<Rightarrow> cbError option \<Rightarrow> breaker \<Rightarrow> bool" where
  check: "CheckCircuit now h br = (answer, br') \<Longrightarrow> cb_step br (Check now h) answer br'"
| success: "cb_step br (Success h) None (RecordSuccess h br)"
| failure: "cb_step br (Failure now h) None (RecordFailure now h br)"

inductive_cases check_stepE: "cb_step br (Check now h) answer br'"
inductive_simps success_step: "cb_step br (Success h) answer br'"
inductive_simps failure_step: "cb_step br (Failure now h) answer br'"

inductive cb_run :: "breaker \<Rightarrow> (cbEvent \<times> cbError option) list \<Rightarrow> breaker \<Rightarrow> bool" where
  stop: "cb_run br [] br"
| more: "cb_step br e a br1 \<Longrightarrow> cb_run br1 es br2 \<Longrightarrow> cb_run br ((e, a) # es) br2"

inductive_cases run_ConsE: "cb_run br (x # es) br'"

definition circuitOk :: "circuit \<Rightarrow> bool" where
  "circuitOk c \<longleftrightarrow> (if cb_state c = cbStateClosed then failures c < cbFailureThreshold
     else cbFailureThreshold \<le> failures c)"

definition breakerOk :: "breaker \<Rightarrow> bool" where
  "breakerOk br \<longleftrightarrow> (\<forall>h c. br h = Some c \<longrightarrow> circuitOk c)"

lemma breakerOk_get: "breakerOk br \<Longrightarrow> br h = Some c \<Longrightarrow> circuitOk c"
  and breakerOk_upd: "breakerOk br \<Longrightarrow> circuitOk c \<Longrightarrow> breakerOk (br(h \<mapsto> c))"
  by (auto simp: breakerOk_def)

lemma CheckCircuit_ok:
  assumes "CheckCircuit now h br = (a, br')" and ok: "breakerOk br"
  shows "breakerOk br'"
proof (cases "br h")
  case (Some c)
  from breakerOk_get [OF ok Some] have "circuitOk c" .
  then have "cb_state c \<noteq> cbStateClosed \<Longrightarrow> circuitOk (c\<lparr>cb_state := cbStateHalfOpen, lastAttempt := now\<rparr>)"
    and "circuitOk (c\<lparr>lastAttempt := now\<rparr>)"
    by (simp_all add: circuitOk_def)
  with assms Some show ?thesis
    by (cases "cb_state c") (auto simp: CheckCircuit_def breakerOk_upd split: if_splits)
qed (use assms in \<open>simp add: CheckCircuit_def\<close>)

lemma RecordSuccess_ok: "breakerOk br \<Longrightarrow> breakerOk (RecordSuccess h br)"
  by (auto simp: RecordSuccess_def circuitOk_def cbFailureThreshold_def intro!: breakerOk_upd split: option.split)

lemma RecordFailure_ok:
  assumes ok: "breakerOk br"
  shows "breakerOk (RecordFailure now h br)"
proof -
  let ?c0 = "\<lparr>cb_state = cbStateClosed, failures = 0, lastFailure = 0, lastAttempt = 0\<rparr>"
  have "circuitOk (case br h of Some c \<Rightarrow> c | None \<Rightarrow> ?c0)"
    using breakerOk_get [OF ok, of h] by (cases "br h") (simp_all add: circuitOk_def cbFailureThreshold_def)
  then obtain c where c: "circuitOk c" "(case br h of Some c \<Rightarrow> c | None \<Rightarrow> ?c0) = c" by blast
  let ?c = "c\<lparr>failures := failures c + 1, lastFailure := now\<rparr>"
  have "cb_state c = cbStateHalfOpen \<Longrightarrow> circuitOk (?c\<lparr>cb_state := cbStateOpen\<rparr>)"
    and "cbFailureThreshold \<le> failures ?c \<Longrightarrow> circuitOk (?c\<lparr>cb_state := cbStateOpen\<rparr>)"
    and "\<not> (cbFailureThreshold \<le> failures ?c \<and> cb_state ?c = cbStateClosed) \<Longrightarrow> circuitOk ?c"
    using c(1) by (auto simp: circuitOk_def split: if_splits)
  with ok show ?thesis
    unfolding RecordFailure_def Let_def c(2) by (auto intro: breakerOk_upd)
qed

lemma cb_step_ok: "cb_step br e a br' \<Longrightarrow> breakerOk br \<Longrightarrow> breakerOk br'"
  by (induction rule: cb_step.induct) (auto intro: CheckCircuit_ok RecordSuccess_ok RecordFailure_ok)

lemma cb_run_ok: "cb_run br es br' \<Longrightarrow> breakerOk br \<Longrightarrow> breakerOk br'"
  by (induction rule: cb_run.induct) (auto intro: cb_step_ok)

text \<open>A step of one host leaves the others alone.\<close>

lemma cb_step_other: "cb_step br e a br' \<Longrightarrow> h \<noteq> eventHost e \<Longrightarrow> br' h = br h"
  by (induction rule: cb_step.induct)
    (auto simp: CheckCircuit_def RecordSuccess_def RecordFailure_def Let_def
      split: option.splits cbState.splits if_splits)

section \<open>Keys\<close>

text \<open>\<open>hostOf\<close> is the host of \<open>net/url\<close>'s parse, if it parses.\<close>

definition extractHost :: "(string \<Rightarrow> string option) \<Rightarrow> string \<Rightarrow> string" where
  "extractHost hostOf rawURL =
     (case hostOf rawURL of
        Some h \<Rightarrow> if h \<noteq> [] then to_lower h else
          (let rest = (case cut_str ''://'' rawURL of Some (_, r) \<Rightarrow> r | None \<Rightarrow> rawURL);
               rest = takeWhile (\<lambda>c. c \<notin> {CHR ''/'', CHR ''?'', CHR ''#''}) rest
           in to_lower (rev (takeWhile (\<lambda>c. c \<noteq> CHR ''@'') (rev rest))))
      | None \<Rightarrow>
          (let rest = (case cut_str ''://'' rawURL of Some (_, r) \<Rightarrow> r | None \<Rightarrow> rawURL);
               rest = takeWhile (\<lambda>c. c \<notin> {CHR ''/'', CHR ''?'', CHR ''#''}) rest
           in to_lower (rev (takeWhile (\<lambda>c. c \<noteq> CHR ''@'') (rev rest)))))"

text \<open>\<open>app\<close> is the id of the calling app, \<^term>\<open>None\<close> for no app or one without a directory.\<close>

definition circuitKey :: "(string \<Rightarrow> string option) \<Rightarrow> string option \<Rightarrow> string \<Rightarrow> string" where
  "circuitKey hostOf app rawURL =
     (case app of
        None \<Rightarrow> extractHost hostOf rawURL
      | Some appID \<Rightarrow> appID @ ''|'' @ extractHost hostOf rawURL)"

definition circuitHost :: "string \<Rightarrow> string" where
  "circuitHost key = rev (takeWhile (\<lambda>c. c \<noteq> CHR ''|'') (rev key))"

definition statsShows :: "string option \<Rightarrow> string \<Rightarrow> bool" where
  "statsShows app key =
     (let pre = (case app of None \<Rightarrow> [] | Some appID \<Rightarrow> appID @ ''|'') in
      \<not> (\<not> prefix pre key \<or> (pre = [] \<and> contains ''|'' key)))"

definition CircuitBreakerStats :: "string option \<Rightarrow> string list \<Rightarrow> breaker \<Rightarrow> (string \<times> circuit option) list" where
  "CircuitBreakerStats app keys br =
     map (\<lambda>key. (circuitHost key, br key)) (filter (statsShows app) keys)"

lemma takeWhile_rev_last: "rev (takeWhile (\<lambda>c. c \<noteq> d) (rev (a @ d # b))) = b" if "d \<notin> set b"
proof -
  have "takeWhile (\<lambda>c. c \<noteq> d) (rev b @ d # rev a) = rev b"
    using that by (subst takeWhile_append2) auto
  then show ?thesis by simp
qed

lemma sep_prefix:
  assumes "CHR ''|'' \<notin> set a" "CHR ''|'' \<notin> set b"
  shows "prefix (a @ ''|'') (b @ CHR ''|'' # h) \<longleftrightarrow> a = b"
proof
  assume "prefix (a @ ''|'') (b @ CHR ''|'' # h)"
  then obtain k where "a @ CHR ''|'' # k = b @ CHR ''|'' # h" by (auto simp: prefix_def)
  then have "cut_at CHR ''|'' (a @ CHR ''|'' # k) = cut_at CHR ''|'' (b @ CHR ''|'' # h)" by simp
  moreover have "cut_at CHR ''|'' (a @ CHR ''|'' # k) = Some (a, k)" "cut_at CHR ''|'' (b @ CHR ''|'' # h) = Some (b, h)"
    using assms by (simp_all add: cut_at_Some)
  ultimately show "a = b" by simp
qed (simp add: prefix_def)

lemma contains_bar: "contains ''|'' s \<longleftrightarrow> CHR ''|'' \<in> set s"
  by (induction s) auto

lemma case_map_special:
  assumes "\<And>c. f c = d \<Longrightarrow> c = d" and "\<forall>(p, e) \<in> set sp. e \<noteq> d"
  shows "d \<in> set (case_map sp f s) \<Longrightarrow> d \<in> set s"
proof (induction "length s" arbitrary: s rule: less_induct)
  case less
  show ?case
  proof (cases s)
    case (Cons c r)
    show ?thesis
    proof (cases "find (\<lambda>(p, _). prefix p (c # r)) sp")
      case None
      with less.prems Cons have "f c = d \<or> d \<in> set (case_map sp f r)" by auto
      with assms(1) [of c] less.hyps [of r] show ?thesis by (auto simp: Cons)
    next
      case (Some x)
      obtain p e where x: "x = (p, e)" by (cases x)
      have "(p, e) \<in> set sp" using Some x by (metis find_Some_iff nth_mem)
      with assms(2) have "d \<noteq> e" by auto
      with Some x less.prems Cons have "d \<in> set (case_map sp f (drop (length p - 1) r))" by auto
      with less.hyps [of "drop (length p - 1) r"] have "d \<in> set (drop (length p - 1) r)" by (simp add: Cons)
      then show ?thesis using set_drop_subset [of "length p - 1" r] by (auto simp: Cons)
    qed
  qed (use less.prems in simp)
qed

lemma to_lower_special:
  assumes "\<not> is_letter d" and "d \<in> set (to_lower s)"
  shows "d \<in> set s"
proof (rule case_map_special [OF _ _ assms(2) [unfolded to_lower_def]])
  show "lowc c = d \<Longrightarrow> c = d" for c
    using assms(1) by (auto simp: byte_eq_iff [symmetric] byte_lowc is_letter_def is_lower_def is_upper_def
        split: if_splits)
  show "\<forall>(p, e) \<in> set [([CHR 0xC4, CHR 0xB0], CHR ''i''), ([CHR 0xE2, CHR 0x84, CHR 0xAA], CHR ''k'')]. e \<noteq> d"
    using assms(1) by (auto simp: is_letter_def is_lower_def byte_def)
qed

lemma url_specials: "d \<in> {CHR ''@'', CHR ''/'', CHR ''?'', CHR ''#''} \<Longrightarrow> \<not> is_letter d"
  by (elim insertE emptyE) (simp_all add: is_letter_def is_lower_def is_upper_def byte_def)

lemma to_lower_specials:
  assumes "\<forall>c \<in> set s. c \<notin> {CHR ''@'', CHR ''/'', CHR ''?'', CHR ''#''}"
  shows "set (to_lower s) \<inter> {CHR ''@'', CHR ''/'', CHR ''?'', CHR ''#''} = {}"
proof -
  have "d \<notin> set (to_lower s)" if "d \<in> {CHR ''@'', CHR ''/'', CHR ''?'', CHR ''#''}" for d
    using to_lower_special [OF url_specials [OF that]] assms that by blast
  then show ?thesis by blast
qed

section \<open>Runs\<close>

lemma open_run_refuses:
  assumes "cb_run br es br'"
    and "br h = Some c" and "cb_state c = cbStateOpen" and "T \<le> lastFailure c"
    and "Success h \<notin> fst ` set es"
    and "\<forall>t. Check t h \<in> fst ` set es \<longrightarrow> t - T \<le> cbCooldown"
    and "\<forall>t. Failure t h \<in> fst ` set es \<longrightarrow> T \<le> t"
  shows "(Check t h, None) \<notin> set es"
  using assms
proof (induction arbitrary: c rule: cb_run.induct)
  case (more br e a br1 es br2)
  have rest: "Success h \<notin> fst ` set es" "\<forall>t. Check t h \<in> fst ` set es \<longrightarrow> t - T \<le> cbCooldown"
    "\<forall>t. Failure t h \<in> fst ` set es \<longrightarrow> T \<le> t"
    using more.prems(4-6) by auto
  have "\<exists>c'. br1 h = Some c' \<and> cb_state c' = cbStateOpen \<and> T \<le> lastFailure c' \<and> (Check t h, None) \<noteq> (e, a)"
  proof (cases "eventHost e = h")
    case False
    then show ?thesis using cb_step_other [OF more.hyps(1), of h] more.prems(1-3) by auto
  next
    case True
    from more.hyps(1) show ?thesis
    proof cases
      case (check now h')
      with True more.prems(5) have "now - T \<le> cbCooldown" by auto
      with check True more.prems(1-3) show ?thesis by (auto simp: CheckCircuit_def)
    next
      case (success h')
      with True more.prems(4) show ?thesis by auto
    next
      case (failure now h')
      with True more.prems(6) have "T \<le> now" by auto
      with failure True more.prems(1,2) show ?thesis by (simp add: RecordFailure_def Let_def)
    qed
  qed
  with more.IH [OF _ _ _ rest] show ?case by auto
qed simp

text \<open>When the calls to a host were allowed.\<close>

fun allowedAt :: "string \<Rightarrow> (cbEvent \<times> cbError option) list \<Rightarrow> int list" where
  "allowedAt h [] = []"
| "allowedAt h ((Check t h', None) # es) = (if h' = h then t # allowedAt h es else allowedAt h es)"
| "allowedAt h (_ # es) = allowedAt h es"

lemma half_open_probes:
  assumes "cb_run br es br'"
    and "br h = Some c" and "cb_state c = cbStateHalfOpen"
    and "Success h \<notin> fst ` set es" and "\<forall>t. Failure t h \<notin> fst ` set es"
  shows "sorted_wrt (\<lambda>t t'. t + 5 * second \<le> t') (lastAttempt c # allowedAt h es)"
  using assms
proof (induction arbitrary: c rule: cb_run.induct)
  case (more br e a br1 es br2)
  have rest: "Success h \<notin> fst ` set es" "\<forall>t. Failure t h \<notin> fst ` set es"
    using more.prems(3,4) by auto
  show ?case
  proof (cases "eventHost e = h")
    case False
    then have "br1 h = Some c" using cb_step_other [OF more.hyps(1), of h] more.prems(1) by simp
    moreover have "allowedAt h ((e, a) # es) = allowedAt h es"
      using False by (cases e; cases a) auto
    ultimately show ?thesis using more.IH [of c] more.prems(2) rest by simp
  next
    case True
    from more.hyps(1) show ?thesis
    proof cases
      case (check now h')
      show ?thesis
      proof (cases "now - lastAttempt c < 5 * second")
        case True
        with check \<open>eventHost e = h\<close> more.prems(1,2) have "br1 = br" "a \<noteq> None"
          by (auto simp: CheckCircuit_def)
        moreover from this have "allowedAt h ((e, a) # es) = allowedAt h es" using check by (cases a) auto
        ultimately show ?thesis using more.IH [of c] more.prems(1,2) rest by simp
      next
        case False
        with check True more.prems(1,2) have "a = None" "br1 h = Some (c\<lparr>lastAttempt := now\<rparr>)"
          by (auto simp: CheckCircuit_def)
        with more.IH [of "c\<lparr>lastAttempt := now\<rparr>"] more.prems(2) rest check True
        have "sorted_wrt (\<lambda>t t'. t + 5 * second \<le> t') (now # allowedAt h es)" by simp
        with False check True \<open>a = None\<close> show ?thesis by (auto simp: second_def)
      qed
    qed (use True more.prems(3,4) in auto)
  qed
qed simp

section \<open>Properties\<close>

text \<open>In every run from an empty breaker a circuit is open or half-open exactly when five
  failures in a row are on record: it never blocks a host earlier and never forgets to.\<close>

theorem circuit_states_match_failures:
  assumes "cb_run Map.empty es br" and "br h = Some c"
  shows "cb_state c = cbStateClosed \<longleftrightarrow> failures c < cbFailureThreshold"
proof -
  have "breakerOk br" by (rule cb_run_ok [OF assms(1)]) (simp add: breakerOk_def)
  with assms(2) have "circuitOk c" by (simp add: breakerOk_def)
  then show ?thesis by (cases "cb_state c = cbStateClosed") (simp_all add: circuitOk_def)
qed

theorem circuit_states_match_failures_witness:
  "cb_state \<lparr>cb_state = cbStateClosed, failures = 1, lastFailure = 7, lastAttempt = 0\<rparr> = cbStateClosed
   \<longleftrightarrow> (1::nat) < cbFailureThreshold"
proof -
  let ?c = "\<lparr>cb_state = cbStateClosed, failures = 1, lastFailure = 7, lastAttempt = 0\<rparr>"
  have "cb_run Map.empty [(Failure 7 ''h'', None)] (RecordFailure 7 ''h'' Map.empty)"
    by (rule cb_run.more, rule cb_step.failure, rule cb_run.stop)
  moreover have "RecordFailure 7 ''h'' Map.empty ''h'' = Some ?c"
    by (simp add: RecordFailure_def cbFailureThreshold_def)
  ultimately show ?thesis using circuit_states_match_failures by fastforce
qed

text \<open>An open circuit stays shut for its cooldown: in any run of calls to any hosts in which
  the host has no success, every call to it within the cooldown of its last recorded failure
  is refused, and late failures only prolong the wait.\<close>

theorem open_circuit_refuses:
  assumes "cb_run br es br'"
    and "br h = Some c" and "cb_state c = cbStateOpen"
    and "Success h \<notin> fst ` set es"
    and "\<forall>t. Check t h \<in> fst ` set es \<longrightarrow> t - lastFailure c \<le> cbCooldown"
    and "\<forall>t. Failure t h \<in> fst ` set es \<longrightarrow> lastFailure c \<le> t"
  shows "(Check t h, None) \<notin> set es"
  by (rule open_run_refuses [OF assms(1-3) order_refl assms(4-6)])

theorem open_circuit_refuses_witness:
  "(Check 40 ''h'', None) \<notin> set [(Check 40 ''h'', Some (CircuitOpen 5 (cbCooldown - 30)))]"
proof -
  let ?c = "\<lparr>cb_state = cbStateOpen, failures = 5, lastFailure = 10, lastAttempt = 0\<rparr>"
  have "cb_run [''h'' \<mapsto> ?c] [(Check 40 ''h'', Some (CircuitOpen 5 (cbCooldown - 30)))] [''h'' \<mapsto> ?c]"
    by (rule cb_run.more, rule cb_step.check)
      (simp add: CheckCircuit_def cbCooldown_def second_def, rule cb_run.stop)
  then show ?thesis
    by (rule open_circuit_refuses [where c = ?c]) (auto simp: cbCooldown_def second_def)
qed

text \<open>A half-open circuit lets one probe through at a time: without a recorded result, the
  calls it allows in a run are at least five seconds apart, the one that half-opened it
  included.\<close>

theorem probes_spaced:
  assumes "cb_run br es br'"
    and "br h = Some c" and "cb_state c = cbStateHalfOpen"
    and "Success h \<notin> fst ` set es" and "\<forall>t. Failure t h \<notin> fst ` set es"
  shows "sorted_wrt (\<lambda>t t'. t + 5 * second \<le> t') (lastAttempt c # allowedAt h es)"
  by (rule half_open_probes [OF assms])

theorem probes_spaced_witness:
  "sorted_wrt (\<lambda>t t'. t + 5 * second \<le> t')
     (0 # allowedAt ''h'' [(Check 1 ''h'', Some ProbeInProgress), (Check (6 * second) ''h'', None)])"
proof -
  let ?c = "\<lambda>t. \<lparr>cb_state = cbStateHalfOpen, failures = 5, lastFailure = 0, lastAttempt = t\<rparr>"
  have "cb_run [''h'' \<mapsto> ?c 0] [(Check 1 ''h'', Some ProbeInProgress), (Check (6 * second) ''h'', None)]
      [''h'' \<mapsto> ?c (6 * second)]"
  proof (rule cb_run.more)
    show "cb_step [''h'' \<mapsto> ?c 0] (Check 1 ''h'') (Some ProbeInProgress) [''h'' \<mapsto> ?c 0]"
      by (rule cb_step.check) (simp add: CheckCircuit_def second_def)
    have "cb_step [''h'' \<mapsto> ?c 0] (Check (6 * second) ''h'') None [''h'' \<mapsto> ?c (6 * second)]"
      by (rule cb_step.check) (simp add: CheckCircuit_def second_def)
    then show "cb_run [''h'' \<mapsto> ?c 0] [(Check (6 * second) ''h'', None)] [''h'' \<mapsto> ?c (6 * second)]"
      by (rule cb_run.more) (rule cb_run.stop)
  qed
  from probes_spaced [OF this, of "''h''" "?c 0"] show ?thesis by simp
qed

text \<open>A breaker key never carries a URL's credentials: when the URL does not parse, what is
  left of it as a host has no user information, path, query or fragment in it.\<close>

theorem extractHost_no_credentials:
  "hostOf rawURL = None \<Longrightarrow>
   set (extractHost hostOf rawURL) \<inter> {CHR ''@'', CHR ''/'', CHR ''?'', CHR ''#''} = {}"
proof -
  assume none: "hostOf rawURL = None"
  let ?r = "case cut_str ''://'' rawURL of Some (_, r) \<Rightarrow> r | None \<Rightarrow> rawURL"
  let ?t = "takeWhile (\<lambda>c. c \<notin> {CHR ''/'', CHR ''?'', CHR ''#''}) ?r"
  let ?h = "rev (takeWhile (\<lambda>c. c \<noteq> CHR ''@'') (rev ?t))"
  have "c \<notin> {CHR ''@'', CHR ''/'', CHR ''?'', CHR ''#''}" if "c \<in> set ?h" for c
  proof -
    from that have "c \<in> set (takeWhile (\<lambda>c. c \<noteq> CHR ''@'') (rev ?t))" by simp
    then have "c \<in> set ?t" "c \<noteq> CHR ''@''" by (auto dest: set_takeWhileD)
    then show ?thesis using set_takeWhileD by fastforce
  qed
  then have "set (to_lower ?h) \<inter> {CHR ''@'', CHR ''/'', CHR ''?'', CHR ''#''} = {}"
    using to_lower_specials by blast
  with none show ?thesis by (simp add: extractHost_def Let_def)
qed

theorem extractHost_no_credentials_witness:
  "set (extractHost (\<lambda>_. None) ''u:p@h/x'') \<inter> {CHR ''@'', CHR ''/'', CHR ''?'', CHR ''#''} = {}"
  using extractHost_no_credentials [of "\<lambda>_. None" "''u:p@h/x''"] by simp

text \<open>Tenants do not see each other's circuits: a health report shows the key of an app's call
  exactly when the call was that app's own, for app ids and hosts without the separator.\<close>

theorem stats_show_own_calls:
  assumes "CHR ''|'' \<notin> set (extractHost hostOf rawURL)"
    and "\<forall>a \<in> set_option app \<union> set_option caller. CHR ''|'' \<notin> set a"
  shows "statsShows app (circuitKey hostOf caller rawURL) \<longleftrightarrow> app = caller"
    (is "?shows \<longleftrightarrow> _")
  using assms sep_prefix
  by (cases app; cases caller)
    (auto simp: statsShows_def circuitKey_def Let_def contains_bar prefix_def)

theorem stats_show_own_calls_witness:
  "\<not> statsShows (Some ''a1'') (circuitKey (\<lambda>_. Some ''h'') (Some ''a2'') ''u'')"
proof -
  have "extractHost (\<lambda>_. Some ''h'') ''u'' = ''h''"
    by (simp add: extractHost_def go_eval)
  then show ?thesis
    using stats_show_own_calls [of "\<lambda>_. Some ''h''" "''u''" "Some ''a1''" "Some ''a2''"] by simp
qed

end
