(* ===== verification/Sql_Readonly.thy ===== *)
theory Sql_Readonly
  imports Sql_Spans Sql_Restore
begin

text \<open>
  The gate of read-only queries of \<^verbatim>\<open>mcp_query_readonly.go\<close>: the text check
  (\<open>isReadOnlyQuery\<close>), the engine's authorizer callback (\<open>authorizeReadOnlyQuery\<close>) and the
  columns it masks. The text check and the write gate read a text through different
  functions; the lemmas show that comment stripping leaves the tokens as they are and that
  every word token is a word of the check, so the two gates exclude each other.
\<close>

section \<open>The text check\<close>

definition forbiddenWords :: "string list" where
  [go_eval]: "forbiddenWords = [''DROP'', ''DELETE'', ''UPDATE'', ''INSERT'', ''ALTER'', ''CREATE'', ''TRUNCATE'',
     ''REPLACE'', ''ATTACH'', ''DETACH'', ''PRAGMA'', ''VACUUM'', ''REINDEX'', ''LOAD_EXTENSION'']"

definition isReadOnlyQuery :: "string \<Rightarrow> bool" where
  [go_eval]: "isReadOnlyQuery sql =
     (let cleaned = trim_space (stripSQLComments sql);
          code = trim_suffix (trim_space (stripSQLLiterals cleaned)) '';''
      in if CHR '';'' \<in> set code then False
      else
        let upper = to_upper (trim_space cleaned);
            verbs = fields_by upperWordByte [] (to_upper (trim_space code))
        in if verbs = [] \<or> (hd verbs \<noteq> ''SELECT'' \<and> hd verbs \<noteq> ''WITH'') then False
        else list_all (\<lambda>tok. tok \<notin> set forbiddenWords) (fields_by upperWordByte [] upper))"

section \<open>The authorizer\<close>

text \<open>SQLite's action codes, as far as the callback tells them apart, and its answers.\<close>

datatype sqliteAction =
    SQLITE_READ | SQLITE_SELECT | SQLITE_RECURSIVE | SQLITE_FUNCTION | SQLITE_UPDATE | SQLITE_PRAGMA
  | SQLITE_OTHER nat

datatype sqliteAuth = SQLITE_OK | SQLITE_DENY | SQLITE_IGNORE

text \<open>The regular expression of masked columns matches one of its words between underscores or
  the ends of the name; none of the words holds an underscore, so it matches when a part of
  the name between underscores is one of them, letter case folded.\<close>

definition maskedWords :: "string list" where
  [go_eval]: "maskedWords = [''password'', ''passwd'', ''secret'', ''secrets'', ''token'', ''tokens'', ''hash'', ''otp'',
     ''totp'', ''backup'', ''code'', ''codes'', ''nonce'', ''private'', ''refresh'', ''access'', ''key'', ''keys'',
     ''salt'', ''verifier'', ''challenge'']"

definition readOnlyMaskedColumnRe :: "string \<Rightarrow> bool" where
  [go_eval]: "readOnlyMaskedColumnRe c \<longleftrightarrow>
     list_ex (\<lambda>part. list_ex (equal_fold part) maskedWords) (split_at CHR ''_'' c)"

definition readOnlyQueryMaskedColumn :: "string \<Rightarrow> string \<Rightarrow> bool" where
  [go_eval]: "readOnlyQueryMaskedColumn table column =
     (let t = to_lower table in
      if \<not> prefix ''_benmore_'' t then False
      else
        let c = to_lower column in
        if t = ''_benmore_sessions'' \<and> (c = ''id'' \<or> c = [] \<or> c = ''impersonator_session_id'') then True
        else if t = ''_benmore_broadcasts'' \<and> c = ''publisher_session_id'' then True
        else if t = ''_benmore_idempotency'' \<and> c = ''response'' then True
        else if t = ''_benmore_jobs'' \<and> c = ''payload'' then True
        else readOnlyMaskedColumnRe c)"

fun authorizeReadOnlyQuery :: "sqliteAction \<Rightarrow> string \<Rightarrow> string \<Rightarrow> string \<Rightarrow> sqliteAuth" where
  "authorizeReadOnlyQuery SQLITE_READ arg1 arg2 database =
     (if readOnlyQueryMaskedColumn arg1 arg2 then SQLITE_IGNORE else SQLITE_OK)"
| "authorizeReadOnlyQuery SQLITE_SELECT arg1 arg2 database = SQLITE_OK"
| "authorizeReadOnlyQuery SQLITE_RECURSIVE arg1 arg2 database = SQLITE_OK"
| "authorizeReadOnlyQuery SQLITE_FUNCTION arg1 arg2 database =
     (if \<not> equal_fold arg2 ''load_extension'' then SQLITE_OK else SQLITE_DENY)"
| "authorizeReadOnlyQuery SQLITE_UPDATE arg1 arg2 database =
     (if arg1 = ''sqlite_master'' \<or> arg1 = ''sqlite_temp_master'' then SQLITE_OK else SQLITE_DENY)"
| "authorizeReadOnlyQuery SQLITE_PRAGMA arg1 arg2 database =
     (if equal_fold arg1 ''data_version'' \<and> arg2 = [] then SQLITE_OK else SQLITE_DENY)"
| "authorizeReadOnlyQuery (SQLITE_OTHER n) arg1 arg2 database = SQLITE_DENY"

section \<open>Stripping comments keeps the tokens\<close>

text \<open>A comment byte and a space do the same to the tokenizer: they end what is pending.\<close>

definition tokKey :: "sqlToken \<Rightarrow> sqlTokenKind \<times> string" where
  "tokKey t = (t_kind t, t_text t)"

definition settle :: "tokState \<Rightarrow> tokState" where
  "settle st = flushWord (flushQuoted st)"

definition tok_like :: "tokState \<Rightarrow> tokState \<Rightarrow> bool" where
  "tok_like st st' \<longleftrightarrow> map tokKey (toks st) = map tokKey (toks st') \<and> word st = word st' \<and>
     quotedBuf st = quotedBuf st' \<and> qkind st = qkind st'"

lemma tok_like_refl [simp]: "tok_like st st"
  by (simp add: tok_like_def)

lemma tok_like_trans: "tok_like a b \<Longrightarrow> tok_like b c \<Longrightarrow> tok_like a c"
  by (simp add: tok_like_def)

lemma tok_like_sym: "tok_like a b \<Longrightarrow> tok_like b a"
  by (simp add: tok_like_def)

lemma tok_like_flush:
  "tok_like a b \<Longrightarrow> tok_like (flushWord a) (flushWord b)"
  "tok_like a b \<Longrightarrow> tok_like (flushQuoted a) (flushQuoted b)"
  by (auto simp: tok_like_def flushWord_def flushQuoted_def tokKey_def)

lemma tok_like_settle: "tok_like a b \<Longrightarrow> tok_like (settle a) (settle b)"
  by (simp add: settle_def tok_like_flush)

lemma settle_settle [simp]: "settle (settle st) = settle st"
  by (simp add: settle_def flushWord_def flushQuoted_def)

lemma tok_like_updates:
  "tok_like (st\<lparr>offset := i\<rparr>) st' = tok_like st st'" "tok_like st (st'\<lparr>offset := i\<rparr>) = tok_like st st'"
  "tok_like (st\<lparr>wordStart := i\<rparr>) st' = tok_like st st'" "tok_like st (st'\<lparr>wordStart := i\<rparr>) = tok_like st st'"
  "tok_like (st\<lparr>quoteStart := i\<rparr>) st' = tok_like st st'" "tok_like st (st'\<lparr>quoteStart := i\<rparr>) = tok_like st st'"
  by (simp_all add: tok_like_def)

lemma tok_like_step:
  assumes "tok_like a b"
  shows "tok_like (snd (tokVisit a c k)) (snd (tokVisit b c k))"
proof -
  let ?a = "a\<lparr>offset := Suc (offset a)\<rparr>" and ?b = "b\<lparr>offset := Suc (offset b)\<rparr>"
  have s: "tok_like ?a ?b" using assms by (simp add: tok_like_updates)
  note w = tok_like_flush(1) [OF s] and q = tok_like_flush(2) [OF s]
  note wq = tok_like_flush(2) [OF w] and qw = tok_like_flush(1) [OF q]
  show ?thesis
  proof (cases "quoted k")
    case True
    then show ?thesis using w wq by (auto simp: tokVisit_def Let_def tok_like_def)
  next
    case False
    then show ?thesis using q qw by (auto simp: tokVisit_def Let_def tok_like_def tokKey_def)
  qed
qed

lemma tok_like_run: "tok_like a b \<Longrightarrow> tok_like (tok_run xs a) (tok_run xs b)"
  by (induction xs arbitrary: a b) (auto intro: tok_like_step split: prod.split)

lemma settle_step:
  "comment_kind k \<or> k = SqlCode \<and> plainSpace c \<Longrightarrow> tok_like (snd (tokVisit st c k)) (settle st)"
  by (auto simp: tokVisit_def settle_def flushWord_def flushQuoted_def Let_def tok_like_def
      comment_kind_def plainSpace_def sqlIdentByte_def byte_def is_letter_def is_lower_def is_upper_def
      is_digit_def)


lemma settle_idem: "tok_like st (settle st0) \<Longrightarrow> tok_like st (settle st) \<and> tok_like (settle st) (settle st0)"
  using tok_like_settle [of st "settle st0"] tok_like_trans tok_like_sym by (metis settle_settle)

text \<open>Inside a comment both runs are settled up to what is pending; elsewhere they agree.\<close>

definition strip_sim :: "lex_mode \<Rightarrow> tokState \<Rightarrow> tokState \<Rightarrow> bool" where
  "strip_sim m st st' \<longleftrightarrow> (if comment_mode m
     then tok_like (settle st) (settle st') \<and> tok_like st (settle st) else tok_like st st')"

lemma strip_sim_settle: "strip_sim m st st' \<Longrightarrow> tok_like (settle st) (settle st')"
  by (auto simp: strip_sim_def tok_like_settle split: if_splits)

lemma strip_sim_settled:
  assumes "tok_like (settle st) (settle st')" "tok_like a (settle st)"
    and "tok_like b (settle st') \<or> comment_mode m \<and> b = st'"
  shows "strip_sim m a b"
proof -
  have a: "tok_like a (settle a)" "tok_like (settle a) (settle st)"
    using settle_idem [OF assms(2)] by simp_all
  show ?thesis
  proof (cases "tok_like b (settle st')")
    case True
    then have "tok_like (settle b) (settle st')" using settle_idem by blast
    with a assms True show ?thesis
      by (auto simp: strip_sim_def intro: tok_like_trans tok_like_sym)
  next
    case False
    with a assms show ?thesis by (auto simp: strip_sim_def intro: tok_like_trans)
  qed
qed

lemma lex_step_comment:
  "lex_step m c r = (k, m') \<Longrightarrow> quote_mode m \<Longrightarrow> at_ok m p (c # r) \<Longrightarrow>
   (k = SqlInLineComment \<longrightarrow> comment_mode m') \<and>
   (k = SqlInBlockComment \<longrightarrow> p = CHR ''*'' \<and> c = CHR ''/'' \<or> comment_mode m') \<and>
   (\<not> comment_kind k \<longrightarrow> \<not> comment_mode m' \<and> (comment_mode m \<longrightarrow> k = SqlCode \<and> c = CHR 0x0A))"
  by (cases m; auto simp: lex_step_def comment_mode_def comment_kind_def at_ok_def quote_mode_def
      simp del: quoteOpen.simps split: option.splits if_splits dest: quoteOpen_quoted)

lemma strip_emit_tokens:
  "emit_ok m inb p s \<Longrightarrow> strip_sim m st st' \<Longrightarrow>
   tok_like (settle (tok_run (cls m s) st)) (settle (tok_run (strip_emit m inb p s) st'))"
proof (induction s arbitrary: m inb p st st')
  case Nil
  have "tok_like (settle (snd (tokVisit st' CHR '' '' SqlCode))) (settle st')"
    using tok_like_settle [OF settle_step [of SqlCode "CHR '' ''" st']] by (simp add: plainSpace_def)
  with strip_sim_settle [OF Nil.prems(2)] show ?case
    by (auto intro: tok_like_trans tok_like_sym)
next
  case (Cons c r)
  obtain k m' where step: "lex_step m c r = (k, m')" by (cases "lex_step m c r")
  have qm: "quote_mode m" and at: "at_ok m p (c # r)" using Cons.prems(1) by (simp_all add: emit_ok_def)
  note mode = lex_step_comment [OF step qm at]
  have qm': "quote_mode m'" and ok: "at_ok m' c r"
    using quote_mode_step [of m c r] at_ok_step [of m c r] qm by (simp_all add: step)
  let ?a = "snd (tokVisit st c k)"
  have IH: "tok_like (settle (tok_run (cls m' r) a)) (settle (tok_run (strip_emit m' inb' c r) b))"
    if "strip_sim m' a b" "inb' \<longrightarrow> m' \<in> {AtStar, InBlock, AtSlash}" for a b inb'
    using Cons.IH that qm' ok by (simp add: emit_ok_def)
  note ss = strip_sim_settle [OF Cons.prems(2)]
  show ?case
  proof (cases "comment_kind k")
    case False
    have "tok_like ?a (snd (tokVisit st' c k))"
    proof (cases "comment_mode m")
      case True
      with mode False have "k = SqlCode" "plainSpace c" by (auto simp: plainSpace_def)
      then have "tok_like ?a (settle st)" "tok_like (snd (tokVisit st' c k)) (settle st')"
        using settle_step by auto
      with ss show ?thesis by (meson tok_like_trans tok_like_sym)
    qed (use Cons.prems(2) in \<open>simp add: strip_sim_def tok_like_step\<close>)
    then have "strip_sim m' ?a (snd (tokVisit st' c k))"
      using mode False by (simp add: strip_sim_def)
    from IH [OF this, of False] show ?thesis using False by (simp add: step comment_kind_def)
  next
    case True
    then have a: "tok_like ?a (settle st)" by (simp add: settle_step)
    consider (emit) "k = SqlInBlockComment" "p = CHR ''*'' \<and> c = CHR ''/''"
      | (block) "k = SqlInBlockComment" "\<not> (p = CHR ''*'' \<and> c = CHR ''/'')"
      | (line) "k = SqlInLineComment"
      using True by (auto simp: comment_kind_def)
    then show ?thesis
    proof cases
      case emit
      have "strip_sim m' ?a (snd (tokVisit st' CHR '' '' SqlCode))"
        by (rule strip_sim_settled [OF ss a]) (simp add: settle_step plainSpace_def)
      moreover have "lex_step m CHR ''/'' r = (SqlInBlockComment, m')" using step emit by simp
      ultimately show ?thesis using IH [of ?a _ False] emit by simp
    next
      case block
      with mode have "comment_mode m'" by blast
      moreover have "m' \<noteq> InLine"
        using block(1) step by (cases m) (auto simp: lex_step_def simp del: quoteOpen.simps
            split: option.splits if_splits)
      ultimately have m': "m' \<in> {AtStar, InBlock, AtSlash}" by (auto simp: comment_mode_def)
      have "strip_sim m' ?a st'"
        by (rule strip_sim_settled [OF ss a]) (use \<open>comment_mode m'\<close> in simp)
      moreover have "strip_emit m inb p (c # r) = strip_emit m' True c r"
        using step block by auto
      ultimately show ?thesis using IH [of ?a _ True] m' by (simp add: step del: strip_emit.simps)
    next
      case line
      with mode have "comment_mode m'" by blast
      then have "strip_sim m' ?a st'"
        by (intro strip_sim_settled [OF ss a]) simp
      from IH [OF this, of inb] line show ?thesis
      proof -
        have "\<not> inb" using line step Cons.prems(1)
          by (cases m) (auto simp: lex_step_def emit_ok_def simp del: quoteOpen.simps
              split: option.splits if_splits)
        with IH [OF \<open>strip_sim m' ?a st'\<close>, of False] line show ?thesis by (simp add: step)
      qed
    qed
  qed
qed

lemma tokenize_stripSQLComments:
  "map tokKey (sqlTokenize (stripSQLComments s)) = map tokKey (sqlTokenize s)"
proof -
  have "emit_ok InCode False (CHR 0x00) s" by (simp add: emit_ok_def quote_mode_def at_ok_def)
  moreover have "strip_sim InCode tokInit tokInit" by (simp add: strip_sim_def comment_mode_def)
  ultimately have "tok_like (settle (tok_run (classify s) tokInit))
      (settle (tok_run (strip_emit InCode False (CHR 0x00) s) tokInit))"
    unfolding classify_def by (rule strip_emit_tokens)
  then show ?thesis
    by (simp add: sqlTokenize_run classify_stripSQLComments tokFinish_def settle_def tok_like_def)
qed


section \<open>Word tokens are fields\<close>

lemma wordByte_upc: "upperWordByte (upc c) = wordByte c"
proof -
  have underscore: "d = CHR ''_'' \<longleftrightarrow> byte d = 95" for d
    by (simp add: byte_eq_iff [symmetric] byte_Char)
  show ?thesis
    unfolding upperWordByte_def wordByte_def underscore is_letter_def is_lower_def is_upper_def
      is_digit_def byte_upc
    by auto
qed

lemma fields_by_upc:
  "fields_by upperWordByte (map upc acc) (map upc s) = map (map upc) (fields_by wordByte acc s)"
proof (induction s arbitrary: acc)
  case (Cons c r)
  show ?case using Cons.IH [of "c # acc"] Cons.IH [of "[]"] by (simp add: wordByte_upc rev_map)
qed (simp add: rev_map)

lemma fields_by_to_upper:
  "is_ascii s \<Longrightarrow> fields_by upperWordByte [] (to_upper s) = map to_upper (fields_by wordByte [] s)"
proof -
  assume s: "is_ascii s"
  have "set w \<subseteq> set acc \<union> set s" if "w \<in> set (fields_by wordByte acc s)" for w acc
    using that by (induction wordByte acc s rule: fields_by.induct) (fastforce split: if_splits)+
  from this [where acc = "[]"] have "is_ascii w" if "w \<in> set (fields_by wordByte [] s)" for w
    using s that by (auto simp: is_ascii_def)
  then show ?thesis
    using s fields_by_upc [of "[]" s] by (simp add: to_upper_ascii)
qed

lemma fields_by_skip:
  "\<forall>c \<in> set l. \<not> p c \<Longrightarrow> fields_by p acc (l @ s) = (if l = [] then fields_by p acc s else
     (if acc = [] then [] else [rev acc]) @ fields_by p [] s)"
  by (induction l arbitrary: acc) auto

lemma fields_by_tail:
  "\<forall>c \<in> set r. \<not> p c \<Longrightarrow> fields_by p acc (s @ r) = fields_by p acc s"
proof (induction s arbitrary: acc)
  case Nil
  then show ?case using fields_by_skip [of r p acc "[]"] by simp
qed auto

lemma space_not_word: "is_ascii s \<Longrightarrow> c \<in> set s \<Longrightarrow> space_byte c \<Longrightarrow> \<not> wordByte c"
  by (auto simp: space_byte_def ascii_space_def wordByte_def is_ascii_def is_letter_def is_lower_def
      is_upper_def is_digit_def byte_def)

lemma fields_by_trim:
  assumes "is_ascii s"
  shows "fields_by wordByte [] (trim_space s) = fields_by wordByte [] s"
proof -
  obtain l r where s: "s = l @ trim_space s @ r" and sp: "\<forall>c \<in> set l \<union> set r. space_byte c"
    by (rule trim_space_removes)
  have "set l \<union> set r \<subseteq> set s" using s by (metis Un_upper1 Un_upper2 le_sup_iff set_append sup.coboundedI2)
  with sp assms have "\<forall>c \<in> set l. \<not> wordByte c" "\<forall>c \<in> set r. \<not> wordByte c"
    by (auto dest: space_not_word)
  then have "fields_by wordByte [] (l @ trim_space s @ r) = fields_by wordByte [] (trim_space s)"
    using fields_by_tail [of r wordByte] by (simp add: fields_by_skip)
  with s show ?thesis by simp
qed

lemma wordByte_ident: "wordByte c \<Longrightarrow> sqlIdentByte c"
  by (auto simp: wordByte_def sqlIdentByte_def)

definition closing_ok :: "lex_mode \<Rightarrow> bool" where
  "closing_ok m \<longleftrightarrow> (case m of InQuote k cl \<Rightarrow> quoted k \<and> \<not> wordByte cl | m \<Rightarrow> m = InCode)"

lemma quote_not_word: "quoteOpen c = Some (k, cl) \<Longrightarrow> \<not> wordByte c \<and> \<not> wordByte cl \<and> quoted k"
  by (auto simp: wordByte_def is_letter_def is_lower_def is_upper_def is_digit_def byte_def
      split: if_splits)

definition word_inv :: "lex_mode \<Rightarrow> tokState \<Rightarrow> string \<Rightarrow> bool" where
  "word_inv m st acc \<longleftrightarrow> closing_ok m \<and> (word st \<noteq> [] \<longrightarrow> m = InCode) \<and>
     (m = InCode \<longrightarrow> list_all wordByte (word st) \<longrightarrow> rev acc = word st)"

lemma tokVisit_word:
  "word (snd (tokVisit st c k)) = (if quoted k \<or> comment_kind k \<or> \<not> sqlIdentByte c then [] else word st @ [c])"
  by (auto simp: tokVisit_def Let_def flushWord_def flushQuoted_def)

lemma quotedText_not_word [simp]: "fst (quotedText raw) \<noteq> SqlTokWord"
  using quotedText_kind [of raw] by auto

lemma tokVisit_new_word:
  "t \<in> set (toks (snd (tokVisit st c k))) \<Longrightarrow> t_kind t = SqlTokWord \<Longrightarrow> t \<notin> set (toks st) \<Longrightarrow>
   t_text t = word st \<and> word st \<noteq> [] \<and> (quoted k \<or> comment_kind k \<or> \<not> sqlIdentByte c)"
  by (auto simp: tokVisit_def Let_def flushWord_def flushQuoted_def split: if_splits)

lemma word_inv_step:
  assumes "word_inv m st acc" "lex_step m c r = (k, m')" "\<not> comment_kind k"
  shows "word_inv m' (snd (tokVisit st c k)) (if wordByte c then c # acc else [])"
    and "(quoted k \<or> \<not> sqlIdentByte c) \<and> word st \<noteq> [] \<Longrightarrow> \<not> wordByte c"
  using assms
  by (cases m; auto simp: word_inv_def lex_step_def tokVisit_word closing_ok_def comment_kind_def
      simp del: quoteOpen.simps dest: quote_not_word wordByte_ident split: option.splits if_splits)+

lemma word_in_fields:
  assumes "t \<in> set (tokFinish (tok_run (cls m s) st))" "t_kind t = SqlTokWord"
    and "list_all wordByte (t_text t)" "t \<notin> set (toks st)"
    and "word_inv m st acc" "\<forall>x \<in> set (cls m s). \<not> comment_kind (snd x)"
  shows "t_text t \<in> set (fields_by wordByte acc s)"
  using assms
proof (induction s arbitrary: m st acc)
  case Nil
  then show ?case
    by (auto simp: tokFinish_def flushWord_def flushQuoted_def word_inv_def split: if_splits)
next
  case (Cons c r)
  obtain k m' where step: "lex_step m c r = (k, m')" by (cases "lex_step m c r")
  let ?st = "snd (tokVisit st c k)"
  have k: "\<not> comment_kind k" using Cons.prems(6) by (simp add: step)
  note inv = word_inv_step [OF Cons.prems(5) step k]
  show ?case
  proof (cases "t \<in> set (toks ?st)")
    case True
    with tokVisit_new_word [OF True Cons.prems(2,4)] k
    have w: "t_text t = word st" "word st \<noteq> []" and nw: "quoted k \<or> \<not> sqlIdentByte c" by auto
    with inv(2) Cons.prems(3,5) have "rev acc = t_text t" "\<not> wordByte c" by (auto simp: word_inv_def)
    with w show ?thesis by auto
  next
    case False
    have "t_text t \<in> set (fields_by wordByte (if wordByte c then c # acc else []) r)"
      using Cons.IH [OF _ Cons.prems(2,3) False inv(1)] Cons.prems(1,6) by (simp add: step)
    then show ?thesis by (auto split: if_splits)
  qed
qed

lemma sqlTokenize_word_field:
  assumes "t \<in> set (sqlTokenize s)" "t_kind t = SqlTokWord" "list_all wordByte (t_text t)"
    and "\<forall>x \<in> set (classify s). \<not> comment_kind (snd x)"
  shows "t_text t \<in> set (fields_by wordByte [] s)"
  using assms word_in_fields [of t InCode s tokInit "[]"]
  by (simp add: sqlTokenize_run classify_def word_inv_def closing_ok_def tokInit_def)

section \<open>The gate and the tokens\<close>

lemma strip_ascii: "is_ascii s \<Longrightarrow> is_ascii (stripSQLComments s)"
proof -
  assume s: "is_ascii s"
  have "set (map fst (strip_emit m inb p s)) \<subseteq> insert CHR '' '' (set s)" for m inb p
    by (induction s arbitrary: m inb p) (fastforce split: prod.split if_splits)+
  with s show ?thesis by (fastforce simp: stripSQLComments_emit is_ascii_def byte_def)
qed

lemma trim_ascii: "is_ascii s \<Longrightarrow> is_ascii (trim_space s)"
  using set_trim_space [of s] by (auto simp: is_ascii_def)

lemma forbidden_wordByte:
  "to_upper w \<in> set forbiddenWords \<Longrightarrow> is_ascii w \<Longrightarrow> list_all wordByte w"
proof -
  assume "to_upper w \<in> set forbiddenWords" "is_ascii w"
  moreover have "list_all upperWordByte v" if "v \<in> set forbiddenWords" for v
    using that unfolding forbiddenWords_def by (auto; code_simp)
  ultimately have "list_all upperWordByte (map upc w)" by (metis to_upper_ascii)
  then show ?thesis by (simp add: list_all_iff wordByte_upc)
qed

lemma readonly_words:
  assumes "is_ascii s" "isReadOnlyQuery s" "t \<in> set (sqlTokenize s)" "t_kind t = SqlTokWord"
  shows "to_upper (t_text t) \<notin> set forbiddenWords"
proof
  assume bad: "to_upper (t_text t) \<in> set forbiddenWords"
  let ?s = "stripSQLComments s"
  have "tokKey t \<in> tokKey ` set (sqlTokenize ?s)"
    using assms(3) tokenize_stripSQLComments [of s] by (metis image_eqI list.set_map)
  then obtain t' where t': "t' \<in> set (sqlTokenize ?s)" "t_kind t' = SqlTokWord" "t_text t' = t_text t"
    using assms(4) by (auto simp: tokKey_def)
  have "list_all wordByte (t_text t)"
    using bad forbidden_wordByte sqlTokenize_ascii [OF assms(1,3)] by blast
  then have "t_text t \<in> set (fields_by wordByte [] ?s)"
    using sqlTokenize_word_field [OF t'(1,2)] t'(3) stripSQLComments_no_comment by auto
  then have "to_upper (t_text t) \<in> set (fields_by upperWordByte [] (to_upper (trim_space (trim_space ?s))))"
    using assms(1) by (simp add: fields_by_to_upper fields_by_trim trim_ascii strip_ascii)
  with assms(2) bad show False
    by (auto simp: isReadOnlyQuery_def Let_def list_all_iff split: if_splits)
qed


lemma mainVerbLoop_word:
  "mainVerbLoop d ts \<noteq> ''WITH'' \<Longrightarrow> \<exists>t \<in> set ts. t_kind t = SqlTokWord \<and> to_upper (t_text t) = mainVerbLoop d ts"
  by (induction d ts rule: mainVerbLoop.induct) (auto split: if_splits)

lemma sqlMainVerb_token:
  "sqlMainVerb st \<noteq> [] \<Longrightarrow> sqlMainVerb st \<noteq> ''WITH'' \<Longrightarrow>
   \<exists>t \<in> set st. t_kind t = SqlTokWord \<and> to_upper (t_text t) = sqlMainVerb st"
  using mainVerbLoop_word [of 0 "tl st"]
  by (cases st) (auto simp: sqlMainVerb_def split: if_splits)

lemma write_verb_forbidden: "w \<in> set writeVerbs \<Longrightarrow> w \<in> set forbiddenWords \<and> w \<in> set mainVerbs"
  unfolding writeVerbs_def forbiddenWords_def mainVerbs_def by auto

lemma sqlStatementWrite_verb:
  assumes "sqlStatementWrite st = Some w" "\<forall>t \<in> set st. is_ascii (t_text t)"
  shows "\<exists>t \<in> set st. t_kind t = SqlTokWord \<and> to_upper (t_text t) \<in> set writeVerbs"
proof -
  let ?i = "sqlStatementVerbIndex st"
  obtain v where v: "kwAt st ?i v" "v \<in> set writeVerbs"
    using assms(1) by (auto simp: sqlStatementWrite_def writeHead_def writeVerbs_def Let_def
        split: option.splits if_splits)
  then have "?i < length st" by (simp add: kwAt_def)
  with v have "t_kind (st ! ?i) = SqlTokWord \<and> to_upper (t_text (st ! ?i)) = v"
    using kwAt_ascii [of ?i st v] mainVerbs_ascii [of v] write_verb_forbidden assms(2) by auto
  with v(2) \<open>?i < length st\<close> show ?thesis by (metis nth_mem)
qed

lemma gate_statement_ascii:
  "is_ascii s \<Longrightarrow> st \<in> set (sqlTokenStatements (sqlTokenize s)) \<Longrightarrow> t \<in> set st \<Longrightarrow>
   is_ascii (t_text t) \<and> t \<in> set (sqlTokenize s)"
  using statement_tokens sqlTokenize_ascii by blast

section \<open>Properties\<close>

text \<open>C25: A text that the read-only gate lets pass cannot write by any of the other readings: for
  an ASCII text no bare word is one of the forbidden words, the walk over write targets finds
  none, and the write gate refuses it.\<close>

theorem readonly_excludes_write:
  assumes "is_ascii s" and "isReadOnlyQuery s"
  shows "(\<forall>t \<in> set (sqlTokenize s). t_kind t = SqlTokWord \<longrightarrow> to_upper (t_text t) \<notin> set forbiddenWords)
     \<and> fst (sqlWriteTargets s) = [] \<and> validateSQLWriteStatement s \<noteq> None"
proof (intro conjI notI ballI impI)
  fix t assume "t \<in> set (sqlTokenize s)" "t_kind t = SqlTokWord" "to_upper (t_text t) \<in> set forbiddenWords"
  with readonly_words [OF assms] show False by blast
next
  have none: "sqlStatementWrite st = None" if "st \<in> set (sqlTokenStatements (sqlTokenize s))" for st
    using sqlStatementWrite_verb [of st] gate_statement_ascii [OF assms(1) that]
      readonly_words [OF assms] write_verb_forbidden by (metis not_None_eq)
  then show "fst (sqlWriteTargets s) = []"
    by (auto simp: sqlWriteTargets_statements List.map_filter_def)
next
  assume "validateSQLWriteStatement s = None"
  then obtain st where st: "sqlTokenStatements (sqlTokenize s) = [st]" "sqlMainVerb st \<in> set writeVerbs"
    using validateSQLWriteStatement_ok by blast
  then have "sqlMainVerb st \<noteq> []" "sqlMainVerb st \<noteq> ''WITH''" by (auto simp: writeVerbs_def)
  from sqlMainVerb_token [OF this] obtain t where "t \<in> set st" "t_kind t = SqlTokWord"
    "to_upper (t_text t) \<in> set writeVerbs" using st(2) by metis
  with st(1) gate_statement_ascii [OF assms(1)] readonly_words [OF assms] write_verb_forbidden show False
    by (metis list.set_intros(1))
qed

theorem readonly_excludes_write_witness:
  "fst (sqlWriteTargets ''select a from t'') = [] \<and> validateSQLWriteStatement ''select a from t'' \<noteq> None"
proof -
  have ascii: "is_ascii ''select a from t''" by (simp add: go_eval)
  have strip: "stripSQLComments ''select a from t'' = ''select a from t''"
    and lit: "stripSQLLiterals ''select a from t'' = ''select a from t''"
    and trim: "trim_space ''select a from t'' = ''select a from t''"
    and up: "to_upper ''select a from t'' = ''SELECT A FROM T''"
    by (simp_all add: go_eval)
  have "isReadOnlyQuery ''select a from t''"
    unfolding isReadOnlyQuery_def strip Let_def trim lit
    by (simp add: trim_suffix_def suffix_to_prefix trim up upperWordByte_def is_upper_def is_digit_def
        byte_def forbiddenWords_def)
  with readonly_excludes_write [OF ascii] show ?thesis by blast
qed

text \<open>Stripping comments leaves the token list as it is, kind by kind and text by text: a
  gate that reads the stripped text and one that reads the text itself see the same words,
  names and literals.\<close>

theorem stripSQLComments_tokens:
  "map (\<lambda>t. (t_kind t, t_text t)) (sqlTokenize (stripSQLComments s))
   = map (\<lambda>t. (t_kind t, t_text t)) (sqlTokenize s)"
  using tokenize_stripSQLComments [of s] by (simp add: tokKey_def [abs_def])

text \<open>The gate's count of statements misses a second one that is only a string: the literal
  is blanked and trimmed away before the semicolon is looked for.\<close>

theorem readonly_second_literal:
  "isReadOnlyQuery (''SELECT 1;'' @ [CHR 0x27, CHR ''x'', CHR 0x27]) \<and>
   length (sqlTokenStatements (sqlTokenize (''SELECT 1;'' @ [CHR 0x27, CHR ''x'', CHR 0x27]))) = 2"
proof
  let ?q = "''SELECT 1;'' @ [CHR 0x27, CHR ''x'', CHR 0x27]"
  have strip: "stripSQLComments ?q = ?q"
    and lit: "stripSQLLiterals ?q = ''SELECT 1;   ''"
    and trim: "trim_space ?q = ?q" "trim_space ''SELECT 1;   '' = ''SELECT 1;''" "trim_space ''SELECT 1'' = ''SELECT 1''"
    and up: "to_upper ?q = ''SELECT 1;'' @ [CHR 0x27, CHR ''X'', CHR 0x27]" "to_upper ''SELECT 1'' = ''SELECT 1''"
    by (simp_all add: go_eval)
  show "isReadOnlyQuery ?q"
    unfolding isReadOnlyQuery_def strip Let_def trim lit
    by (simp add: trim_suffix_def suffix_to_prefix trim [simplified] up [simplified] upperWordByte_def is_upper_def is_digit_def
        byte_def forbiddenWords_def)
  show "length (sqlTokenStatements (sqlTokenize ?q)) = 2"
    by (simp add: go_eval)
qed

end
