(* ===== verification/Login_Lockout.thy ===== *)
theory Login_Lockout
  imports Client_Ip
begin

text \<open>
  The login lockout of \<^verbatim>\<open>auth_lockout.go\<close>, the check, verify and record steps of the password
  login in \<^verbatim>\<open>auth_login.go\<close> that rest on it, and the address gate in front of them. The
  attempts table is the list of its rows, newest first; SQL times are in seconds, the
  process's own clock, which paces the sweep, in nanoseconds. \<open>db_ok\<close> says whether the
  database answers: a failed insert is only logged and a failed count reads as zero.
\<close>

section \<open>The attempts table\<close>

record attempt =
  a_email :: string
  attempted_at :: int
  success :: bool

record loginStore =
  attempts :: "attempt list"
  lastSweep :: "int option"
  db_ok :: bool

definition emptyStore :: loginStore where
  "emptyStore = \<lparr>attempts = [], lastSweep = None, db_ok = True\<rparr>"

definition nanos :: int where "nanos = 1000000000"

abbreviation sqlNow :: "int \<Rightarrow> int" where "sqlNow now \<equiv> now div nanos"

definition loginAttemptSweepEvery :: int where "loginAttemptSweepEvery = 60 * nanos"

definition sweepLoginAttempts :: "int \<Rightarrow> loginStore \<Rightarrow> loginStore" where
  "sweepLoginAttempts now st =
     (if (case lastSweep st of None \<Rightarrow> False | Some swept \<Rightarrow> now - swept < loginAttemptSweepEvery) then st
      else st\<lparr>lastSweep := Some now,
              attempts := (if db_ok st
                then filter (\<lambda>a. \<not> attempted_at a < sqlNow now - 3600) (attempts st) else attempts st)\<rparr>)"

definition normalizeEmail :: "string \<Rightarrow> string" where
  "normalizeEmail s = to_lower (trim_space s)"

definition recordLoginAttempt :: "int \<Rightarrow> string \<Rightarrow> bool \<Rightarrow> loginStore \<Rightarrow> loginStore" where
  "recordLoginAttempt now email ok st =
     sweepLoginAttempts now
       (if db_ok st
        then st\<lparr>attempts := \<lparr>a_email = normalizeEmail email, attempted_at = sqlNow now, success = ok\<rparr> # attempts st\<rparr>
        else st)"

text \<open>\<open>COALESCE((SELECT MAX(...)), '1970-01-01')\<close>: without a success every time is later.\<close>

definition afterLastSuccess :: "attempt list \<Rightarrow> string \<Rightarrow> int \<Rightarrow> bool" where
  "afterLastSuccess rows email t =
     list_all (\<lambda>a. a_email a = email \<and> success a \<longrightarrow> attempted_at a < t) rows"

definition accountFailures :: "int \<Rightarrow> string \<Rightarrow> attempt list \<Rightarrow> attempt list" where
  "accountFailures now email rows =
     filter (\<lambda>a. a_email a = email \<and> \<not> success a \<and> afterLastSuccess rows email (attempted_at a)
        \<and> sqlNow now - 900 < attempted_at a) rows"

definition isAccountLocked :: "int \<Rightarrow> string \<Rightarrow> loginStore \<Rightarrow> bool" where
  "isAccountLocked now email st =
     (5 \<le> (if db_ok st then length (accountFailures now (normalizeEmail email) (attempts st)) else 0))"

definition authIPLockKey :: "'ip netFns \<Rightarrow> string \<Rightarrow> string" where
  "authIPLockKey fn ip = ''ip:'' @ to_lower (clientRateBucket fn (trim_space ip))"

definition authIPLoginLimit :: nat where "authIPLoginLimit = 25"

definition ipFailures :: "int \<Rightarrow> string \<Rightarrow> attempt list \<Rightarrow> attempt list" where
  "ipFailures now key rows =
     filter (\<lambda>a. a_email a = key \<and> \<not> success a \<and> sqlNow now - 900 < attempted_at a) rows"

definition authIsIPLocked :: "'ip netFns \<Rightarrow> int \<Rightarrow> string \<Rightarrow> loginStore \<Rightarrow> bool" where
  "authIsIPLocked fn now ip0 st =
     (let ip = trim_space ip0 in
      if ip = [] then False
      else authIPLoginLimit \<le> (if db_ok st then length (ipFailures now (authIPLockKey fn ip) (attempts st)) else 0))"

section \<open>The password login\<close>

text \<open>What the lookup of the account and the comparison of the password give, and what the
  handler answers. Reading the account's state again and comparing the hash is the check that
  may find the credentials changed.\<close>

datatype credentialCheck = NoAccount | CredentialsChanged | WrongPassword | RightPassword

datatype loginAnswer =
    AccountLocked | NetworkLocked | InvalidCredentials | SignInAgain | PasswordAccepted

definition checkedLogin ::
    "'ip netFns \<Rightarrow> int \<Rightarrow> string \<Rightarrow> string \<Rightarrow> credentialCheck \<Rightarrow> loginStore \<Rightarrow> loginAnswer \<times> loginStore" where
  "checkedLogin fn now loginValue loginIP check st =
     (if isAccountLocked now loginValue st then (AccountLocked, st)
      else if authIsIPLocked fn now loginIP st then (NetworkLocked, st)
      else
        (case check of
           NoAccount \<Rightarrow> (InvalidCredentials,
             recordLoginAttempt now (authIPLockKey fn loginIP) False (recordLoginAttempt now loginValue False st))
         | CredentialsChanged \<Rightarrow> (SignInAgain, st)
         | WrongPassword \<Rightarrow> (InvalidCredentials,
             recordLoginAttempt now (authIPLockKey fn loginIP) False (recordLoginAttempt now loginValue False st))
         | RightPassword \<Rightarrow> (PasswordAccepted, recordLoginAttempt now loginValue True st)))"

text \<open>The key of the second factor's counter.\<close>

definition mfaLockKey :: "nat \<Rightarrow> string" where
  "mfaLockKey userID = ''mfa:'' @ decimal userID"

section \<open>The address gate\<close>

text \<open>\<open>runesOk\<close> is the rune loop of \<open>validAuthEmail\<close> outside ASCII, together with the check that
  the bytes are valid UTF-8: it rests on Unicode's tables.\<close>

definition validAuthEmail :: "(string \<Rightarrow> bool) \<Rightarrow> string \<Rightarrow> bool" where
  "validAuthEmail runesOk s =
     (if s = [] \<or> 254 < length s \<or> length (filter ((=) CHR ''@'') s) \<noteq> 1 then False
      else if hd s = CHR ''@'' \<or> last s = CHR ''@'' then False
      else list_all (\<lambda>r. \<not> (byte r \<le> 32 \<or> byte r = 127 \<or>
             r \<in> set ('',;<>()[]'' @ [CHR 0x5C, CHR 0x22, CHR '':'', CHR ''|'']))) s \<and> runesOk s)"

datatype gateAnswer = EmailAllowed | EmailInvalid | EmailNotListed | EmailDomains "string list"

definition gateDomains :: "string \<Rightarrow> string list" where
  "gateDomains domainRaw =
     filter (\<lambda>d. d \<noteq> []) (map (\<lambda>d. to_lower (trim_space (trim_prefix d ''@''))) (split_at CHR '','' domainRaw))"

definition emailMatchesGate :: "(string \<Rightarrow> bool) \<Rightarrow> string \<Rightarrow> string \<Rightarrow> string \<Rightarrow> gateAnswer" where
  "emailMatchesGate runesOk email0 domainRaw0 allowRaw0 =
     (let domainRaw = trim_space domainRaw0; allowRaw = trim_space allowRaw0 in
      if domainRaw = [] \<and> allowRaw = [] then EmailAllowed
      else
        let email = to_lower (trim_space email0) in
        if \<not> validAuthEmail runesOk email then EmailInvalid
        else if allowRaw \<noteq> [] \<and>
            list_ex (\<lambda>a0. let a = to_lower (trim_space a0) in a \<noteq> [] \<and> a = email) (split_at CHR '','' allowRaw)
          then EmailAllowed
        else if domainRaw = [] then EmailNotListed
        else if list_ex (\<lambda>d. suffix (CHR ''@'' # d) email) (gateDomains domainRaw) then EmailAllowed
        else EmailDomains (gateDomains domainRaw))"

section \<open>Sweeping changes no decision\<close>

definition unswept :: "(int \<times> string \<times> bool) list \<Rightarrow> attempt list" where
  "unswept es = map (\<lambda>(now, email, ok).
     \<lparr>a_email = normalizeEmail email, attempted_at = sqlNow now, success = ok\<rparr>) (rev es)"

definition recordAll :: "(int \<times> string \<times> bool) list \<Rightarrow> loginStore \<Rightarrow> loginStore" where
  "recordAll es st = fold (\<lambda>(now, email, ok) st. recordLoginAttempt now email ok st) es st"

text \<open>What a sweep leaves at time \<open>t\<close>: only rows of the last hour matter.\<close>

definition recent :: "int \<Rightarrow> attempt list \<Rightarrow> attempt list" where
  "recent t rows = filter (\<lambda>a. t - 3600 \<le> attempted_at a) rows"

lemma recent_recent: "t \<le> t' \<Longrightarrow> recent t' (recent t rows) = recent t' rows"
  by (simp add: recent_def) (metis (no_types, lifting) diff_right_mono dual_order.trans)

lemma sweep_recent:
  "db_ok st \<Longrightarrow> db_ok (sweepLoginAttempts now st) \<and>
   recent (sqlNow now) (attempts (sweepLoginAttempts now st)) = recent (sqlNow now) (attempts st)"
  by (auto simp: sweepLoginAttempts_def recent_def linorder_not_less split: option.split)

lemma record_recent:
  "db_ok st \<Longrightarrow> db_ok (recordLoginAttempt now email ok st) \<and>
   recent (sqlNow now) (attempts (recordLoginAttempt now email ok st)) =
     recent (sqlNow now) (\<lparr>a_email = normalizeEmail email, attempted_at = sqlNow now, success = ok\<rparr> # attempts st)"
  unfolding recordLoginAttempt_def by (simp add: sweep_recent)


text \<open>The counts look at the last fifteen minutes and at successes not older than the failures
  they look at, so they depend on the rows of the last hour alone.\<close>

lemma filter_recent:
  "(\<And>a. P a \<Longrightarrow> t - 3600 \<le> attempted_at a) \<Longrightarrow> filter P (recent t rows) = filter P rows"
  by (auto simp: recent_def intro: filter_cong)

lemma accountFailures_recent:
  "accountFailures now email (recent (sqlNow now) rows) = accountFailures now email rows"
proof -
  have "afterLastSuccess (recent (sqlNow now) rows) email t = afterLastSuccess rows email t"
    if "sqlNow now - 900 < t" for t
    using that by (auto simp: afterLastSuccess_def recent_def list_all_iff)
  then have "accountFailures now email (recent (sqlNow now) rows) =
      filter (\<lambda>a. a_email a = email \<and> \<not> success a \<and> afterLastSuccess rows email (attempted_at a)
        \<and> sqlNow now - 900 < attempted_at a) (recent (sqlNow now) rows)"
    by (auto simp: accountFailures_def intro: filter_cong)
  also have "\<dots> = accountFailures now email rows"
    unfolding accountFailures_def by (rule filter_recent) auto
  finally show ?thesis .
qed

lemma ipFailures_recent: "ipFailures now key (recent (sqlNow now) rows) = ipFailures now key rows"
  unfolding ipFailures_def by (rule filter_recent) auto

lemma locks_recent:
  assumes "recent (sqlNow now) rows = recent (sqlNow now) (attempts st)"
  shows "isAccountLocked now email (st\<lparr>attempts := rows\<rparr>) = isAccountLocked now email st"
    and "authIsIPLocked fn now ip (st\<lparr>attempts := rows\<rparr>) = authIsIPLocked fn now ip st"
  using accountFailures_recent ipFailures_recent assms
  by (simp_all add: isAccountLocked_def authIsIPLocked_def Let_def) (metis+)?

lemma sqlNow_mono: "a \<le> b \<Longrightarrow> sqlNow a \<le> sqlNow b"
  by (simp add: nanos_def zdiv_mono1)

lemma recent_cong_later:
  "recent t rows = recent t rows' \<Longrightarrow> t \<le> t' \<Longrightarrow> recent t' rows = recent t' rows'"
  by (metis recent_recent)

lemma recordAll_recent:
  assumes "db_ok st" "sorted (map fst es)" "\<forall>e \<in> set es. fst e \<le> now"
  shows "db_ok (recordAll es st) \<and> recent (sqlNow now) (attempts (recordAll es st))
     = recent (sqlNow now) (unswept es @ attempts st)"
  using assms
proof (induction es rule: rev_induct)
  case Nil
  then show ?case by (simp add: recordAll_def unswept_def)
next
  case (snoc e es)
  obtain t email ok where e: "e = (t, email, ok)" by (cases e)
  have le: "t \<le> now" and "\<forall>e \<in> set es. fst e \<le> t" "sorted (map fst es)"
    using snoc.prems by (auto simp: e sorted_append)
  then have t: "\<forall>e \<in> set es. fst e \<le> now" by auto
  let ?st = "recordAll es st"
  have ih: "db_ok ?st" "recent (sqlNow now) (attempts ?st) = recent (sqlNow now) (unswept es @ attempts st)"
    using snoc.IH [OF snoc.prems(1) \<open>sorted (map fst es)\<close> t] by simp_all
  have step: "recordAll (es @ [e]) st = recordLoginAttempt t email ok ?st"
    by (simp add: recordAll_def e)
  let ?a = "\<lparr>a_email = normalizeEmail email, attempted_at = sqlNow t, success = ok\<rparr>"
  have "recent (sqlNow now) (attempts (recordAll (es @ [e]) st)) = recent (sqlNow now) (?a # attempts ?st)"
    unfolding step using record_recent [OF ih(1)] sqlNow_mono [OF le] by (blast intro: recent_cong_later)
  also have "\<dots> = recent (sqlNow now) (unswept (es @ [e]) @ attempts st)"
    using ih(2) by (simp add: unswept_def e recent_def)
  finally show ?case using record_recent [OF ih(1), of t email ok] by (simp add: step)
qed


section \<open>A cap on guesses\<close>

text \<open>The contract both counters share: an event that gets through and counts finds fewer than
  \<open>cap\<close> on record and leaves one more, and no allowed event lowers the count. A run of allowed
  events then has at most \<open>cap\<close> that count.\<close>

fun answersOf :: "('e \<Rightarrow> 's \<Rightarrow> 'a \<times> 's) \<Rightarrow> 'e list \<Rightarrow> 's \<Rightarrow> ('e \<times> 'a) list" where
  "answersOf step [] st = []"
| "answersOf step (e # es) st = (case step e st of (a, st') \<Rightarrow> (e, a) # answersOf step es st')"

locale guess_cap =
  fixes step :: "'e \<Rightarrow> 's \<Rightarrow> 'a \<times> 's"
    and inv :: "'s \<Rightarrow> bool"
    and allowed :: "'e \<Rightarrow> bool"
    and counts :: "'e \<Rightarrow> 'a \<Rightarrow> bool"
    and onRecord :: "'s \<Rightarrow> nat"
    and cap :: nat
  assumes keeps: "inv st \<Longrightarrow> allowed e \<Longrightarrow> step e st = (a, st') \<Longrightarrow> inv st' \<and> onRecord st \<le> onRecord st'"
    and counted: "inv st \<Longrightarrow> allowed e \<Longrightarrow> step e st = (a, st') \<Longrightarrow> counts e a \<Longrightarrow>
      onRecord st < cap \<and> onRecord st < onRecord st'"
begin

lemma guesses_left:
  "inv st \<Longrightarrow> \<forall>e \<in> set es. allowed e \<Longrightarrow>
   length (filter (\<lambda>(e, a). counts e a) (answersOf step es st)) \<le> cap - onRecord st"
proof (induction es arbitrary: st)
  case (Cons e es)
  obtain a st' where step: "step e st = (a, st')" by (cases "step e st")
  have "inv st'" "onRecord st \<le> onRecord st'" using keeps [OF Cons.prems(1) _ step] Cons.prems(2) by simp_all
  moreover have "length (filter (\<lambda>(e, a). counts e a) (answersOf step es st')) \<le> cap - onRecord st'"
    using Cons.IH [OF \<open>inv st'\<close>] Cons.prems(2) by simp
  ultimately show ?case
    using counted [OF Cons.prems(1) _ step] Cons.prems(2) by (auto simp: step)
qed simp

end

type_synonym login = "int \<times> string \<times> string \<times> credentialCheck"

definition loginStep :: "'ip netFns \<Rightarrow> login \<Rightarrow> loginStore \<Rightarrow> loginAnswer \<times> loginStore" where
  "loginStep fn e st = (case e of (now, loginValue, loginIP, check) \<Rightarrow> checkedLogin fn now loginValue loginIP check st)"

text \<open>Failed attempts under a key since a time.\<close>

definition failuresSince :: "int \<Rightarrow> string \<Rightarrow> loginStore \<Rightarrow> nat" where
  "failuresSince t0 k st = length (filter (\<lambda>a. a_email a = k \<and> \<not> success a \<and> t0 \<le> attempted_at a) (attempts st))"

definition inWindow :: "int \<Rightarrow> int \<Rightarrow> bool" where
  "inWindow t0 now \<longleftrightarrow> t0 \<le> sqlNow now \<and> sqlNow now < t0 + 900"

lemma filter_sweep:
  assumes "\<And>a. P a \<Longrightarrow> sqlNow now - 3600 \<le> attempted_at a"
  shows "filter P (attempts (sweepLoginAttempts now st)) = filter P (attempts st)"
proof -
  have "filter P (filter (\<lambda>a. \<not> attempted_at a < sqlNow now - 3600) (attempts st)) = filter P (attempts st)"
    using assms by (auto simp: linorder_not_less intro: filter_cong)
  then show ?thesis by (simp add: sweepLoginAttempts_def split: option.split)
qed

lemma failuresSince_record:
  assumes "inWindow t0 now" "db_ok st"
  shows "failuresSince t0 k (recordLoginAttempt now email ok st) =
     failuresSince t0 k st + (if normalizeEmail email = k \<and> \<not> ok then 1 else 0)"
    and "db_ok (recordLoginAttempt now email ok st)"
proof -
  have "filter (\<lambda>a. a_email a = k \<and> \<not> success a \<and> t0 \<le> attempted_at a) (attempts (sweepLoginAttempts now st')) =
     filter (\<lambda>a. a_email a = k \<and> \<not> success a \<and> t0 \<le> attempted_at a) (attempts st')" for st'
    using assms(1) by (intro filter_sweep) (auto simp: inWindow_def)
  then show "failuresSince t0 k (recordLoginAttempt now email ok st) =
     failuresSince t0 k st + (if normalizeEmail email = k \<and> \<not> ok then 1 else 0)"
    using assms by (simp add: failuresSince_def recordLoginAttempt_def inWindow_def)
  show "db_ok (recordLoginAttempt now email ok st)"
    using record_recent [OF assms(2)] by blast
qed

lemma set_record:
  "a \<in> set (attempts (recordLoginAttempt now email ok st)) \<Longrightarrow>
   a \<in> set (attempts st) \<or> a = \<lparr>a_email = normalizeEmail email, attempted_at = sqlNow now, success = ok\<rparr>"
  by (auto simp: recordLoginAttempt_def sweepLoginAttempts_def split: if_splits option.splits)

definition accountAllowed :: "int \<Rightarrow> string \<Rightarrow> login \<Rightarrow> bool" where
  "accountAllowed t0 k e = (case e of (now, v, ip, check) \<Rightarrow>
     inWindow t0 now \<and> (normalizeEmail v = k \<longrightarrow> check \<noteq> RightPassword))"

definition accountInv :: "int \<Rightarrow> string \<Rightarrow> loginStore \<Rightarrow> bool" where
  "accountInv t0 k st \<longleftrightarrow> db_ok st \<and> afterLastSuccess (attempts st) k t0"

lemma accountInv_record:
  "accountInv t0 k st \<Longrightarrow> inWindow t0 now \<Longrightarrow> ok \<longrightarrow> normalizeEmail email \<noteq> k \<Longrightarrow>
   accountInv t0 k (recordLoginAttempt now email ok st)"
  using failuresSince_record(2) [of t0 now st]
  by (auto simp: accountInv_def afterLastSuccess_def list_all_iff dest!: set_record)

lemma account_unlocked:
  assumes "accountInv t0 (normalizeEmail v) st" "inWindow t0 now" "\<not> isAccountLocked now v st"
  shows "failuresSince t0 (normalizeEmail v) st < 5"
proof -
  let ?k = "normalizeEmail v" and ?rows = "attempts st"
  have "afterLastSuccess ?rows ?k t" if "t0 \<le> t" for t
    using assms(1) that by (fastforce simp: accountInv_def afterLastSuccess_def list_all_iff)
  then have "length (filter (\<lambda>a. a_email a = ?k \<and> \<not> success a \<and> t0 \<le> attempted_at a) ?rows)
     \<le> length (accountFailures now ?k ?rows)"
    using assms(2) unfolding accountFailures_def
    by (intro filter_length_mono) (auto simp: inWindow_def)
  then show ?thesis using assms(1,3) by (simp add: isAccountLocked_def accountInv_def failuresSince_def)
qed


definition accountGuess :: "string \<Rightarrow> login \<Rightarrow> loginAnswer \<Rightarrow> bool" where
  "accountGuess k e a \<longleftrightarrow> normalizeEmail (fst (snd e)) = k \<and> a = InvalidCredentials"

interpretation account: guess_cap "loginStep fn" "accountInv t0 k" "accountAllowed t0 k"
  "accountGuess k" "failuresSince t0 k" 5 for fn t0 k
proof
  fix st st' and e :: login and a
  assume inv: "accountInv t0 k st" and al: "accountAllowed t0 k e" and step: "loginStep fn e st = (a, st')"
  obtain now v ip check where e: "e = (now, v, ip, check)" by (cases e)
  have w: "inWindow t0 now" and r: "normalizeEmail v = k \<longrightarrow> check \<noteq> RightPassword"
    using al by (auto simp: accountAllowed_def e)
  have db: "db_ok st" using inv by (simp add: accountInv_def)
  note rec = failuresSince_record [OF w] and keep = accountInv_record [OF _ w]
  show "accountInv t0 k st' \<and> failuresSince t0 k st \<le> failuresSince t0 k st'"
    using step inv r db
    by (auto simp: loginStep_def e checkedLogin_def rec keep split: if_splits credentialCheck.splits)
  show "failuresSince t0 k st < 5 \<and> failuresSince t0 k st < failuresSince t0 k st'"
    if "accountGuess k e a"
    using step that db account_unlocked [of t0 v st now] inv w
    by (auto simp: loginStep_def e checkedLogin_def rec accountGuess_def split: if_splits credentialCheck.splits)
qed

definition networkGuess :: "'ip netFns \<Rightarrow> string \<Rightarrow> login \<Rightarrow> loginAnswer \<Rightarrow> bool" where
  "networkGuess fn k e a \<longleftrightarrow> (case e of (now, v, ip, check) \<Rightarrow>
     trim_space ip \<noteq> [] \<and> authIPLockKey fn ip = k \<and> a = InvalidCredentials)"

definition networkAllowed :: "int \<Rightarrow> login \<Rightarrow> bool" where
  "networkAllowed t0 e \<longleftrightarrow> inWindow t0 (fst e)"

lemma network_unlocked:
  assumes "db_ok st" "inWindow t0 now" "trim_space ip \<noteq> []" "\<not> authIsIPLocked fn now ip st"
  shows "failuresSince t0 (authIPLockKey fn ip) st < 25"
proof -
  have key: "authIPLockKey fn (trim_space ip) = authIPLockKey fn ip"
    by (simp add: authIPLockKey_def trim_space_idem)
  have "failuresSince t0 (authIPLockKey fn ip) st \<le> length (ipFailures now (authIPLockKey fn ip) (attempts st))"
    using assms(2) unfolding failuresSince_def ipFailures_def
    by (intro filter_length_mono) (auto simp: inWindow_def)
  with assms key show ?thesis by (simp add: authIsIPLocked_def authIPLoginLimit_def Let_def)
qed

lemma network_cap:
  assumes "normalizeEmail k = k"
  shows "guess_cap (loginStep fn) db_ok (networkAllowed t0) (networkGuess fn k) (failuresSince t0 k) 25"
proof
  fix st st' and e :: login and a
  assume db: "db_ok st" and al: "networkAllowed t0 e" and step: "loginStep fn e st = (a, st')"
  obtain now v ip check where e: "e = (now, v, ip, check)" by (cases e)
  have w: "inWindow t0 now" using al by (auto simp: networkAllowed_def e)
  note rec = failuresSince_record [OF w]
  show "db_ok st' \<and> failuresSince t0 k st \<le> failuresSince t0 k st'"
    using step db
    by (auto simp: loginStep_def e checkedLogin_def rec split: if_splits credentialCheck.splits)
  show "failuresSince t0 k st < 25 \<and> failuresSince t0 k st < failuresSince t0 k st'"
    if "networkGuess fn k e a"
    using step that db network_unlocked [of st t0 now ip fn] assms w
    by (auto simp: loginStep_def e checkedLogin_def rec networkGuess_def split: if_splits credentialCheck.splits)
qed


lemma normal_key:
  assumes "\<forall>c \<in> set s. \<not> space_byte c \<and> \<not> is_upper c" "is_ascii s"
  shows "normalizeEmail s = s"
proof -
  obtain l r where lr: "s = l @ trim_space s @ r" "\<forall>c \<in> set l \<union> set r. space_byte c"
    by (rule trim_space_removes)
  have "l = []" "r = []"
    using lr assms(1) by (metis UnCI append_is_Nil_conv hd_in_set set_append)+
  with lr(1) have "trim_space s = s" by simp
  moreover have "to_lower s = s"
    using assms by (simp add: to_lower_ascii) (simp add: map_idI lowc_def)
  ultimately show ?thesis by (simp add: normalizeEmail_def)
qed

lemma mfaLockKey_normal: "normalizeEmail (mfaLockKey n) = mfaLockKey n"
proof (rule normal_key)
  have key: "\<forall>c \<in> set ''mfa:'' \<union> set digitChars. \<not> space_byte c \<and> \<not> is_upper c \<and> byte c < 128"
    by (simp add: space_byte_def ascii_space_def is_upper_def byte_def digitChars_def)
  moreover have "set (mfaLockKey n) \<subseteq> set ''mfa:'' \<union> set digitChars"
    unfolding mfaLockKey_def set_append using decimal_digits [of n] by blast
  ultimately show "\<forall>c \<in> set (mfaLockKey n). \<not> space_byte c \<and> \<not> is_upper c" "is_ascii (mfaLockKey n)"
    unfolding is_ascii_def by blast+
qed

section \<open>Properties\<close>

text \<open>Dropping old rows never changes a lockout: after any recordings in time order, with the
  sweep running as it does, both locks decide as if every row ever written were still there.\<close>

theorem sweeps_change_no_lock:
  assumes "sorted (map fst es)" and "\<forall>e \<in> set es. fst e \<le> now"
  shows "isAccountLocked now email (recordAll es emptyStore)
       = isAccountLocked now email (emptyStore\<lparr>attempts := unswept es\<rparr>)
     \<and> authIsIPLocked fn now ip (recordAll es emptyStore)
       = authIsIPLocked fn now ip (emptyStore\<lparr>attempts := unswept es\<rparr>)"
proof -
  have "db_ok emptyStore" by (simp add: emptyStore_def)
  from recordAll_recent [OF this assms]
  have "db_ok (recordAll es emptyStore)"
    and "recent (sqlNow now) (attempts (recordAll es emptyStore)) = recent (sqlNow now) (unswept es)"
    by (simp_all add: emptyStore_def)
  then show ?thesis
    using accountFailures_recent [of now] ipFailures_recent [of now]
    by (simp add: isAccountLocked_def authIsIPLocked_def Let_def emptyStore_def) metis
qed

text \<open>C35: An account's password can be guessed at most five times in a window of fifteen minutes in
  which nobody signs in to it, however the guesses vary the letter case and spaces of the
  address, change their network, and mix with logins to other accounts.\<close>

theorem account_guesses_capped:
  assumes "db_ok st" and "afterLastSuccess (attempts st) k t0"
    and "\<forall>(now, loginValue, ip, check) \<in> set es. t0 \<le> sqlNow now \<and> sqlNow now < t0 + 900
           \<and> (normalizeEmail loginValue = k \<longrightarrow> check \<noteq> RightPassword)"
  shows "length (filter (\<lambda>((now, loginValue, ip, check), answer).
           normalizeEmail loginValue = k \<and> answer = InvalidCredentials) (answersOf (loginStep fn) es st)) \<le> 5"
proof -
  have "length (filter (\<lambda>(e, a). accountGuess k e a) (answersOf (loginStep fn) es st)) \<le> 5 - failuresSince t0 k st"
    using assms by (intro account.guesses_left)
      (auto simp: accountInv_def accountAllowed_def inWindow_def)
  then show ?thesis by (simp add: accountGuess_def case_prod_beta')
qed

text \<open>One network gets at most twenty-five wrong logins in fifteen minutes, whatever accounts
  it sprays and whatever successes fall between them.\<close>

theorem network_guesses_capped:
  assumes "db_ok st" and "normalizeEmail k = k"
    and "\<forall>e \<in> set es. t0 \<le> sqlNow (fst e) \<and> sqlNow (fst e) < t0 + 900"
  shows "length (filter (\<lambda>((now, loginValue, ip, check), answer). trim_space ip \<noteq> [] \<and> authIPLockKey fn ip = k
           \<and> answer = InvalidCredentials) (answersOf (loginStep fn) es st)) \<le> 25"
proof -
  have "length (filter (\<lambda>(e, a). networkGuess fn k e a) (answersOf (loginStep fn) es st)) \<le> 25 - failuresSince t0 k st"
    using assms by (intro guess_cap.guesses_left [OF network_cap])
      (auto simp: networkAllowed_def inWindow_def)
  then show ?thesis by (simp add: networkGuess_def case_prod_beta')
qed


theorem sweeps_change_no_lock_witness:
  "isAccountLocked 1000000000 ''a'' (recordAll [(0, ''A'', False), (5, ''a '', True)] emptyStore)
     = isAccountLocked 1000000000 ''a'' (emptyStore\<lparr>attempts := unswept [(0, ''A'', False), (5, ''a '', True)]\<rparr>)"
  by (rule sweeps_change_no_lock [THEN conjunct1]) simp_all

theorem account_guesses_capped_witness:
  "length (filter (\<lambda>((now, loginValue, ip, check), answer).
     normalizeEmail loginValue = ''a'' \<and> answer = InvalidCredentials)
     (answersOf (loginStep demoNet) [(0, ''A'', ''1'', WrongPassword), (7, ''a'', ''1'', WrongPassword)] emptyStore)) \<le> 5"
  by (rule account_guesses_capped [where ?t0.0 = 0])
    (simp_all add: emptyStore_def afterLastSuccess_def nanos_def)

theorem network_guesses_capped_witness:
  "length (filter (\<lambda>((now, loginValue, ip, check), answer). trim_space ip \<noteq> [] \<and>
     authIPLockKey demoNet ip = ''k'' \<and> answer = InvalidCredentials)
     (answersOf (loginStep demoNet) [(0, ''A'', ''1'', WrongPassword), (7, ''b'', ''1'', WrongPassword)] emptyStore)) \<le> 25"
  by (rule network_guesses_capped [where ?t0.0 = 0])
    (simp_all add: emptyStore_def nanos_def normal_key go_simps)

lemma failures_locked:
  assumes "db_ok st" "\<forall>a \<in> set (attempts st). \<not> success a"
    and "5 \<le> failuresSince (sqlNow now) (normalizeEmail v) st"
  shows "isAccountLocked now v st"
proof -
  have "failuresSince (sqlNow now) (normalizeEmail v) st
      \<le> length (accountFailures now (normalizeEmail v) (attempts st))"
    using assms(2) unfolding failuresSince_def accountFailures_def afterLastSuccess_def
    by (intro filter_length_mono) (auto simp: list_all_iff)
  with assms show ?thesis by (simp add: isAccountLocked_def)
qed

lemma length_sweep: "length (attempts (sweepLoginAttempts now st)) \<le> length (attempts st)"
  by (auto simp: sweepLoginAttempts_def split: option.split)

lemma length_record: "length (attempts (recordLoginAttempt now email ok st)) \<le> Suc (length (attempts st))"
  using length_sweep [of now st]
    length_sweep [of now "st\<lparr>attempts := \<lparr>a_email = normalizeEmail email, attempted_at = sqlNow now, success = ok\<rparr> # attempts st\<rparr>"]
  by (simp add: recordLoginAttempt_def)

lemma wrong_logins:
  fixes fn :: "'ip netFns" and v ip :: string and now :: int and j :: nat
  defines "run \<equiv> \<lambda>j. ((\<lambda>st. snd (checkedLogin fn now v ip NoAccount st)) ^^ j) emptyStore"
  assumes "j \<le> 5"
  shows "isAccountLocked now v (run j) \<or>
     (db_ok (run j) \<and> (\<forall>a \<in> set (attempts (run j)). \<not> success a) \<and>
      length (attempts (run j)) \<le> 2 * j \<and> j \<le> failuresSince (sqlNow now) (normalizeEmail v) (run j))"
  using assms(2)
proof (induction j)
  case 0
  then show ?case by (simp add: run_def emptyStore_def failuresSince_def)
next
  case (Suc j)
  let ?st = "run j"
  have next': "run (Suc j) = snd (checkedLogin fn now v ip NoAccount ?st)" by (simp add: run_def)
  show ?case
  proof (cases "isAccountLocked now v ?st")
    case True
    then show ?thesis by (simp add: next' checkedLogin_def)
  next
    case False
    with Suc have st: "db_ok ?st" "\<forall>a \<in> set (attempts ?st). \<not> success a" "length (attempts ?st) \<le> 2 * j"
      "j \<le> failuresSince (sqlNow now) (normalizeEmail v) ?st" by auto
    have "length (ipFailures now key (attempts ?st)) < 25" for key
      using st(3) Suc.prems unfolding ipFailures_def
      by (intro le_less_trans [OF length_filter_le]) simp
    then have "\<not> authIsIPLocked fn now ip ?st" by (simp add: authIsIPLocked_def authIPLoginLimit_def Let_def not_le)
    with False have eq: "run (Suc j) = recordLoginAttempt now (authIPLockKey fn ip) False (recordLoginAttempt now v False ?st)"
      by (simp add: next' checkedLogin_def)
    have w: "inWindow (sqlNow now) now" by (simp add: inWindow_def)
    show ?thesis
      unfolding eq using st failuresSince_record [OF w] length_record [of now v False ?st]
        length_record [of now "authIPLockKey fn ip" False "recordLoginAttempt now v False ?st"]
      by (auto dest!: set_record)
  qed
qed

text \<open>The keys of the attempts table are not separate name spaces: the login takes any text as
  the account's name, so five anonymous wrong logins with the text \<open>mfa:n\<close> lock the second
  factor of user \<open>n\<close>.\<close>

theorem mfa_lock_by_login:
  "isAccountLocked now (mfaLockKey n)
     (((\<lambda>st. snd (checkedLogin fn now (mfaLockKey n) ip NoAccount st)) ^^ 5) emptyStore)"
  using wrong_logins [of 5 now "mfaLockKey n" fn ip] failures_locked by (auto simp: mfaLockKey_normal)

text \<open>A domain gate admits only addresses of its domains: an address it lets pass with no
  exact-address list is one local part, one at sign and one of the listed domains.\<close>

theorem domain_gate_exact:
  assumes "emailMatchesGate runesOk email domainRaw allowRaw = EmailAllowed"
    and "trim_space domainRaw \<noteq> []" and "trim_space allowRaw = []"
  shows "\<exists>local_part d. d \<in> set (gateDomains (trim_space domainRaw)) \<and> local_part \<noteq> [] \<and>
     to_lower (trim_space email) = local_part @ ''@'' @ d \<and> CHR ''@'' \<notin> set local_part \<union> set d"
proof -
  let ?e = "to_lower (trim_space email)"
  have valid: "validAuthEmail runesOk ?e" and "list_ex (\<lambda>d. suffix (CHR ''@'' # d) ?e) (gateDomains (trim_space domainRaw))"
    using assms by (auto simp: emailMatchesGate_def Let_def split: if_splits)
  then obtain d l where d: "d \<in> set (gateDomains (trim_space domainRaw))" and e: "?e = l @ CHR ''@'' # d"
    by (auto simp: list_ex_iff suffix_def)
  have "length (filter ((=) CHR ''@'') ?e) = 1" "hd ?e \<noteq> CHR ''@''"
    using valid by (auto simp: validAuthEmail_def split: if_splits)
  then have "filter ((=) CHR ''@'') l = []" "filter ((=) CHR ''@'') d = []" "l \<noteq> []"
    unfolding e by auto
  with d e show ?thesis by (auto simp: filter_empty_conv)
qed

theorem domain_gate_exact_witness:
  "CHR ''@'' \<notin> set ''b.c'' \<and> (\<exists>local_part d. d \<in> set (gateDomains (trim_space ''b.c'')) \<and> local_part \<noteq> [] \<and>
     to_lower (trim_space ''a@b.c'') = local_part @ ''@'' @ d \<and> CHR ''@'' \<notin> set local_part \<union> set d)"
proof -
  have trim: "trim_space ''b.c'' = ''b.c''" "trim_space ''a@b.c'' = ''a@b.c''" "trim_space [] = []"
    by (simp_all add: go_simps)
  have "emailMatchesGate (\<lambda>_. True) ''a@b.c'' ''b.c'' [] = EmailAllowed"
    by (simp add: emailMatchesGate_def trim validAuthEmail_def gateDomains_def trim_prefix_def
        suffix_to_prefix to_lower_def case_map.simps lowc_def is_upper_def byte_def)
  from domain_gate_exact [OF this] show ?thesis by (simp add: trim)
qed

end
