(* ===== verification/Go_Time.thy ===== *)
theory Go_Time
  imports Go_Base
begin

text \<open>
  The part of Go's package \<open>time\<close> the sources use on UTC times: parsing with the layouts they
  name, the calendar date and the ISO week of a time, and their texts. A time is the number of
  nanoseconds since the start of 1970.
\<close>

section \<open>The calendar\<close>

definition isLeap :: "int \<Rightarrow> bool" where
  "isLeap y \<longleftrightarrow> y mod 4 = 0 \<and> (y mod 100 \<noteq> 0 \<or> y mod 400 = 0)"

definition daysIn :: "int \<Rightarrow> int \<Rightarrow> int" where
  "daysIn m y = (if m = 2 then (if isLeap y then 29 else 28) else if m \<in> {4, 6, 9, 11} then 30 else 31)"

text \<open>Days from the start of year 0 to the start of a year.\<close>

definition daysBefore :: "int \<Rightarrow> int" where
  "daysBefore y = 365 * y + (y - 1) div 4 - (y - 1) div 100 + (y - 1) div 400 + 1"

definition yearDays :: "int \<Rightarrow> int" where
  "yearDays y = (if isLeap y then 366 else 365)"

definition monthList :: "int list" where "monthList = [1, 2, 3, 4, 5, 6, 7, 8, 9, 10, 11, 12]"

definition dayNumber :: "int \<Rightarrow> int \<Rightarrow> int \<Rightarrow> int" where
  "dayNumber y m d = daysBefore y + sum_list (map (\<lambda>k. daysIn k y) (takeWhile (\<lambda>k. k < m) monthList)) + d - 1"

text \<open>The year and the date of a day counted from the start of year 0.\<close>

function yearFrom :: "int \<Rightarrow> int \<Rightarrow> int" where
  "yearFrom n y = (if daysBefore (y + 1) \<le> n then yearFrom n (y + 1) else y)"
  by pat_completeness auto

lemma div_pred: "0 < k \<Longrightarrow> (y - 1) div k = y div k - (if y mod k = 0 then 1 else 0)" for k y :: int
proof -
  assume k: "0 < k"
  have "(y - 1) div k = (k * (y div k) + (y mod k - 1)) div k"
    by (metis add_diff_eq mult_div_mod_eq)
  also have "\<dots> = y div k + (y mod k - 1) div k" using k by (intro div_mult_self4) simp
  also have "(y mod k - 1) div k = - (if y mod k = 0 then 1 else 0)"
    using k pos_mod_sign [OF k, of y] pos_mod_bound [OF k, of y]
    by (auto simp: div_eq_minus1 intro!: div_pos_pos_trivial)
  finally show ?thesis by simp
qed

lemma daysBefore_Suc: "daysBefore (y + 1) = daysBefore y + yearDays y"
proof -
  have "y mod 400 = 0 \<Longrightarrow> y mod 100 = 0" "y mod 100 = 0 \<Longrightarrow> y mod 4 = 0" by presburger+
  then show ?thesis by (auto simp: daysBefore_def yearDays_def isLeap_def div_pred)
qed

lemma daysBefore_mono: "y \<le> z \<Longrightarrow> daysBefore y + 365 * (z - y) \<le> daysBefore z"
proof (induction "nat (z - y)" arbitrary: z)
  case (Suc n)
  then have "n = nat (z - 1 - y)" "y \<le> z - 1" by simp_all
  from Suc.hyps(1) [OF this] show ?case
    using daysBefore_Suc [of "z - 1"] by (auto simp: yearDays_def split: if_splits)
qed simp

termination yearFrom
proof (relation "measure (\<lambda>(n, y). nat (n - daysBefore y))")
  show "((n, y + 1), n, y) \<in> measure (\<lambda>(n, y). nat (n - daysBefore y))"
    if "daysBefore (y + 1) \<le> n" for n y
    using that daysBefore_mono [of y "y + 1"] by simp
qed simp

declare yearFrom.simps [simp del]

definition yearOf :: "int \<Rightarrow> int" where
  "yearOf n = yearFrom n (n div 366 - 1)"

primrec monthOf :: "int list \<Rightarrow> int \<Rightarrow> int \<Rightarrow> int \<times> int" where
  "monthOf [] y rest = (12, rest + 1)"
| "monthOf (m # ms) y rest = (if rest < daysIn m y then (m, rest + 1) else monthOf ms y (rest - daysIn m y))"

definition dateOf :: "int \<Rightarrow> int \<times> int \<times> int" where
  "dateOf n = (let y = yearOf n; (m, d) = monthOf monthList y (n - daysBefore y) in (y, m, d))"

lemma yearFrom_bounds:
  "daysBefore y \<le> n \<Longrightarrow> daysBefore (yearFrom n y) \<le> n \<and> n < daysBefore (yearFrom n y + 1)"
  by (induction n y rule: yearFrom.induct) (subst (1 2) yearFrom.simps, auto)

lemma daysBefore_le: "daysBefore (int y) \<le> 366 * int y"
proof (induction y)
  case (Suc y)
  then show ?case
    using daysBefore_Suc [of "int y"] by (auto simp: yearDays_def add.commute split: if_splits)
qed (simp add: daysBefore_def)

lemma yearOf_bounds:
  assumes "0 \<le> n"
  shows "daysBefore (yearOf n) \<le> n \<and> n < daysBefore (yearOf n + 1)"
proof -
  have "daysBefore (n div 366 - 1) \<le> n"
  proof (cases "n < 366")
    case True
    with assms have "n div 366 = 0" by simp
    with assms show ?thesis by (simp add: daysBefore_def)
  next
    case False
    then have "0 \<le> n div 366 - 1" by (simp add: pos_imp_zdiv_pos_iff) 
    then have "daysBefore (n div 366 - 1) \<le> 366 * (n div 366 - 1)"
      using daysBefore_le [of "nat (n div 366 - 1)"] by simp
    also have "\<dots> \<le> n" by simp
    finally show ?thesis .
  qed
  then show ?thesis unfolding yearOf_def by (rule yearFrom_bounds)
qed

lemma yearOf_eq:
  assumes "0 \<le> n" "daysBefore y \<le> n" "n < daysBefore (y + 1)"
  shows "yearOf n = y"
proof (rule ccontr)
  assume "yearOf n \<noteq> y"
  then consider "yearOf n + 1 \<le> y" | "y + 1 \<le> yearOf n" by linarith
  then show False
    using yearOf_bounds [OF assms(1)] assms(2,3) daysBefore_mono by cases fastforce+
qed

lemma daysIn_pos: "28 \<le> daysIn k y"
  by (simp add: daysIn_def)

lemma days_before_month:
  "m \<in> set ms \<Longrightarrow> sorted_wrt (<) ms \<Longrightarrow> 1 \<le> d \<Longrightarrow> d \<le> daysIn m y \<Longrightarrow>
   let r = sum_list (map (\<lambda>k. daysIn k y) (takeWhile (\<lambda>k. k < m) ms)) + d - 1 in
   0 \<le> r \<and> r < sum_list (map (\<lambda>k. daysIn k y) ms) \<and> monthOf ms y r = (m, d)"
proof (induction ms)
  case (Cons a ms)
  have pos: "0 \<le> sum_list (map (\<lambda>k. daysIn k y) xs)" for xs
    using daysIn_pos by (intro sum_list_nonneg) (auto intro: order_trans [of 0 28])
  show ?case
  proof (cases "a = m")
    case True
    with Cons.prems pos [of ms] show ?thesis by (simp add: Let_def)
  next
    case False
    with Cons.prems have m: "m \<in> set ms" "sorted_wrt (<) ms" "a < m" by auto
    from Cons.IH [OF m(1,2) Cons.prems(3,4)] daysIn_pos [of a y] m(3) show ?thesis
      by (auto simp: Let_def algebra_simps)
  qed
qed simp

lemma dateOf_dayNumber:
  assumes "0 \<le> y" "m \<in> set monthList" "1 \<le> d" "d \<le> daysIn m y"
  shows "dateOf (dayNumber y m d) = (y, m, d)"
proof -
  have year: "sum_list (map (\<lambda>k. daysIn k y) monthList) = yearDays y"
    by (simp add: monthList_def daysIn_def yearDays_def)
  have "sorted_wrt (<) monthList" by (simp add: monthList_def)
  from days_before_month [OF assms(2) this assms(3,4)]
  have month: "0 \<le> dayNumber y m d - daysBefore y \<and> dayNumber y m d - daysBefore y < yearDays y \<and>
     monthOf monthList y (dayNumber y m d - daysBefore y) = (m, d)"
    by (simp add: Let_def dayNumber_def year add_diff_eq)
  moreover have "0 \<le> daysBefore y" using daysBefore_mono [of 0 y] assms(1) by (simp add: daysBefore_def)
  ultimately have "yearOf (dayNumber y m d) = y"
    by (intro yearOf_eq) (auto simp: daysBefore_Suc)
  with month show ?thesis by (simp add: dateOf_def Let_def)
qed

section \<open>Times\<close>

definition nsPerSecond :: int where "nsPerSecond = 1000000000"

definition nsPerHour :: int where "nsPerHour = 3600 * nsPerSecond"

definition nsPerDay :: int where "nsPerDay = 24 * nsPerHour"

definition unixEpochDay :: int where "unixEpochDay = 719528"

definition timeOf :: "int \<Rightarrow> int \<Rightarrow> int \<Rightarrow> int \<Rightarrow> int \<Rightarrow> int \<Rightarrow> int \<Rightarrow> int" where
  "timeOf y m d h mi s ns =
     (((dayNumber y m d - unixEpochDay) * 24 + h) * 60 + mi) * 60 * nsPerSecond + s * nsPerSecond + ns"

text \<open>\<open>Sub\<close> gives the largest or smallest duration when the difference is out of range.\<close>

definition timeSub :: "int \<Rightarrow> int \<Rightarrow> int" where
  "timeSub a b = max (- (2 ^ 63)) (min (2 ^ 63 - 1) (a - b))"

definition dayOf :: "int \<Rightarrow> int" where
  "dayOf t = t div nsPerDay + unixEpochDay"

definition padded :: "nat \<Rightarrow> int \<Rightarrow> string" where
  "padded w n = (if n < 0 then CHR ''-'' # replicate (w - 1 - length (decimal (nat (- n)))) CHR ''0'' @ decimal (nat (- n))
     else replicate (w - length (decimal (nat n))) CHR ''0'' @ decimal (nat n))"

text \<open>\<open>Format("2006-01-02")\<close>, and \<open>ISOWeek\<close>: the week's year and number are those of its
  Thursday.\<close>

definition formatDate :: "int \<Rightarrow> string" where
  "formatDate t = (case dateOf (dayOf t) of (y, m, d) \<Rightarrow> padded 4 y @ ''-'' @ padded 2 m @ ''-'' @ padded 2 d)"

definition weekday :: "int \<Rightarrow> int" where
  "weekday t = (t div nsPerDay + 4) mod 7"

definition isoWeek :: "int \<Rightarrow> int \<times> int" where
  "isoWeek t =
     (let d = (if weekday t = 0 then - 3 else 4 - weekday t);
          thursday = dayOf t + d;
          y = yearOf thursday
      in (y, (thursday - daysBefore y) div 7 + 1))"

section \<open>Parsing\<close>

text \<open>The elements of the layouts used.\<close>

datatype layoutItem =
    LongYear | ZeroMonth | ZeroDay | Hour24 | ZeroMinute | ZeroSecond | Literal char

record parsed =
  p_year :: int
  p_month :: int
  p_day :: int
  p_hour :: int
  p_min :: int
  p_sec :: int
  p_nsec :: int

definition digitVal :: "char \<Rightarrow> int" where "digitVal c = int (byte c) - 48"

definition number :: "string \<Rightarrow> int" where
  "number ds = foldl (\<lambda>n c. 10 * n + digitVal c) 0 ds"

text \<open>\<open>getnum\<close>: one or two digits, two when \<open>fixed\<close>.\<close>

fun getnum :: "string \<Rightarrow> bool \<Rightarrow> (int \<times> string) option" where
  "getnum [] fixed = None"
| "getnum [a] fixed = (if is_digit a \<and> \<not> fixed then Some (digitVal a, []) else None)"
| "getnum (a # b # r) fixed =
     (if \<not> is_digit a then None
      else if \<not> is_digit b then (if fixed then None else Some (digitVal a, b # r))
      else Some (10 * digitVal a + digitVal b, r))"

text \<open>A fraction after the seconds is accepted although no layout has one.\<close>

definition fraction :: "string \<Rightarrow> int \<times> string" where
  "fraction v =
     (if 2 \<le> length v \<and> (hd v = CHR ''.'' \<or> hd v = CHR '','') \<and> is_digit (v ! 1) then
        (let ds = takeWhile is_digit (tl v); used = take 9 ds
         in (number used * 10 ^ (9 - length used), drop (length ds) (tl v)))
      else (0, v))"

definition ranged :: "(int \<times> string) option \<Rightarrow> int \<Rightarrow> int \<Rightarrow> (int \<times> string) option" where
  "ranged r lo hi = (case r of Some (n, v) \<Rightarrow> if lo \<le> n \<and> n \<le> hi then Some (n, v) else None | None \<Rightarrow> None)"

fun parseItem :: "layoutItem \<Rightarrow> string \<Rightarrow> parsed \<Rightarrow> (parsed \<times> string) option" where
  "parseItem LongYear v p =
     (if 4 \<le> length v \<and> list_all is_digit (take 4 v) then Some (p\<lparr>p_year := number (take 4 v)\<rparr>, drop 4 v) else None)"
| "parseItem ZeroMonth v p = map_option (\<lambda>(n, r). (p\<lparr>p_month := n\<rparr>, r)) (ranged (getnum v True) 1 12)"
| "parseItem ZeroDay v p = map_option (\<lambda>(n, r). (p\<lparr>p_day := n\<rparr>, r)) (getnum v True)"
| "parseItem Hour24 v p = map_option (\<lambda>(n, r). (p\<lparr>p_hour := n\<rparr>, r)) (ranged (getnum v False) 0 23)"
| "parseItem ZeroMinute v p = map_option (\<lambda>(n, r). (p\<lparr>p_min := n\<rparr>, r)) (ranged (getnum v True) 0 59)"
| "parseItem ZeroSecond v p = (case ranged (getnum v True) 0 59 of
      None \<Rightarrow> None
    | Some (n, r) \<Rightarrow> (case fraction r of (f, r') \<Rightarrow> Some (p\<lparr>p_sec := n, p_nsec := f\<rparr>, r')))"
| "parseItem (Literal c) v p = (if v \<noteq> [] \<and> hd v = c then Some (p, tl v) else None)"

fun parseItems :: "layoutItem list \<Rightarrow> string \<Rightarrow> parsed \<Rightarrow> parsed option" where
  "parseItems [] v p = (if v = [] then Some p else None)"
| "parseItems (i # is) v p = (case parseItem i v p of None \<Rightarrow> None | Some (p', r) \<Rightarrow> parseItems is r p')"

definition parseTime :: "layoutItem list \<Rightarrow> string \<Rightarrow> int option" where
  "parseTime layout v =
     (case parseItems layout v \<lparr>p_year = 0, p_month = 1, p_day = 1, p_hour = 0, p_min = 0, p_sec = 0, p_nsec = 0\<rparr> of
        None \<Rightarrow> None
      | Some p \<Rightarrow>
          if p_day p < 1 \<or> daysIn (p_month p) (p_year p) < p_day p then None
          else Some (timeOf (p_year p) (p_month p) (p_day p) (p_hour p) (p_min p) (p_sec p) (p_nsec p)))"

text \<open>The layouts \<^verbatim>\<open>20060102T150405Z\<close>, \<^verbatim>\<open>20060102-150405\<close> and \<^verbatim>\<open>2006-01-02-15\<close>.\<close>

definition stampLayout :: "layoutItem list" where
  "stampLayout = [LongYear, ZeroMonth, ZeroDay, Literal CHR ''T'', Hour24, ZeroMinute, ZeroSecond, Literal CHR ''Z'']"

definition deployLayout :: "layoutItem list" where
  "deployLayout = [LongYear, ZeroMonth, ZeroDay, Literal CHR ''-'', Hour24, ZeroMinute, ZeroSecond]"

definition hourLayout :: "layoutItem list" where
  "hourLayout = [LongYear, Literal CHR ''-'', ZeroMonth, Literal CHR ''-'', ZeroDay, Literal CHR ''-'', Hour24]"

lemma unixEpochDay_date: "unixEpochDay = dayNumber 1970 1 1"
  by (simp add: unixEpochDay_def dayNumber_def daysBefore_def monthList_def)

end
