(* ===== verification/Backup_Retention.thy ===== *)
theory Backup_Retention
  imports Go_Time "HOL-Library.AList" "HOL-Library.List_Lexorder" "HOL-Library.Char_ord"
begin

text \<open>
  Backup objects: which of them a point-in-time restore reads (\<^verbatim>\<open>wal_pitr_plan.go\<close>) and which
  of them the retention sweep deletes (\<^verbatim>\<open>backup_retention.go\<close>). Both parse the same object
  keys. A Go map is an association list with distinct keys; the loops over maps only add to a
  set or to a list that is sorted afterwards, so their order does not matter. \<open>sort.Strings\<close> is
  \<open>sort\<close> on strings as lists of bytes.
\<close>

section \<open>Keys\<close>

text \<open>\<open>path.Base\<close> and \<open>strconv.ParseInt(s, 10, 64)\<close>.\<close>

definition pathBase :: "string \<Rightarrow> string" where
  "pathBase p =
     (if p = [] then ''.''
      else let q = rev (dropWhile (\<lambda>c. c = CHR ''/'') (rev p));
               e = rev (takeWhile (\<lambda>c. c \<noteq> CHR ''/'') (rev q))
           in if e = [] then ''/'' else e)"

definition parseInt64 :: "string \<Rightarrow> int option" where
  "parseInt64 s =
     (let neg = (s \<noteq> [] \<and> hd s = CHR ''-'');
          ds = (if s \<noteq> [] \<and> (hd s = CHR ''-'' \<or> hd s = CHR ''+'') then tl s else s)
      in if ds = [] \<or> \<not> list_all is_digit ds then None
      else if neg then (if number ds \<le> 2 ^ 63 then Some (- number ds) else None)
      else (if number ds < 2 ^ 63 then Some (number ds) else None))"

definition parseWALSnapshotKey :: "string \<Rightarrow> string \<Rightarrow> (string \<times> int) option" where
  "parseWALSnapshotKey key sub =
     (let pre = sub @ ''/litestream/'' in
      if \<not> prefix pre key \<or> pathBase key \<noteq> ''snapshot.db.gz'' then None
      else let parts = split_at CHR ''/'' (trim_prefix key pre) in
        if length parts \<noteq> 2 then None
        else map_option (\<lambda>t. (parts ! 0, t)) (parseTime stampLayout (parts ! 0)))"

definition parseWALSegmentKey :: "string \<Rightarrow> string \<Rightarrow> (string \<times> int) option" where
  "parseWALSegmentKey key sub =
     (let pre = sub @ ''/litestream/'' in
      if \<not> prefix pre key \<or> \<not> suffix ''.wal.gz'' key then None
      else let parts = split_at CHR ''/'' (trim_prefix key pre) in
        if length parts \<noteq> 3 \<or> parts ! 1 \<noteq> ''wal'' then None
        else let fields = split_at CHR ''-'' (trim_suffix (parts ! 2) ''.wal.gz'') in
          if length fields < 3 then None
          else map_option (\<lambda>t. (parts ! 0, t)) (parseTime stampLayout (last fields)))"

definition walSegmentSeq :: "string \<Rightarrow> int option" where
  "walSegmentSeq key =
     (let fields = split_at CHR ''-'' (trim_suffix (pathBase key) ''.wal.gz'') in
      if length fields < 3 then None else parseInt64 (fields ! 0))"

text \<open>The error is the position of the first bad key and whether its number parsed.\<close>

datatype walError = WalUnparseable string | WalGap int int string

fun assertContiguousFrom :: "int \<Rightarrow> string list \<Rightarrow> walError option" where
  "assertContiguousFrom i [] = None"
| "assertContiguousFrom i (key # keys) =
     (case walSegmentSeq key of
        None \<Rightarrow> Some (WalUnparseable key)
      | Some n \<Rightarrow> if n \<noteq> i + 1 then Some (WalGap (i + 1) n key) else assertContiguousFrom (i + 1) keys)"

definition assertContiguousWALSegments :: "string list \<Rightarrow> walError option" where
  "assertContiguousWALSegments keys = assertContiguousFrom 0 keys"

definition parseLitestreamKey :: "string \<Rightarrow> (string \<times> string \<times> int) option" where
  "parseLitestreamKey key =
     (let parts = split_at CHR ''/'' key in
      if length parts < 4 \<or> parts ! 1 \<noteq> ''litestream'' then None
      else let sub = parts ! 0; gen = parts ! 2 in
        if length parts = 4 \<and> parts ! 3 = ''snapshot.db.gz'' then
          map_option (\<lambda>t. (sub, gen, t)) (parseTime stampLayout gen)
        else if length parts = 5 \<and> parts ! 3 = ''wal'' \<and> suffix ''.wal.gz'' (parts ! 4) then
          (let fields = split_at CHR ''-'' (trim_suffix (parts ! 4) ''.wal.gz'') in
           if length fields < 3 then None
           else map_option (\<lambda>t. (sub, gen, t)) (parseTime stampLayout (last fields)))
        else None)"

definition parseBackupSnapshotKey :: "string \<Rightarrow> (string \<times> int \<times> bool) option" where
  "parseBackupSnapshotKey key =
     (let parts = split_at CHR ''/'' key in
      if length parts \<noteq> 2 \<or> parts ! 0 = [] \<or> \<not> suffix ''.db.gz'' (parts ! 1) then None
      else let name = trim_suffix (parts ! 1) ''.db.gz'' in
        if prefix ''pre-deploy-'' name then
          map_option (\<lambda>t. (parts ! 0, t, True)) (parseTime deployLayout (trim_prefix name ''pre-deploy-''))
        else map_option (\<lambda>t. (parts ! 0, t, False)) (parseTime hourLayout name))"

section \<open>The restore plan\<close>

record walSnapshot =
  ws_gen :: string
  ws_key :: string
  ws_ts :: int

record walPITRPlan =
  Generation :: string
  SnapshotKey :: string
  SegmentKeys :: "string list"

definition walSnapshots :: "string list \<Rightarrow> string \<Rightarrow> int \<Rightarrow> walSnapshot list" where
  "walSnapshots objs sub asOf = List.map_filter (\<lambda>key. case parseWALSnapshotKey key sub of
      Some (gen, ts) \<Rightarrow> if asOf < ts then None else Some \<lparr>ws_gen = gen, ws_key = key, ws_ts = ts\<rparr>
    | None \<Rightarrow> None) objs"

definition walSegments :: "string list \<Rightarrow> string \<Rightarrow> string \<Rightarrow> int \<Rightarrow> string list" where
  "walSegments objs sub gen asOf = filter (\<lambda>key. case parseWALSegmentKey key sub of
      Some (g, ts) \<Rightarrow> g = gen \<and> \<not> asOf < ts
    | None \<Rightarrow> False) objs"

text \<open>\<open>sortSlice\<close> is \<open>sort.Slice\<close> with the comparison of the time stamps, latest first; it does not
  say which of two equal ones comes first.\<close>

definition chooseWALPITRPlan ::
    "(walSnapshot list \<Rightarrow> walSnapshot list) \<Rightarrow> string list \<Rightarrow> string \<Rightarrow> int \<Rightarrow> walPITRPlan option" where
  "chooseWALPITRPlan sortSlice objs sub asOf =
     (let snapshots = walSnapshots objs sub asOf in
      if snapshots = [] then None
      else let pick = hd (sortSlice snapshots) in
        Some \<lparr>Generation = ws_gen pick, SnapshotKey = ws_key pick,
              SegmentKeys = sort (walSegments objs sub (ws_gen pick) asOf)\<rparr>)"

section \<open>Retention of snapshots\<close>

record snap =
  s_key :: string
  s_sub :: string
  s_t :: int
  s_preDeploy :: bool

type_synonym picks = "(string \<times> snap) list"

record retention =
  kept :: "string list"
  newest :: picks
  daily :: picks
  weekly :: picks

definition putNewer :: "string \<Rightarrow> snap \<Rightarrow> picks \<Rightarrow> picks" where
  "putNewer b s m = (case map_of m b of
      None \<Rightarrow> AList.update b s m
    | Some prev \<Rightarrow> if s_t prev < s_t s then AList.update b s m else m)"

definition dayBucket :: "snap \<Rightarrow> string" where
  "dayBucket s = s_sub s @ '':'' @ formatDate (s_t s)"

definition weekBucket :: "snap \<Rightarrow> string" where
  "weekBucket s = (case isoWeek (s_t s) of (year, week) \<Rightarrow> s_sub s @ '':'' @ padded 4 year @ ''-W'' @ padded 2 week)"

definition snapStep :: "int \<Rightarrow> snap \<Rightarrow> retention \<Rightarrow> retention" where
  "snapStep now s st0 =
     (let st = st0\<lparr>newest := putNewer (s_sub s) s (newest st0)\<rparr>; age = timeSub now (s_t s) in
      if age < 0 then st\<lparr>kept := s_key s # kept st\<rparr>
      else if s_preDeploy s then
        (if age \<le> 7 * 24 * nsPerHour then st\<lparr>kept := s_key s # kept st\<rparr> else st)
      else if age \<le> 24 * nsPerHour then st\<lparr>kept := s_key s # kept st\<rparr>
      else if age \<le> 7 * 24 * nsPerHour then st\<lparr>daily := putNewer (dayBucket s) s (daily st)\<rparr>
      else if age \<le> 30 * 24 * nsPerHour then st\<lparr>weekly := putNewer (weekBucket s) s (weekly st)\<rparr>
      else st)"

definition backupSnaps :: "string list \<Rightarrow> snap list" where
  "backupSnaps objs = List.map_filter (\<lambda>key. map_option (\<lambda>(sub, ts, preDeploy).
      \<lparr>s_key = key, s_sub = sub, s_t = ts, s_preDeploy = preDeploy\<rparr>) (parseBackupSnapshotKey key)) objs"

definition keepKeys :: "retention \<Rightarrow> (string \<Rightarrow> bool) \<Rightarrow> string list" where
  "keepKeys st active = kept st
     @ map (s_key \<circ> snd) (filter (\<lambda>(_, s). active (s_sub s)) (newest st))
     @ map (s_key \<circ> snd) (daily st) @ map (s_key \<circ> snd) (weekly st)"

definition retentionKeysToDeleteForApps ::
    "string list \<Rightarrow> int \<Rightarrow> (string \<Rightarrow> bool) option \<Rightarrow> string list" where
  "retentionKeysToDeleteForApps objs now active =
     (case active of
        None \<Rightarrow> []
      | Some act \<Rightarrow>
          let snaps = backupSnaps objs;
              st = fold (snapStep now) snaps \<lparr>kept = [], newest = [], daily = [], weekly = []\<rparr>
          in sort (map s_key (filter (\<lambda>s. s_key s \<notin> set (keepKeys st act)) snaps)))"

section \<open>Retention of generations\<close>

record generation =
  g_ts :: int
  g_keys :: "string list"

record litestream =
  gens :: "(string \<times> generation) list"
  bySub :: "(string \<times> string list) list"

definition genId :: "string \<Rightarrow> string \<Rightarrow> string" where
  "genId sub gen = sub @ CHR 0x00 # gen"

definition genStep :: "string \<Rightarrow> litestream \<Rightarrow> litestream" where
  "genStep key st =
     (case parseLitestreamKey key of
        None \<Rightarrow> st
      | Some (sub, gen, ts) \<Rightarrow>
          let i = genId sub gen in
          (case map_of (gens st) i of
             None \<Rightarrow> st\<lparr>gens := AList.update i \<lparr>g_ts = ts, g_keys = [key]\<rparr> (gens st),
                        bySub := AList.update sub ((case map_of (bySub st) sub of Some l \<Rightarrow> l | None \<Rightarrow> []) @ [i]) (bySub st)\<rparr>
           | Some g \<Rightarrow> st\<lparr>gens := AList.update i \<lparr>g_ts = (if g_ts g < ts then ts else g_ts g),
                                               g_keys = g_keys g @ [key]\<rparr> (gens st)\<rparr>))"

definition genTs :: "litestream \<Rightarrow> string \<Rightarrow> int" where
  "genTs st i = (case map_of (gens st) i of Some g \<Rightarrow> g_ts g | None \<Rightarrow> 0)"

definition bestGen :: "litestream \<Rightarrow> string list \<Rightarrow> string" where
  "bestGen st ids = foldl (\<lambda>best i. if best = [] \<or> genTs st best < genTs st i then i else best) [] ids"

definition litestreamKeysToDelete :: "string list \<Rightarrow> int \<Rightarrow> int \<Rightarrow> string list" where
  "litestreamKeysToDelete objs now window =
     (let st = fold genStep objs \<lparr>gens = [], bySub = []\<rparr>;
          newestGen = map (\<lambda>(sub, ids). (sub, bestGen st ids)) (bySub st)
      in sort (concat (map (\<lambda>(i, g).
           let sub = takeWhile (\<lambda>c. c \<noteq> CHR 0x00) i in
           if map_of newestGen sub = Some i then []
           else if timeSub now (g_ts g) \<le> window then []
           else g_keys g) (gens st))))"

text \<open>\<open>time.Duration(n) * time.Hour\<close> wraps around at 64 bits.\<close>

definition pitrRetentionWindow :: "string \<Rightarrow> int" where
  "pitrRetentionWindow raw =
     (case (if raw = [] then None else parseInt64 raw) of
        Some n \<Rightarrow> if 0 < n then wrap64 (n * nsPerHour) else 7 * 24 * nsPerHour
      | None \<Rightarrow> 7 * 24 * nsPerHour)"

section \<open>The sweep\<close>

datatype sweepError =
    NoInventory | InventoryFailed | InventoryUnavailable | ListFailed | RecheckFailed | RecheckUnavailable
  | DeleteFailed string

text \<open>The inventory is asked twice: each time it fails, is unavailable, or is a map. The store
  lists or fails, and fails on some deletes.\<close>

datatype inventoryAnswer = InvError | InvNil | Inv "(string \<times> bool) list"

fun deleteKeys :: "bool \<Rightarrow> (string \<Rightarrow> bool) \<Rightarrow> string list \<Rightarrow> string option \<times> string list" where
  "deleteKeys dryRun fails [] = (None, [])"
| "deleteKeys dryRun fails (key # keys) =
     (if dryRun then deleteKeys dryRun fails keys
      else if fails key then (Some key, [])
      else case deleteKeys dryRun fails keys of (e, ks) \<Rightarrow> (e, key # ks))"

definition runRetentionSweep ::
    "(inventoryAnswer \<times> inventoryAnswer) option \<Rightarrow> string list option \<Rightarrow> (string \<Rightarrow> bool) \<Rightarrow> int \<Rightarrow> bool \<Rightarrow> string
     \<Rightarrow> (nat + sweepError) \<times> string list" where
  "runRetentionSweep inventory listing deleteFails now dryRun windowEnv =
     (case inventory of
        None \<Rightarrow> (Inr NoInventory, [])
      | Some (before, after) \<Rightarrow>
         (case before of
            InvError \<Rightarrow> (Inr InventoryFailed, [])
          | InvNil \<Rightarrow> (Inr InventoryUnavailable, [])
          | Inv b \<Rightarrow>
             (case listing of
                None \<Rightarrow> (Inr ListFailed, [])
              | Some objs \<Rightarrow>
                 (case after of
                    InvError \<Rightarrow> (Inr RecheckFailed, [])
                  | InvNil \<Rightarrow> (Inr RecheckUnavailable, [])
                  | Inv a \<Rightarrow>
                     let active = (\<lambda>sub. (sub, True) \<in> set b \<union> set a);
                         keys = retentionKeysToDeleteForApps objs now (Some active)
                                @ litestreamKeysToDelete objs now (pitrRetentionWindow windowEnv)
                     in case deleteKeys dryRun deleteFails keys of
                          (None, deleted) \<Rightarrow> (Inl (length keys), deleted)
                        | (Some key, deleted) \<Rightarrow> (Inr (DeleteFailed key), deleted)))))"


section \<open>The newest of each bucket\<close>

definition picksOf :: "(snap \<Rightarrow> string) \<Rightarrow> snap list \<Rightarrow> picks" where
  "picksOf f xs = fold (\<lambda>s m. putNewer (f s) s m) xs []"

text \<open>The first of the latest snapshots of a bucket.\<close>

definition firstLatest :: "(snap \<Rightarrow> string) \<Rightarrow> string \<Rightarrow> snap list \<Rightarrow> snap \<Rightarrow> bool" where
  "firstLatest f b xs s \<longleftrightarrow> (\<exists>us vs. xs = us @ s # vs \<and> f s = b \<and>
     (\<forall>u \<in> set us. f u = b \<longrightarrow> s_t u < s_t s) \<and> (\<forall>v \<in> set vs. f v = b \<longrightarrow> s_t v \<le> s_t s))"

lemma map_of_putNewer:
  "map_of (putNewer b s m) = (case map_of m b of
      Some prev \<Rightarrow> if s_t prev < s_t s then (map_of m)(b \<mapsto> s) else map_of m | None \<Rightarrow> (map_of m)(b \<mapsto> s))"
  by (simp add: putNewer_def update_conv' split: option.split)

lemma firstLatest_snoc:
  assumes "firstLatest f b xs s" "f x = b \<longrightarrow> s_t x \<le> s_t s"
  shows "firstLatest f b (xs @ [x]) s"
proof -
  obtain us vs where "xs = us @ s # vs" "f s = b" "\<forall>u \<in> set us. f u = b \<longrightarrow> s_t u < s_t s"
    "\<forall>v \<in> set vs. f v = b \<longrightarrow> s_t v \<le> s_t s"
    using assms(1) by (auto simp: firstLatest_def)
  with assms(2) show ?thesis
    unfolding firstLatest_def by (intro exI [of _ us] exI [of _ "vs @ [x]"]) auto
qed

lemma picksOf_spec:
  "(\<forall>b s. map_of (picksOf f xs) b = Some s \<longrightarrow> firstLatest f b xs s) \<and>
   (\<forall>s \<in> set xs. map_of (picksOf f xs) (f s) \<noteq> None) \<and> distinct (map fst (picksOf f xs))"
proof (induction xs rule: rev_induct)
  case (snoc x xs)
  let ?m = "picksOf f xs"
  have step: "picksOf f (xs @ [x]) = putNewer (f x) x ?m" by (simp add: picksOf_def)
  have latest: "s_t s' \<le> s_t s" if "firstLatest f b xs s" "s' \<in> set xs" "f s' = b" for s s' b
    using that by (fastforce simp: firstLatest_def)
  have new: "firstLatest f (f x) (xs @ [x]) x" if "\<forall>s \<in> set xs. f s = f x \<longrightarrow> s_t s < s_t x"
    using that unfolding firstLatest_def by (intro exI [of _ xs] exI [of _ "[]"]) simp
  show ?case
  proof (intro conjI allI impI ballI)
    fix b s assume s: "map_of (picksOf f (xs @ [x])) b = Some s"
    show "firstLatest f b (xs @ [x]) s"
    proof (cases "map_of ?m (f x)")
      case None
      then have none: "\<forall>s \<in> set xs. f s \<noteq> f x" using snoc.IH by metis
      show ?thesis
      proof (cases "b = f x")
        case True
        with s None new none show ?thesis by (simp add: step map_of_putNewer)
      next
        case False
        with s None snoc.IH show ?thesis
          by (intro firstLatest_snoc) (auto simp: step map_of_putNewer)
      qed
    next
      case (Some prev)
      then have prev: "firstLatest f (f x) xs prev" using snoc.IH by blast
      show ?thesis
      proof (cases "s_t prev < s_t x")
        case True
        with latest [OF prev] have "\<forall>s \<in> set xs. f s = f x \<longrightarrow> s_t s < s_t x" by (meson le_less_trans)
        with True s Some new snoc.IH show ?thesis
          by (cases "b = f x") (auto simp: step map_of_putNewer intro: firstLatest_snoc)
      next
        case False
        with s Some have "map_of ?m b = Some s" "b = f x \<longrightarrow> s = prev"
          by (auto simp: step map_of_putNewer simp del: map_of_eq_Some_iff)
        with snoc.IH False show ?thesis
          by (intro firstLatest_snoc) (auto simp: not_less simp del: map_of_eq_Some_iff)
      qed
    qed
  next
    fix s assume "s \<in> set (xs @ [x])"
    with snoc.IH show "map_of (picksOf f (xs @ [x])) (f s) \<noteq> None"
      by (auto simp: step map_of_putNewer split: option.split)
  next
    show "distinct (map fst (picksOf f (xs @ [x])))"
      using snoc.IH by (auto simp: step putNewer_def distinct_update split: option.split)
  qed
qed (simp add: picksOf_def)

lemma firstLatest_unique:
  assumes "firstLatest f b xs s" "firstLatest f b xs s'"
  shows "s = s'"
proof -
  obtain us vs us' vs' where xs: "xs = us @ s # vs" "xs = us' @ s' # vs'" and b: "f s = b" "f s' = b"
    and le: "\<forall>u \<in> set us. f u = b \<longrightarrow> s_t u < s_t s" "\<forall>v \<in> set vs. f v = b \<longrightarrow> s_t v \<le> s_t s"
      "\<forall>u \<in> set us'. f u = b \<longrightarrow> s_t u < s_t s'" "\<forall>v \<in> set vs'. f v = b \<longrightarrow> s_t v \<le> s_t s'"
    using assms unfolding firstLatest_def by blast
  from xs have "us @ s # vs = us' @ s' # vs'" by simp
  then consider "us = us'" "s = s'" | "s \<in> set us'" "s' \<in> set vs" | "s' \<in> set us" "s \<in> set vs'"
    by (auto simp: append_eq_append_conv2 append_eq_Cons_conv Cons_eq_append_conv)
  then show ?thesis using b le by cases force+
qed

lemma picksOf_iff: "map_of (picksOf f xs) b = Some s \<longleftrightarrow> firstLatest f b xs s"
proof
  assume l: "firstLatest f b xs s"
  then have "s \<in> set xs" "f s = b" by (auto simp: firstLatest_def)
  then obtain s' where "map_of (picksOf f xs) b = Some s'" using picksOf_spec by blast
  with picksOf_spec firstLatest_unique [OF l] show "map_of (picksOf f xs) b = Some s" by blast
qed (use picksOf_spec in blast)

lemma picksOf_set: "(b, s) \<in> set (picksOf f xs) \<longleftrightarrow> firstLatest f b xs s"
  using picksOf_iff picksOf_spec by (metis map_of_eq_Some_iff)

lemma firstLatest_latest:
  "firstLatest f b xs s \<Longrightarrow> s \<in> set xs \<and> f s = b \<and> (\<forall>s' \<in> set xs. f s' = b \<longrightarrow> s_t s' \<le> s_t s)"
  by (fastforce simp: firstLatest_def)

lemma firstLatest_exists: "s \<in> set xs \<Longrightarrow> \<exists>s'. firstLatest f (f s) xs s'"
  using picksOf_spec [of f xs] picksOf_iff by (metis not_None_eq)

lemma firstLatest_filter: "firstLatest f b xs s \<Longrightarrow> P s \<Longrightarrow> firstLatest f b (filter P xs) s"
  unfolding firstLatest_def
  by (elim exE conjE, rule_tac x = "filter P us" in exI, rule_tac x = "filter P vs" in exI) auto

section \<open>What the loop over the snapshots leaves\<close>

definition ageOf :: "int \<Rightarrow> snap \<Rightarrow> int" where
  "ageOf now s = timeSub now (s_t s)"

definition keptByAge :: "int \<Rightarrow> snap \<Rightarrow> bool" where
  "keptByAge now s \<longleftrightarrow> ageOf now s < 0 \<or>
     (if s_preDeploy s then ageOf now s \<le> 7 * 24 * nsPerHour else ageOf now s \<le> 24 * nsPerHour)"

definition keptDaily :: "int \<Rightarrow> snap \<Rightarrow> bool" where
  "keptDaily now s \<longleftrightarrow> \<not> keptByAge now s \<and> \<not> s_preDeploy s \<and> ageOf now s \<le> 7 * 24 * nsPerHour"

definition keptWeekly :: "int \<Rightarrow> snap \<Rightarrow> bool" where
  "keptWeekly now s \<longleftrightarrow> \<not> keptByAge now s \<and> \<not> keptDaily now s \<and> \<not> s_preDeploy s \<and> ageOf now s \<le> 30 * 24 * nsPerHour"

lemma snapStep_apply:
  "snapStep now x \<lparr>kept = k, newest = n, daily = d, weekly = w\<rparr> =
     \<lparr>kept = (if keptByAge now x then s_key x # k else k), newest = putNewer (s_sub x) x n,
      daily = (if keptDaily now x then putNewer (dayBucket x) x d else d),
      weekly = (if keptWeekly now x then putNewer (weekBucket x) x w else w)\<rparr>"
proof -
  have h: "0 < nsPerHour" by (simp add: nsPerHour_def nsPerSecond_def)
  then show ?thesis
    by (auto simp: snapStep_def Let_def keptByAge_def keptDaily_def keptWeekly_def ageOf_def)
qed

lemma fold_snapStep:
  "fold (snapStep now) xs \<lparr>kept = [], newest = [], daily = [], weekly = []\<rparr> =
     \<lparr>kept = rev (map s_key (filter (keptByAge now) xs)), newest = picksOf s_sub xs,
      daily = picksOf dayBucket (filter (keptDaily now) xs), weekly = picksOf weekBucket (filter (keptWeekly now) xs)\<rparr>"
  by (induction xs rule: rev_induct) (simp_all add: picksOf_def snapStep_apply)

text \<open>A snapshot is kept for its age, as the newest of an active app, or as the newest of its day or
  week.\<close>

definition isKept :: "int \<Rightarrow> (string \<Rightarrow> bool) \<Rightarrow> snap list \<Rightarrow> snap \<Rightarrow> bool" where
  "isKept now active xs s \<longleftrightarrow> keptByAge now s \<and> s \<in> set xs
     \<or> active (s_sub s) \<and> firstLatest s_sub (s_sub s) xs s
     \<or> firstLatest dayBucket (dayBucket s) (filter (keptDaily now) xs) s
     \<or> firstLatest weekBucket (weekBucket s) (filter (keptWeekly now) xs) s"

lemma isKept_in: "isKept now active xs s \<Longrightarrow> s \<in> set xs"
  by (auto simp: isKept_def dest: firstLatest_latest)

lemma keepKeys_iff:
  "k \<in> set (keepKeys (fold (snapStep now) xs \<lparr>kept = [], newest = [], daily = [], weekly = []\<rparr>) active)
   \<longleftrightarrow> (\<exists>s. s_key s = k \<and> isKept now active xs s)"
proof -
  have *: "k \<in> set (map (s_key \<circ> snd) (filter Q (picksOf f ys))) \<longleftrightarrow>
      (\<exists>s. s_key s = k \<and> Q (f s, s) \<and> firstLatest f (f s) ys s)" for f Q ys
  proof -
    have "set (picksOf f ys) = {(f s, s) | s. firstLatest f (f s) ys s}"
      by (auto simp: picksOf_set) (use firstLatest_latest in blast)+
    then show ?thesis by (auto simp: image_iff)
  qed
  have **: "k \<in> set (map (s_key \<circ> snd) (picksOf f ys)) \<longleftrightarrow>
      (\<exists>s. s_key s = k \<and> firstLatest f (f s) ys s)" for f ys
    using * [of "\<lambda>_. True"] by simp
  show ?thesis
    unfolding fold_snapStep keepKeys_def isKept_def retention.simps set_append Un_iff * ** by auto
qed

lemma backupSnaps_key:
  "s \<in> set (backupSnaps objs) \<longleftrightarrow> s_key s \<in> set objs \<and>
   parseBackupSnapshotKey (s_key s) = Some (s_sub s, s_t s, s_preDeploy s)"
  by (cases s) (auto simp: backupSnaps_def List.map_filter_def image_iff)

lemma backupSnaps_inj: "s \<in> set (backupSnaps objs) \<Longrightarrow> s' \<in> set (backupSnaps objs) \<Longrightarrow> s_key s = s_key s' \<Longrightarrow> s = s'"
  by (cases s; cases s') (auto simp: backupSnaps_key)

lemma deleted_iff:
  "k \<in> set (retentionKeysToDeleteForApps objs now (Some active)) \<longleftrightarrow>
   (\<exists>s \<in> set (backupSnaps objs). s_key s = k \<and> \<not> isKept now active (backupSnaps objs) s)"
proof -
  have "k \<in> set (retentionKeysToDeleteForApps objs now (Some active)) \<longleftrightarrow>
    (\<exists>s \<in> set (backupSnaps objs). s_key s = k \<and> \<not> (\<exists>s'. s_key s' = k \<and> isKept now active (backupSnaps objs) s'))"
    by (auto simp: retentionKeysToDeleteForApps_def Let_def keepKeys_iff)
  then show ?thesis using isKept_in backupSnaps_inj by metis
qed

lemma not_deleted:
  "isKept now active (backupSnaps objs) s \<Longrightarrow> s_key s \<notin> set (retentionKeysToDeleteForApps objs now (Some active))"
  using deleted_iff isKept_in backupSnaps_inj by metis

lemma backupSnaps_filter: "backupSnaps (filter P objs) = filter (P \<circ> s_key) (backupSnaps objs)"
  by (induction objs) (auto simp: backupSnaps_def List.map_filter_def)

lemma retention_twice:
  "retentionKeysToDeleteForApps
     (filter (\<lambda>k. k \<notin> set (retentionKeysToDeleteForApps objs now (Some active))) objs) now (Some active) = []"
proof -
  let ?del = "set (retentionKeysToDeleteForApps objs now (Some active))"
  let ?xs = "backupSnaps objs" and ?P = "\<lambda>s. s_key s \<notin> ?del"
  have ys: "backupSnaps (filter (\<lambda>k. k \<notin> ?del) objs) = filter ?P ?xs"
    by (simp add: backupSnaps_filter comp_def)
  have "isKept now active (filter ?P ?xs) s" if "s \<in> set (filter ?P ?xs)" for s
  proof -
    from that have s: "s \<in> set ?xs" "?P s" by auto
    then have "isKept now active ?xs s" using deleted_iff by blast
    with s show ?thesis
      unfolding isKept_def
      by (auto simp: filter_filter [of _ ?P] conj_commute simp flip: filter_filter intro: firstLatest_filter)
  qed
  then have "set (retentionKeysToDeleteForApps (filter (\<lambda>k. k \<notin> ?del) objs) now (Some active)) = {}"
    using deleted_iff ys by (metis (no_types, lifting) equals0I)
  then show ?thesis by simp
qed


text \<open>Buckets do not mix apps: the text after the last colon is the date or the week.\<close>

lemma last_colon:
  assumes "a @ CHR '':'' # d = b @ CHR '':'' # e" "CHR '':'' \<notin> set d" "CHR '':'' \<notin> set e"
  shows "a = b \<and> d = e"
proof -
  have "takeWhile (\<lambda>c. c \<noteq> CHR '':'') (rev x @ CHR '':'' # y) = rev x" if "CHR '':'' \<notin> set x" for x y
    using that by (subst takeWhile_append2) auto
  from this [OF assms(2), of "rev a"] this [OF assms(3), of "rev b"] arg_cong [OF assms(1), of rev]
  have "rev d = rev e" by simp
  with assms(1) show ?thesis by simp
qed

lemma padded_no_colon: "CHR '':'' \<notin> set (padded w n)"
proof -
  have "CHR '':'' \<notin> set digitChars" by (simp add: digitChars_def)
  then have "CHR '':'' \<notin> set (decimal m)" for m using decimal_digits [of m] by blast
  then show ?thesis by (auto simp: padded_def)
qed

lemma colon_bucket:
  "CHR '':'' \<notin> set d \<Longrightarrow> CHR '':'' \<notin> set e \<Longrightarrow> a @ '':'' @ d = b @ '':'' @ e \<longleftrightarrow> a = b \<and> d = e"
  using last_colon [of a d b e] by auto

lemma formatDate_no_colon: "CHR '':'' \<notin> set (formatDate t)"
  using padded_no_colon by (simp add: formatDate_def split: prod.split)

definition weekText :: "int \<Rightarrow> string" where
  "weekText t = padded 4 (fst (isoWeek t)) @ ''-W'' @ padded 2 (snd (isoWeek t))"

lemma weekText_no_colon: "CHR '':'' \<notin> set (weekText t)"
  using padded_no_colon by (simp add: weekText_def)

lemma weekBucket_text: "weekBucket s = s_sub s @ '':'' @ weekText (s_t s)"
  by (simp add: weekBucket_def weekText_def split: prod.split)

lemma dayBucket_eq: "dayBucket s = dayBucket s' \<longleftrightarrow> s_sub s = s_sub s' \<and> formatDate (s_t s) = formatDate (s_t s')"
  unfolding dayBucket_def by (rule colon_bucket) (rule formatDate_no_colon)+

lemma weekBucket_eq: "weekBucket s = weekBucket s' \<longleftrightarrow> s_sub s = s_sub s' \<and> weekText (s_t s) = weekText (s_t s')"
  unfolding weekBucket_text by (rule colon_bucket) (rule weekText_no_colon)+

lemma kept_newest:
  assumes "s \<in> set (backupSnaps objs)" "active (s_sub s)"
  shows "\<exists>s' \<in> set (backupSnaps objs). s_sub s' = s_sub s \<and> s_t s \<le> s_t s' \<and> isKept now active (backupSnaps objs) s'"
proof -
  obtain s' where "firstLatest s_sub (s_sub s) (backupSnaps objs) s'" using firstLatest_exists [OF assms(1)] by blast
  with assms firstLatest_latest [OF this] show ?thesis by (auto simp: isKept_def)
qed

lemma kept_bucket:
  assumes "s \<in> set (backupSnaps objs)"
  shows "keptDaily now s \<Longrightarrow> \<exists>s' \<in> set (backupSnaps objs). dayBucket s' = dayBucket s \<and> s_t s \<le> s_t s'
      \<and> isKept now active (backupSnaps objs) s'"
    and "keptWeekly now s \<Longrightarrow> \<exists>s' \<in> set (backupSnaps objs). weekBucket s' = weekBucket s \<and> s_t s \<le> s_t s'
      \<and> isKept now active (backupSnaps objs) s'"
proof -
  let ?xs = "backupSnaps objs"
  show "\<exists>s' \<in> set ?xs. dayBucket s' = dayBucket s \<and> s_t s \<le> s_t s' \<and> isKept now active ?xs s'" if "keptDaily now s"
  proof -
    from assms that have "s \<in> set (filter (keptDaily now) ?xs)" by simp
    from firstLatest_exists [OF this, of dayBucket] obtain s'
      where l: "firstLatest dayBucket (dayBucket s) (filter (keptDaily now) ?xs) s'" by blast
    with firstLatest_latest [OF l] assms that show ?thesis by (auto simp: isKept_def)
  qed
  show "\<exists>s' \<in> set ?xs. weekBucket s' = weekBucket s \<and> s_t s \<le> s_t s' \<and> isKept now active ?xs s'" if "keptWeekly now s"
  proof -
    from assms that have "s \<in> set (filter (keptWeekly now) ?xs)" by simp
    from firstLatest_exists [OF this, of weekBucket] obtain s'
      where l: "firstLatest weekBucket (weekBucket s) (filter (keptWeekly now) ?xs) s'" by blast
    with firstLatest_latest [OF l] assms that show ?thesis by (auto simp: isKept_def)
  qed
qed

section \<open>What the loop over the generations leaves\<close>

definition genKeys :: "string list \<Rightarrow> string \<Rightarrow> string list" where
  "genKeys objs i = filter (\<lambda>k. case parseLitestreamKey k of Some (sub, gen, _) \<Rightarrow> genId sub gen = i | None \<Rightarrow> False) objs"

definition stampOf :: "string \<Rightarrow> int" where
  "stampOf k = (case parseLitestreamKey k of Some (_, _, ts) \<Rightarrow> ts | None \<Rightarrow> 0)"

definition litestreamOf :: "string list \<Rightarrow> litestream" where
  "litestreamOf objs = fold genStep objs \<lparr>gens = [], bySub = []\<rparr>"

definition subIds :: "litestream \<Rightarrow> string \<Rightarrow> string list" where
  "subIds st sub = (case map_of (bySub st) sub of Some l \<Rightarrow> l | None \<Rightarrow> [])"

lemma litestreamOf_snoc: "litestreamOf (objs @ [key]) = genStep key (litestreamOf objs)"
  by (simp add: litestreamOf_def)

text \<open>A generation's entry: its keys in the order of the listing, and the latest of their stamps.\<close>

definition latestStamp :: "string list \<Rightarrow> int" where
  "latestStamp ks = foldl (\<lambda>m k. if m < stampOf k then stampOf k else m) (stampOf (hd ks)) (tl ks)"

definition genEntry :: "string list \<Rightarrow> string \<Rightarrow> generation option" where
  "genEntry objs i = (let ks = genKeys objs i in
     if ks = [] then None else Some \<lparr>g_ts = latestStamp ks, g_keys = ks\<rparr>)"

lemma latestStamp_snoc:
  "ks \<noteq> [] \<Longrightarrow> latestStamp (ks @ [k]) = (if latestStamp ks < stampOf k then stampOf k else latestStamp ks)"
  by (cases ks) (simp_all add: latestStamp_def)

lemma latestStamp_max:
  "ks \<noteq> [] \<Longrightarrow> (\<forall>k \<in> set ks. stampOf k \<le> latestStamp ks) \<and> (\<exists>k \<in> set ks. stampOf k = latestStamp ks)"
proof (induction ks rule: rev_nonempty_induct)
  case (snoc k ks)
  then show ?case by (auto simp: latestStamp_snoc intro: less_imp_le order_trans)
qed (simp add: latestStamp_def)

lemma genKeys_snoc:
  "genKeys (objs @ [key]) i = genKeys objs i @
     (case parseLitestreamKey key of Some (sub, gen, _) \<Rightarrow> if genId sub gen = i then [key] else [] | None \<Rightarrow> [])"
  by (simp add: genKeys_def split: option.split)

lemma gens_entry: "map_of (gens (litestreamOf objs)) i = genEntry objs i"
proof (induction objs arbitrary: i rule: rev_induct)
  case Nil
  then show ?case by (simp add: litestreamOf_def genEntry_def genKeys_def Let_def)
next
  case (snoc key objs)
  let ?st = "litestreamOf objs"
  show ?case
  proof (cases "parseLitestreamKey key")
    case None
    with snoc.IH [of i] show ?thesis
      by (simp add: litestreamOf_snoc genStep_def genEntry_def genKeys_snoc)
  next
    case (Some p)
    obtain sub gen ts where p: "parseLitestreamKey key = Some (sub, gen, ts)" using Some by (cases p) auto
    have ts: "stampOf key = ts" by (simp add: stampOf_def p)
    show ?thesis
    proof (cases "map_of (gens ?st) (genId sub gen)")
      case None
      with snoc.IH [of "genId sub gen"] have "genKeys objs (genId sub gen) = []"
        by (simp add: genEntry_def Let_def split: if_splits)
      with None snoc.IH [of i] ts show ?thesis
        by (simp add: litestreamOf_snoc genStep_def p Let_def update_conv' genEntry_def genKeys_snoc latestStamp_def)
    next
      case (Some g)
      with snoc.IH [of "genId sub gen"] have "genKeys objs (genId sub gen) \<noteq> []"
        "g = \<lparr>g_ts = latestStamp (genKeys objs (genId sub gen)), g_keys = genKeys objs (genId sub gen)\<rparr>"
        by (auto simp: genEntry_def Let_def split: if_splits)
      with Some snoc.IH [of i] ts show ?thesis
        by (simp add: litestreamOf_snoc genStep_def p Let_def update_conv' genEntry_def genKeys_snoc latestStamp_snoc)
    qed
  qed
qed

lemma gens_distinct: "distinct (map fst (gens (litestreamOf objs))) \<and> distinct (map fst (bySub (litestreamOf objs)))"
proof (induction objs rule: rev_induct)
  case (snoc key objs)
  then show ?case
    by (auto simp: litestreamOf_snoc genStep_def Let_def distinct_update split: option.split)
qed (simp add: litestreamOf_def)

lemma split_at_set: "w \<in> set (split_at d s) \<Longrightarrow> set w \<subseteq> set s"
  by (induction d s arbitrary: w rule: split_at.induct) (fastforce split: list.splits if_splits)+

lemma litestream_sub:
  "parseLitestreamKey k = Some (sub, gen, ts) \<Longrightarrow> set sub \<subseteq> set k"
proof -
  assume "parseLitestreamKey k = Some (sub, gen, ts)"
  then have "sub = split_at CHR ''/'' k ! 0" "0 < length (split_at CHR ''/'' k)"
    by (auto simp: parseLitestreamKey_def Let_def split: if_splits)
  then show ?thesis using split_at_set nth_mem by metis
qed

lemma genId_inj:
  "genId sub gen = genId sub' gen' \<Longrightarrow> CHR 0x00 \<notin> set sub \<Longrightarrow> CHR 0x00 \<notin> set sub' \<Longrightarrow> sub = sub' \<and> gen = gen'"
proof -
  assume a: "genId sub gen = genId sub' gen'" "CHR 0x00 \<notin> set sub" "CHR 0x00 \<notin> set sub'"
  have "takeWhile (\<lambda>c. c \<noteq> CHR 0x00) (genId x y) = x" if "CHR 0x00 \<notin> set x" for x y
    using that unfolding genId_def by (subst takeWhile_append2) auto
  with a have "sub = sub'" by metis
  with a(1) show ?thesis by (simp add: genId_def)
qed

lemma subIds_parsed:
  assumes "\<forall>k \<in> set objs. CHR 0x00 \<notin> set k"
  shows "set (subIds (litestreamOf objs) sub) =
     {genId sub gen | gen. \<exists>k \<in> set objs. \<exists>ts. parseLitestreamKey k = Some (sub, gen, ts)}"
  using assms
proof (induction objs rule: rev_induct)
  case Nil
  then show ?case by (simp add: litestreamOf_def subIds_def)
next
  case (snoc key objs)
  let ?st = "litestreamOf objs"
  have IH: "set (subIds ?st sub) = {genId sub gen | gen. \<exists>k \<in> set objs. \<exists>ts. parseLitestreamKey k = Some (sub, gen, ts)}"
    using snoc by simp
  show ?case
  proof (cases "parseLitestreamKey key")
    case None
    with IH show ?thesis by (auto simp: litestreamOf_snoc genStep_def)
  next
    case (Some p)
    obtain s g ts where p: "parseLitestreamKey key = Some (s, g, ts)" using Some by (cases p) auto
    show ?thesis
    proof (cases "map_of (gens ?st) (genId s g)")
      case None
      have "subIds (litestreamOf (objs @ [key])) sub = (if sub = s then subIds ?st s @ [genId s g] else subIds ?st sub)"
        by (simp add: litestreamOf_snoc genStep_def p None Let_def subIds_def update_conv')
      with IH p show ?thesis by (cases "sub = s") (simp_all, blast+)
    next
      case (Some e)
      then have "genKeys objs (genId s g) \<noteq> []"
        using gens_entry [of objs "genId s g"] by (auto simp: genEntry_def Let_def)
      then obtain k s' g' ts' where k: "k \<in> set objs" "parseLitestreamKey k = Some (s', g', ts')" "genId s' g' = genId s g"
        by (force simp: genKeys_def filter_empty_conv split: option.splits)
      have "CHR 0x00 \<notin> set s'" "CHR 0x00 \<notin> set s"
        using litestream_sub [OF k(2)] litestream_sub [OF p] k(1) snoc.prems by auto
      with k(3) have "s' = s \<and> g' = g" by (rule genId_inj)
      moreover have "subIds (litestreamOf (objs @ [key])) sub = subIds ?st sub"
        by (simp add: litestreamOf_snoc genStep_def p Some Let_def subIds_def)
      ultimately show ?thesis using IH p k by auto
    qed
  qed
qed

lemma bestGen_best:
  assumes "ids \<noteq> []" "[] \<notin> set ids"
  shows "bestGen st ids \<in> set ids \<and> (\<forall>i \<in> set ids. genTs st i \<le> genTs st (bestGen st ids))"
  using assms
proof (induction ids rule: rev_nonempty_induct)
  case (snoc i ids)
  then show ?case by (auto simp: bestGen_def)
qed (simp add: bestGen_def)


lemma genKeys_in: "k \<in> set (genKeys objs i) \<longleftrightarrow> k \<in> set objs \<and>
    (\<exists>sub gen ts. parseLitestreamKey k = Some (sub, gen, ts) \<and> genId sub gen = i)"
  by (auto simp: genKeys_def split: option.splits)

lemma genId_sub: "CHR 0x00 \<notin> set sub \<Longrightarrow> takeWhile (\<lambda>c. c \<noteq> CHR 0x00) (genId sub gen) = sub"
  unfolding genId_def by (subst takeWhile_append2) auto

lemma gens_set: "(i, g) \<in> set (gens (litestreamOf objs)) \<longleftrightarrow> genEntry objs i = Some g"
  using gens_entry [of objs i] gens_distinct [of objs] map_of_eq_Some_iff by metis

text \<open>The newest generation of an app, as the loop finds it.\<close>

definition newestGen :: "string list \<Rightarrow> string \<Rightarrow> string" where
  "newestGen objs sub = bestGen (litestreamOf objs) (subIds (litestreamOf objs) sub)"

lemma lite_deleted_iff:
  assumes nul: "\<forall>k \<in> set objs. CHR 0x00 \<notin> set k"
  shows "k \<in> set (litestreamKeysToDelete objs now window) \<longleftrightarrow> k \<in> set objs \<and>
     (\<exists>sub gen ts. parseLitestreamKey k = Some (sub, gen, ts) \<and> genId sub gen \<noteq> newestGen objs sub \<and>
        window < timeSub now (latestStamp (genKeys objs (genId sub gen))))"
proof -
  let ?st = "litestreamOf objs"
  let ?m = "map (\<lambda>(sub, ids). (sub, bestGen ?st ids)) (bySub ?st)"
  have best: "map_of ?m sub = Some (newestGen objs sub)"
    if "k \<in> set objs" "parseLitestreamKey k = Some (sub, gen, ts)" for k sub gen ts
  proof -
    from subIds_parsed [OF nul, of sub] that have "subIds ?st sub \<noteq> []" by auto
    then obtain ids where "map_of (bySub ?st) sub = Some ids" by (auto simp: subIds_def split: option.splits)
    then show ?thesis by (simp add: map_of_map newestGen_def subIds_def)
  qed
  have if3: "k \<in> set (if a then [] else if b then [] else l) \<longleftrightarrow> \<not> a \<and> \<not> b \<and> k \<in> set l" for a b l
    by simp
  have "k \<in> set (litestreamKeysToDelete objs now window) \<longleftrightarrow>
    (\<exists>x \<in> set (gens ?st). k \<in> set (if map_of ?m (takeWhile (\<lambda>c. c \<noteq> CHR 0x00) (fst x)) = Some (fst x) then []
       else if timeSub now (g_ts (snd x)) \<le> window then [] else g_keys (snd x)))"
    unfolding litestreamKeysToDelete_def Let_def litestreamOf_def [symmetric]
    by (simp only: set_sort set_concat set_map UN_iff image_iff bex_simps case_prod_beta)
  also have "\<dots> \<longleftrightarrow> (\<exists>i g. (i, g) \<in> set (gens ?st) \<and> map_of ?m (takeWhile (\<lambda>c. c \<noteq> CHR 0x00) i) \<noteq> Some i \<and>
       window < timeSub now (g_ts g) \<and> k \<in> set (g_keys g))"
    unfolding if3 Bex_def split_paired_Ex fst_conv snd_conv by (simp only: not_le)
  also have "\<dots> \<longleftrightarrow> (\<exists>i. k \<in> set (genKeys objs i) \<and> map_of ?m (takeWhile (\<lambda>c. c \<noteq> CHR 0x00) i) \<noteq> Some i \<and>
       window < timeSub now (latestStamp (genKeys objs i)))"
    unfolding gens_set by (intro ex_cong1) (auto simp: genEntry_def Let_def)
  also have "\<dots> \<longleftrightarrow> k \<in> set objs \<and>
     (\<exists>sub gen ts. parseLitestreamKey k = Some (sub, gen, ts) \<and> genId sub gen \<noteq> newestGen objs sub \<and>
        window < timeSub now (latestStamp (genKeys objs (genId sub gen))))"
  proof -
    have "takeWhile (\<lambda>c. c \<noteq> CHR 0x00) (genId sub gen) = sub"
      if "k \<in> set objs" "parseLitestreamKey k = Some (sub, gen, ts)" for sub gen ts
      using litestream_sub [OF that(2)] nul that(1) by (intro genId_sub) auto
    with best show ?thesis by (auto simp: genKeys_in)
  qed
  finally show ?thesis .
qed

lemma newestGen_stamp:
  assumes nul: "\<forall>k \<in> set objs. CHR 0x00 \<notin> set k"
    and k: "k \<in> set objs" "parseLitestreamKey k = Some (sub, gen, ts)"
  shows "\<exists>gen2. newestGen objs sub = genId sub gen2 \<and> genKeys objs (genId sub gen2) \<noteq> [] \<and>
     latestStamp (genKeys objs (genId sub gen)) \<le> latestStamp (genKeys objs (genId sub gen2))"
proof -
  let ?st = "litestreamOf objs"
  have ids: "set (subIds ?st sub) = {genId sub gen | gen. \<exists>k \<in> set objs. \<exists>ts. parseLitestreamKey k = Some (sub, gen, ts)}"
    by (rule subIds_parsed [OF nul])
  with k have "subIds ?st sub \<noteq> []" "[] \<notin> set (subIds ?st sub)" "genId sub gen \<in> set (subIds ?st sub)"
    by (auto simp: genId_def)
  from bestGen_best [OF this(1,2), of ?st] this(3)
  have best: "newestGen objs sub \<in> set (subIds ?st sub)" "genTs ?st (genId sub gen) \<le> genTs ?st (newestGen objs sub)"
    by (simp_all add: newestGen_def)
  then obtain gen2 k2 ts2 where g2: "newestGen objs sub = genId sub gen2" "k2 \<in> set objs"
    "parseLitestreamKey k2 = Some (sub, gen2, ts2)" using ids by auto
  have ts: "genTs ?st (genId sub g) = latestStamp (genKeys objs (genId sub g))" if "genKeys objs (genId sub g) \<noteq> []" for g
    using that by (simp add: genTs_def gens_entry genEntry_def Let_def)
  have "k \<in> set (genKeys objs (genId sub gen))" "k2 \<in> set (genKeys objs (genId sub gen2))"
    using k g2 by (auto simp: genKeys_in)
  then have "genKeys objs (genId sub gen) \<noteq> []" "genKeys objs (genId sub gen2) \<noteq> []" by auto
  with best(2) ts g2(1) show ?thesis by metis
qed

section \<open>Plan keys are generation keys\<close>

lemma split_at_prefix: "d \<notin> set a \<Longrightarrow> split_at d (a @ d # s) = a # split_at d s"
  by (induction a) auto


lemma split_at_single: "d \<notin> set s \<Longrightarrow> split_at d s = [s]"
  by (induction s) auto

lemma last_split_at: "last (split_at d (a @ d # f)) = last (split_at d f)"
proof (induction a)
  case (Cons c a)
  obtain x xs where "split_at d (a @ d # f) = x # xs" "xs \<noteq> []"
  proof (cases "split_at d (a @ d # f)")
    case (Cons x xs)
    have "2 \<le> length (split_at d (a @ d # f))"
    proof (induction a)
      case Nil
      show ?case by (cases "split_at d f") auto
    qed (auto split: list.split)
    with Cons that show ?thesis by (cases xs) auto
  qed simp
  with Cons show ?case by auto
qed simp

lemma split_at_last:
  "\<exists>p. s = p @ last (split_at d s) \<and> (p = [] \<or> last p = d)"
proof (cases "d \<in> set s")
  case True
  then obtain a f where s: "s = a @ d # f" "d \<notin> set f" by (metis split_list_last)
  then have "last (split_at d s) = f" by (simp add: last_split_at split_at_single)
  with s show ?thesis by (intro exI [of _ "a @ [d]"]) simp
qed (simp add: split_at_single)

lemma takeWhile_last_part:
  "d \<notin> set f \<Longrightarrow> p = [] \<or> last p = d \<Longrightarrow> takeWhile (\<lambda>c. c \<noteq> d) (rev f @ rev p) = rev f"
proof (cases p rule: rev_cases)
  case (snoc ys y)
  assume "d \<notin> set f" "p = [] \<or> last p = d"
  then show ?thesis using snoc by (auto simp: takeWhile_append2 split: if_splits) (subst takeWhile_append2, auto)
qed (auto simp: takeWhile_eq_all_conv)

lemma pathBase_last:
  assumes "last (split_at CHR ''/'' s) \<noteq> []"
  shows "pathBase s = last (split_at CHR ''/'' s)"
proof -
  let ?f = "last (split_at CHR ''/'' s)"
  obtain p where p: "s = p @ ?f" "p = [] \<or> last p = CHR ''/''" using split_at_last by blast
  have f: "CHR ''/'' \<notin> set ?f" by (rule split_at_no_sep [OF last_in_set]) simp
  have s: "rev s = rev ?f @ rev p" using p(1) by (metis rev_append)
  have "hd (rev s) \<noteq> CHR ''/''" "rev s \<noteq> []"
    using f assms last_in_set [OF assms] unfolding s by (auto simp: hd_rev simp del: last_in_set)
  then have "dropWhile (\<lambda>c. c = CHR ''/'') (rev s) = rev s" by (cases "rev s") auto
  with takeWhile_last_part [OF f p(2)] s show ?thesis
    using assms p(1) by (auto simp: pathBase_def Let_def)
qed

lemma suffix_last_part:
  assumes "suffix w (p @ f)" "d \<notin> set w" "p = [] \<or> last p = d"
  shows "suffix w f"
proof -
  from assms(1) consider "suffix w f" | x where "w = x @ f" "suffix x p"
    by (auto simp: suffix_append)
  then show ?thesis
  proof cases
    case 2
    have "x = []"
    proof (rule ccontr)
      assume "x \<noteq> []"
      with 2(2) have "last x = last p" "p \<noteq> []" by (auto simp: suffix_def)
      with \<open>x \<noteq> []\<close> assms(2,3) 2(1) show False by (metis last_in_set set_append UnI1)
    qed
    with 2 show ?thesis by simp
  qed
qed

lemma split_at_cons:
  "split_at d s = a # xs \<Longrightarrow> xs \<noteq> [] \<Longrightarrow> \<exists>r. s = a @ d # r \<and> split_at d r = xs"
proof (induction s arbitrary: a)
  case (Cons c s)
  show ?case
  proof (cases "c = d")
    case False
    with Cons.prems obtain b where b: "split_at d s = b # xs" "a = c # b" by (auto split: list.splits)
    from Cons.IH [OF b(1) Cons.prems(2)] b(2) show ?thesis by auto
  qed (use Cons.prems in auto)
qed simp

lemma split_at_one: "split_at d s = [a] \<Longrightarrow> s = a"
  by (induction s arbitrary: a) (auto split: if_splits list.splits)

lemma split_at_two: "split_at d s = [a, b] \<Longrightarrow> s = a @ d # b"
  using split_at_cons [of d s a "[b]"] split_at_one by fastforce

lemma pathBase_slash: "w \<noteq> [] \<Longrightarrow> last w \<noteq> CHR ''/'' \<Longrightarrow> pathBase (w @ ''/'') = pathBase w"
  by (cases w rule: rev_cases) (auto simp: pathBase_def Let_def)

lemma plan_key_split:
  assumes "CHR ''/'' \<notin> set sub" "prefix (sub @ ''/litestream/'') key"
  shows "split_at CHR ''/'' key = sub # ''litestream'' # split_at CHR ''/'' (trim_prefix key (sub @ ''/litestream/''))"
proof -
  obtain rest where key: "key = sub @ ''/litestream/'' @ rest" using assms(2) by (auto simp: prefix_def)
  then have "trim_prefix key (sub @ ''/litestream/'') = rest" by (simp add: trim_prefix_def)
  moreover have "split_at CHR ''/'' (''litestream'' @ CHR ''/'' # rest) = ''litestream'' # split_at CHR ''/'' rest"
    by (rule split_at_prefix) simp
  ultimately show ?thesis using split_at_prefix [OF assms(1), of "''litestream'' @ CHR ''/'' # rest"] key by simp
qed

lemma snapshot_generation_key:
  assumes "CHR ''/'' \<notin> set sub" "parseWALSnapshotKey key sub = Some (gen, ts)"
  shows "parseLitestreamKey key = Some (sub, gen, ts)"
proof -
  let ?rest = "trim_prefix key (sub @ ''/litestream/'')"
  from assms(2) have pre: "prefix (sub @ ''/litestream/'') key" and base: "pathBase key = ''snapshot.db.gz''"
    and len: "length (split_at CHR ''/'' ?rest) = 2" and gen: "gen = split_at CHR ''/'' ?rest ! 0"
    and ts: "parseTime stampLayout gen = Some ts"
    by (auto simp: parseWALSnapshotKey_def Let_def split: if_splits)
  then obtain f where rest: "split_at CHR ''/'' ?rest = [gen, f]"
    by (cases "split_at CHR ''/'' ?rest"; cases "tl (split_at CHR ''/'' ?rest)") auto
  note split = plan_key_split [OF assms(1) pre]
  have "f \<noteq> []"
  proof
    assume f: "f = []"
    have genp: "gen \<noteq> []" using ts by (auto simp: parseTime_def stampLayout_def)
    have "CHR ''/'' \<notin> set gen" using split_at_no_sep [of gen "CHR ''/''" ?rest] rest by simp
    have "?rest = gen @ ''/''" using split_at_two [OF rest] f by simp
    then have key: "key = (sub @ ''/litestream/'' @ gen) @ ''/''"
      using pre by (auto simp: prefix_def trim_prefix_def)
    have "last (split_at CHR ''/'' (sub @ ''/litestream/'' @ gen)) = gen"
      using last_split_at [of "CHR ''/''" "sub @ ''/litestream''" gen] split_at_single [OF \<open>CHR ''/'' \<notin> set gen\<close>] by simp
    with genp have "pathBase (sub @ ''/litestream/'' @ gen) = gen" by (simp add: pathBase_last)
    moreover have "last gen \<noteq> CHR ''/''" using genp \<open>CHR ''/'' \<notin> set gen\<close> last_in_set by metis
    ultimately have "pathBase key = gen"
      unfolding key using genp by (subst pathBase_slash) simp_all
    with base ts show False by (simp add: parseTime_def stampLayout_def is_digit_def byte_def)
  qed
  then have "f = ''snapshot.db.gz''"
    using pathBase_last [of key] base by (simp add: split rest)
  with ts show ?thesis by (simp add: parseLitestreamKey_def Let_def split rest)
qed


lemma segment_generation_key:
  assumes "CHR ''/'' \<notin> set sub" "parseWALSegmentKey key sub = Some (gen, ts)"
  shows "parseLitestreamKey key = Some (sub, gen, ts)"
proof -
  let ?rest = "trim_prefix key (sub @ ''/litestream/'')"
  from assms(2) have pre: "prefix (sub @ ''/litestream/'') key" and suf: "suffix ''.wal.gz'' key"
    and len: "length (split_at CHR ''/'' ?rest) = 3" "split_at CHR ''/'' ?rest ! 1 = ''wal''"
    and gen: "gen = split_at CHR ''/'' ?rest ! 0"
    and fields: "\<not> length (split_at CHR ''-'' (trim_suffix (split_at CHR ''/'' ?rest ! 2) ''.wal.gz'')) < 3"
    and ts: "parseTime stampLayout (last (split_at CHR ''-'' (trim_suffix (split_at CHR ''/'' ?rest ! 2) ''.wal.gz''))) = Some ts"
    by (auto simp: parseWALSegmentKey_def Let_def split: if_splits)
  obtain f where rest: "split_at CHR ''/'' ?rest = [gen, ''wal'', f]"
    using len gen by (auto simp: length_Suc_conv numeral_eq_Suc)
  note split = plan_key_split [OF assms(1) pre]
  obtain p where "key = p @ f" "p = [] \<or> last p = CHR ''/''"
    using split_at_last [of key "CHR ''/''"] by (auto simp: split rest)
  then have "suffix ''.wal.gz'' f" using suffix_last_part [of "''.wal.gz''" p f "CHR ''/''"] suf by simp
  with fields ts show ?thesis by (simp add: parseLitestreamKey_def Let_def split rest)
qed


section \<open>The sweep's deletions\<close>

lemma deleteKeys_subset: "deleteKeys dryRun fails keys = (e, deleted) \<Longrightarrow> set deleted \<subseteq> set keys"
  by (induction keys arbitrary: e deleted) (fastforce split: if_splits prod.splits)+

lemma sweep_deleted:
  assumes "runRetentionSweep (Some (Inv b, Inv a)) (Some objs) fails now dry env = (r, deleted)" "k \<in> set deleted"
  shows "k \<in> set (retentionKeysToDeleteForApps objs now (Some (\<lambda>sub. (sub, True) \<in> set b \<union> set a)))
     \<or> k \<in> set (litestreamKeysToDelete objs now (pitrRetentionWindow env))"
proof -
  let ?keys = "retentionKeysToDeleteForApps objs now (Some (\<lambda>sub. (sub, True) \<in> set b \<union> set a))
     @ litestreamKeysToDelete objs now (pitrRetentionWindow env)"
  obtain e d where del: "deleteKeys dry fails ?keys = (e, d)" by (cases "deleteKeys dry fails ?keys")
  with assms(1) have "deleted = d" by (auto simp: runRetentionSweep_def Let_def split: option.splits)
  with deleteKeys_subset [OF del] assms(2) show ?thesis by auto
qed

lemma lite_parsed: "k \<in> set (litestreamKeysToDelete objs now window) \<Longrightarrow> parseLitestreamKey k \<noteq> None"
proof -
  assume "k \<in> set (litestreamKeysToDelete objs now window)"
  then obtain i g where "(i, g) \<in> set (gens (litestreamOf objs))" "k \<in> set (g_keys g)"
    by (auto simp: litestreamKeysToDelete_def Let_def litestreamOf_def split: if_splits)
  then have "k \<in> set (genKeys objs i)" by (auto simp: gens_set genEntry_def Let_def split: if_splits)
  then show ?thesis by (auto simp: genKeys_in)
qed

lemma backup_not_litestream: "parseBackupSnapshotKey k \<noteq> None \<Longrightarrow> parseLitestreamKey k = None"
  by (auto simp: parseBackupSnapshotKey_def parseLitestreamKey_def Let_def split: if_splits)

lemma timeSub_antimono: "a \<le> b \<Longrightarrow> timeSub now b \<le> timeSub now a"
  by (simp add: timeSub_def)

lemma plan_keys_parsed:
  assumes "set (sortSlice (walSnapshots objs sub asOf)) = set (walSnapshots objs sub asOf)" "CHR ''/'' \<notin> set sub"
    and plan: "chooseWALPITRPlan sortSlice objs sub asOf = Some plan"
    and k: "k = SnapshotKey plan \<or> k \<in> set (SegmentKeys plan)"
  shows "k \<in> set objs \<and> (\<exists>ts. parseLitestreamKey k = Some (sub, Generation plan, ts))"
proof -
  let ?ss = "walSnapshots objs sub asOf"
  let ?p = "hd (sortSlice ?ss)"
  from plan have ne: "?ss \<noteq> []" and p: "Generation plan = ws_gen ?p" "SnapshotKey plan = ws_key ?p"
    "set (SegmentKeys plan) = set (walSegments objs sub (ws_gen ?p) asOf)"
    by (auto simp: chooseWALPITRPlan_def Let_def split: if_splits)
  have "sortSlice ?ss \<noteq> []" using ne assms(1) by auto
  then have "?p \<in> set ?ss" using assms(1) hd_in_set by blast
  then have "ws_key ?p \<in> set objs" "\<exists>ts. parseWALSnapshotKey (ws_key ?p) sub = Some (ws_gen ?p, ts)"
    by (auto simp: walSnapshots_def List.map_filter_def split: option.splits if_splits)
  then show ?thesis
    using k p snapshot_generation_key [OF assms(2)] segment_generation_key [OF assms(2)]
    by (auto simp: walSegments_def split: option.splits)
qed

section \<open>Properties\<close>

text \<open>An app that either inventory lists keeps its newest snapshot: whatever snapshot of it is in
  the store, one at least as new is not deleted by the sweep, before-deployment snapshots
  included, and whichever deletes fail.\<close>

theorem sweep_keeps_newest:
  assumes "runRetentionSweep (Some (Inv b, Inv a)) (Some objs) fails now dry env = (r, deleted)"
    and "(sub, True) \<in> set b \<union> set a" and "s \<in> set (backupSnaps objs)" and "s_sub s = sub"
  shows "\<exists>s' \<in> set (backupSnaps objs). s_sub s' = sub \<and> s_t s \<le> s_t s' \<and> s_key s' \<notin> set deleted"
proof -
  let ?active = "\<lambda>sub. (sub, True) \<in> set b \<union> set a"
  obtain s' where s': "s' \<in> set (backupSnaps objs)" "s_sub s' = sub" "s_t s \<le> s_t s'"
    "isKept now ?active (backupSnaps objs) s'"
    using kept_newest [OF assms(3), of ?active] assms(2,4) by auto
  then have "parseLitestreamKey (s_key s') = None" by (simp add: backupSnaps_key backup_not_litestream)
  with s' have "s_key s' \<notin> set deleted"
    using sweep_deleted [OF assms(1)] not_deleted lite_parsed by blast
  with s' show ?thesis by blast
qed

text \<open>What retention deletes is covered by what it leaves: a deleted snapshot is past its age, and
  a snapshot at least as new is left of the same active app, of the same app and day while it
  is at most seven days old, and of the same app and ISO week while it is at most thirty.\<close>

theorem retention_covers:
  assumes "key \<in> set (retentionKeysToDeleteForApps objs now (Some active))"
  shows "\<exists>s \<in> set (backupSnaps objs). s_key s = key \<and>
     (let age = timeSub now (s_t s);
          left = (\<lambda>same. \<exists>s' \<in> set (backupSnaps objs). s_sub s' = s_sub s \<and> same s' \<and> s_t s \<le> s_t s' \<and>
            s_key s' \<notin> set (retentionKeysToDeleteForApps objs now (Some active)))
      in (if s_preDeploy s then 7 * 24 * nsPerHour < age else 24 * nsPerHour < age) \<and>
         (active (s_sub s) \<longrightarrow> left (\<lambda>s'. True)) \<and>
         (\<not> s_preDeploy s \<and> age \<le> 7 * 24 * nsPerHour \<longrightarrow> left (\<lambda>s'. formatDate (s_t s') = formatDate (s_t s))) \<and>
         (\<not> s_preDeploy s \<and> 7 * 24 * nsPerHour < age \<and> age \<le> 30 * 24 * nsPerHour \<longrightarrow>
            left (\<lambda>s'. weekText (s_t s') = weekText (s_t s))))"
proof -
  let ?xs = "backupSnaps objs"
  have h: "0 < nsPerHour" by (simp add: nsPerHour_def nsPerSecond_def)
  obtain s where s: "s \<in> set ?xs" "s_key s = key" "\<not> isKept now active ?xs s" using assms deleted_iff by blast
  then have age: "\<not> keptByAge now s" by (simp add: isKept_def)
  have keep: "s_key s' \<notin> set (retentionKeysToDeleteForApps objs now (Some active))" if "isKept now active ?xs s'" for s'
    using that by (rule not_deleted)
  show ?thesis
    unfolding Let_def
  proof (rule bexI [of _ s], intro conjI impI)
    show "s_key s = key" "s \<in> set ?xs" by fact+
    show "if s_preDeploy s then 7 * 24 * nsPerHour < timeSub now (s_t s) else 24 * nsPerHour < timeSub now (s_t s)"
      using age by (auto simp: keptByAge_def ageOf_def split: if_splits)
    show "\<exists>s' \<in> set ?xs. s_sub s' = s_sub s \<and> True \<and> s_t s \<le> s_t s' \<and>
        s_key s' \<notin> set (retentionKeysToDeleteForApps objs now (Some active))" if "active (s_sub s)"
      using kept_newest [where active = active, OF s(1) that] keep by blast
    show "\<exists>s' \<in> set ?xs. s_sub s' = s_sub s \<and> formatDate (s_t s') = formatDate (s_t s) \<and> s_t s \<le> s_t s' \<and>
        s_key s' \<notin> set (retentionKeysToDeleteForApps objs now (Some active))"
      if "\<not> s_preDeploy s \<and> timeSub now (s_t s) \<le> 7 * 24 * nsPerHour"
    proof -
      have "keptDaily now s" using age that by (simp add: keptDaily_def ageOf_def)
      from kept_bucket(1) [OF s(1) this] keep show ?thesis unfolding dayBucket_eq by blast
    qed
    show "\<exists>s' \<in> set ?xs. s_sub s' = s_sub s \<and> weekText (s_t s') = weekText (s_t s) \<and> s_t s \<le> s_t s' \<and>
        s_key s' \<notin> set (retentionKeysToDeleteForApps objs now (Some active))"
      if "\<not> s_preDeploy s \<and> 7 * 24 * nsPerHour < timeSub now (s_t s) \<and> timeSub now (s_t s) \<le> 30 * 24 * nsPerHour"
    proof -
      have "keptWeekly now s" using age that by (simp add: keptWeekly_def keptDaily_def ageOf_def)
      from kept_bucket(2) [OF s(1) this] keep show ?thesis unfolding weekBucket_eq by blast
    qed
  qed
qed

text \<open>Retention is stable: run again at the same time on what it left, it deletes nothing.\<close>

theorem retention_idempotent:
  "retentionKeysToDeleteForApps
     (filter (\<lambda>k. k \<notin> set (retentionKeysToDeleteForApps objs now (Some active))) objs) now (Some active) = []"
  by (rule retention_twice)

text \<open>Generations are deleted whole and never the newest: when the key of one object of a
  generation is deleted, so is every object of that generation in the store, all of them are
  older than the window, and another generation of the same app with an object at least as new
  as all of them is left whole.\<close>

theorem generations_deleted_whole:
  assumes "\<forall>k \<in> set objs. CHR 0x00 \<notin> set k"
    and "key \<in> set (litestreamKeysToDelete objs now window)"
  shows "\<exists>sub gen gen' new. parseLitestreamKey new = Some (sub, gen', stampOf new) \<and> new \<in> set objs \<and> gen' \<noteq> gen \<and>
     (\<forall>k \<in> set objs. \<forall>ts. parseLitestreamKey k = Some (sub, gen, ts) \<longrightarrow>
        k \<in> set (litestreamKeysToDelete objs now window) \<and> window < timeSub now ts \<and> ts \<le> stampOf new) \<and>
     (\<forall>k \<in> set objs. \<forall>ts. parseLitestreamKey k = Some (sub, gen', ts) \<longrightarrow>
        k \<notin> set (litestreamKeysToDelete objs now window)) \<and>
     (\<exists>ts. parseLitestreamKey key = Some (sub, gen, ts))"
proof -
  note iff = lite_deleted_iff [OF assms(1)]
  from assms(2) obtain sub gen ts where k: "key \<in> set objs" "parseLitestreamKey key = Some (sub, gen, ts)"
    and old: "genId sub gen \<noteq> newestGen objs sub" "window < timeSub now (latestStamp (genKeys objs (genId sub gen)))"
    unfolding iff by blast
  obtain gen' where g: "newestGen objs sub = genId sub gen'" "genKeys objs (genId sub gen') \<noteq> []"
    and le: "latestStamp (genKeys objs (genId sub gen)) \<le> latestStamp (genKeys objs (genId sub gen'))"
    using newestGen_stamp [OF assms(1) k] by blast
  from latestStamp_max [OF g(2)] obtain new where new: "new \<in> set (genKeys objs (genId sub gen'))"
    "stampOf new = latestStamp (genKeys objs (genId sub gen'))" by blast
  then obtain s2 g2 ts2 where n: "new \<in> set objs" "parseLitestreamKey new = Some (s2, g2, ts2)" "genId s2 g2 = genId sub gen'"
    by (auto simp: genKeys_in)
  have "CHR 0x00 \<notin> set sub" "CHR 0x00 \<notin> set s2"
    using litestream_sub [OF k(2)] litestream_sub [OF n(2)] k(1) n(1) assms(1) by auto
  with n(3) genId_inj have sg: "s2 = sub" "g2 = gen'" by blast+
  have in_gen: "ts' \<le> latestStamp (genKeys objs (genId sub gen))"
    if "k' \<in> set objs" "parseLitestreamKey k' = Some (sub, gen, ts')" for k' ts'
  proof -
    have "k' \<in> set (genKeys objs (genId sub gen))" "stampOf k' = ts'" using that by (auto simp: genKeys_in stampOf_def)
    then show ?thesis using latestStamp_max by (metis empty_iff list.set(1))
  qed
  show ?thesis
  proof (intro exI conjI ballI allI impI)
    show "parseLitestreamKey new = Some (sub, gen', stampOf new)" using n(2) sg by (simp add: stampOf_def)
    show "new \<in> set objs" by fact
    show "gen' \<noteq> gen" using old(1) g(1) by auto
    show "parseLitestreamKey key = Some (sub, gen, ts)" by fact
    fix k' ts' assume k': "k' \<in> set objs"
    { assume p: "parseLitestreamKey k' = Some (sub, gen, ts')"
      show "k' \<in> set (litestreamKeysToDelete objs now window)" unfolding iff using k' p old by blast
      show "window < timeSub now ts'"
        using old(2) timeSub_antimono [OF in_gen [OF k' p], of now] by linarith
      show "ts' \<le> stampOf new" using in_gen [OF k' p] le new(2) by linarith }
    { assume "parseLitestreamKey k' = Some (sub, gen', ts')"
      then show "k' \<notin> set (litestreamKeysToDelete objs now window)" unfolding iff using g(1) by auto }
  qed
qed

text \<open>A restore that can be planned stays possible: when the snapshot or a segment of a restore
  plan is within the window, the sweep deletes no object the plan reads. The planner and the
  sweep parse keys on their own; they agree on the plan's keys.\<close>

theorem pitr_plan_survives:
  assumes "chooseWALPITRPlan sortSlice objs sub asOf = Some plan"
    and "\<And>xs. set (sortSlice xs) = set xs" and "CHR ''/'' \<notin> set sub" and "\<forall>k \<in> set objs. CHR 0x00 \<notin> set k"
    and "recent = SnapshotKey plan \<or> recent \<in> set (SegmentKeys plan)"
    and "timeSub now (stampOf recent) \<le> pitrRetentionWindow env"
    and "runRetentionSweep (Some (Inv b, Inv a)) (Some objs) fails now dry env = (r, deleted)"
  shows "SnapshotKey plan \<notin> set deleted \<and> set (SegmentKeys plan) \<inter> set deleted = {}"
proof -
  note parsed = plan_keys_parsed [OF assms(2,3,1)]
  have safe: "k \<notin> set deleted" if k: "k = SnapshotKey plan \<or> k \<in> set (SegmentKeys plan)" for k
  proof
    assume del: "k \<in> set deleted"
    obtain ts where p: "k \<in> set objs" "parseLitestreamKey k = Some (sub, Generation plan, ts)"
      using parsed [OF k] by blast
    have "k \<notin> set (retentionKeysToDeleteForApps objs now (Some active))" for active
      using p(2) backup_not_litestream [of k] by (auto simp: deleted_iff backupSnaps_key)
    with sweep_deleted [OF assms(7) del] have "k \<in> set (litestreamKeysToDelete objs now (pitrRetentionWindow env))" by blast
    then have "pitrRetentionWindow env < timeSub now (latestStamp (genKeys objs (genId sub (Generation plan))))"
      using lite_deleted_iff [OF assms(4)] p(2) by auto
    moreover have "recent \<in> set (genKeys objs (genId sub (Generation plan)))"
      using parsed [OF assms(5)] by (auto simp: genKeys_in)
    then have "stampOf recent \<le> latestStamp (genKeys objs (genId sub (Generation plan)))"
      using latestStamp_max by (metis empty_iff list.set(1))
    ultimately show False using assms(6) timeSub_antimono [of "stampOf recent" _ now] by fastforce
  qed
  then show ?thesis by blast
qed

text \<open>An inventory or a listing that is not known is never a licence to delete: when the sweep
  answers with an error other than a failed delete, nothing has been deleted, and a dry run
  deletes nothing.\<close>

theorem unknown_inventory_deletes_nothing:
  assumes "runRetentionSweep inventory listing fails now dry env = (r, deleted)"
    and "dry \<or> (\<exists>e. r = Inr e \<and> (\<forall>k. e \<noteq> DeleteFailed k))"
  shows "deleted = []"
proof -
  have "deleteKeys True fails keys = (None, [])" for keys by (induction keys) auto
  with assms show ?thesis
    by (auto simp: runRetentionSweep_def Let_def split: option.splits inventoryAnswer.splits prod.splits)
qed

theorem unknown_inventory_deletes_nothing_witness:
  "snd (runRetentionSweep (Some (Inv [], InvNil)) (Some [''a/b'']) (\<lambda>_. False) 0 False []) = []"
proof -
  have "runRetentionSweep (Some (Inv [], InvNil)) (Some [''a/b'']) (\<lambda>_. False) 0 False [] = (Inr RecheckUnavailable, [])"
    by (simp add: runRetentionSweep_def)
  from unknown_inventory_deletes_nothing [OF this] show ?thesis by (simp add: runRetentionSweep_def)
qed

text \<open>The hours of the window are multiplied in 64 bits: a setting of 2562048 hours or a little
  more wraps to a negative window, and then every generation but the newest is deleted.\<close>

theorem pitr_window_wraps:
  "pitrRetentionWindow ''2562048'' < 0 \<and> 0 < pitrRetentionWindow ''2562047''"
proof -
  have n: "number ''2562048'' = 2562048" "number ''2562047'' = 2562047"
    by (simp_all add: number_def digitVal_def byte_def)
  show ?thesis
    by (simp add: pitrRetentionWindow_def parseInt64_def n is_digit_def byte_def wrap64_def nsPerHour_def nsPerSecond_def)
qed

section \<open>Witnesses\<close>

lemmas parse_eval = parseTime_def stampLayout_def hourLayout_def ranged_def number_def digitVal_def
  is_digit_def byte_def daysIn_def fraction_def Let_def trim_suffix_def trim_prefix_def suffix_to_prefix

lemma demo_snaps:
  "backupSnaps [''a/2026-03-15-07.db.gz'', ''a/2026-01-02-03.db.gz''] =
    [\<lparr>s_key = ''a/2026-03-15-07.db.gz'', s_sub = ''a'', s_t = timeOf 2026 3 15 7 0 0 0, s_preDeploy = False\<rparr>,
     \<lparr>s_key = ''a/2026-01-02-03.db.gz'', s_sub = ''a'', s_t = timeOf 2026 1 2 3 0 0 0, s_preDeploy = False\<rparr>]"
  by (simp add: backupSnaps_def List.map_filter_def parseBackupSnapshotKey_def parse_eval) blast?

lemma demo_times:
  "timeOf 2026 3 15 7 0 0 0 = 1773558000000000000" "timeOf 2026 1 2 3 0 0 0 = 1767322800000000000"
  by (simp_all add: timeOf_def dayNumber_def daysBefore_def monthList_def daysIn_def isLeap_def unixEpochDay_def
      nsPerSecond_def)

theorem sweep_keeps_newest_witness:
  "\<exists>s' \<in> set (backupSnaps [''a/2026-03-15-07.db.gz'', ''a/2026-01-02-03.db.gz'']). s_sub s' = ''a'' \<and>
     timeOf 2026 1 2 3 0 0 0 \<le> s_t s' \<and>
     s_key s' \<notin> set (snd (runRetentionSweep (Some (Inv [(''a'', True)], Inv []))
        (Some [''a/2026-03-15-07.db.gz'', ''a/2026-01-02-03.db.gz'']) (\<lambda>_. False) 1793558000000000000 False []))"
  by (rule sweep_keeps_newest [OF surjective_pairing, where
      s = "\<lparr>s_key = ''a/2026-01-02-03.db.gz'', s_sub = ''a'', s_t = timeOf 2026 1 2 3 0 0 0, s_preDeploy = False\<rparr>"
      and b = "[(''a'', True)]", simplified snap.simps])
    (simp_all add: demo_snaps)

theorem retention_covers_witness:
  "\<exists>s \<in> set (backupSnaps [''a/2026-03-15-07.db.gz'', ''a/2026-01-02-03.db.gz'']).
     s_key s = ''a/2026-01-02-03.db.gz'' \<and> 24 * nsPerHour < timeSub 1773558000000000001 (s_t s)"
proof -
  let ?objs = "[''a/2026-03-15-07.db.gz'', ''a/2026-01-02-03.db.gz'']"
  have "''a/2026-01-02-03.db.gz'' \<in> set (retentionKeysToDeleteForApps ?objs 1773558000000000001 (Some (\<lambda>_. True)))"
    by (simp add: retentionKeysToDeleteForApps_def demo_snaps Let_def snapStep_def demo_times timeSub_def
        nsPerHour_def nsPerSecond_def putNewer_def keepKeys_def)
  from retention_covers [OF this] show ?thesis by (auto simp: demo_snaps Let_def)
qed

abbreviation oldGen :: string where "oldGen \<equiv> ''a/litestream/20260102T030000Z/snapshot.db.gz''"
abbreviation newGen :: string where "newGen \<equiv> ''a/litestream/20260315T070000Z/snapshot.db.gz''"

lemma demo_generations:
  "parseLitestreamKey oldGen = Some (''a'', ''20260102T030000Z'', timeOf 2026 1 2 3 0 0 0)"
  "parseLitestreamKey newGen = Some (''a'', ''20260315T070000Z'', timeOf 2026 3 15 7 0 0 0)"
  by (simp_all add: parseLitestreamKey_def parse_eval)

theorem generations_deleted_whole_witness:
  "\<exists>sub gen gen' new. parseLitestreamKey new = Some (sub, gen', stampOf new) \<and> new \<in> set [oldGen, newGen] \<and> gen' \<noteq> gen \<and>
     (\<exists>ts. parseLitestreamKey oldGen = Some (sub, gen, ts))"
proof -
  have nul: "\<forall>k \<in> set [oldGen, newGen]. CHR 0x00 \<notin> set k" by simp
  have "oldGen \<in> set (litestreamKeysToDelete [oldGen, newGen] 1773558000000000001 (7 * 24 * nsPerHour))"
    by (simp add: litestreamKeysToDelete_def genStep_def demo_generations Let_def genId_def bestGen_def genTs_def
        demo_times timeSub_def nsPerHour_def nsPerSecond_def)
  from generations_deleted_whole [OF nul this] show ?thesis
    by (elim exE conjE) (intro exI conjI; assumption)
qed

lemma demo_plan_keys:
  "parseWALSnapshotKey newGen ''a'' = Some (''20260315T070000Z'', timeOf 2026 3 15 7 0 0 0)"
  "parseWALSegmentKey newGen ''a'' = None"
proof -
  have split: "split_at CHR ''/'' ''20260315T070000Z/snapshot.db.gz'' = [''20260315T070000Z'', ''snapshot.db.gz'']"
    by simp
  have base: "pathBase newGen = ''snapshot.db.gz''" by (simp add: pathBase_def Let_def)
  have trim: "trim_prefix newGen (''a'' @ ''/litestream/'') = ''20260315T070000Z/snapshot.db.gz''"
    by (simp add: trim_prefix_def)
  have time: "parseTime stampLayout ''20260315T070000Z'' = Some (timeOf 2026 3 15 7 0 0 0)"
    by (simp add: parse_eval)
  show "parseWALSnapshotKey newGen ''a'' = Some (''20260315T070000Z'', timeOf 2026 3 15 7 0 0 0)"
    unfolding parseWALSnapshotKey_def Let_def trim base split by (simp add: time)
  show "parseWALSegmentKey newGen ''a'' = None"
    unfolding parseWALSegmentKey_def Let_def by (simp add: suffix_to_prefix)
qed

theorem pitr_plan_survives_witness:
  "newGen \<notin> set (snd (runRetentionSweep (Some (Inv [], Inv [])) (Some [newGen]) (\<lambda>_. False) 1773558000000000001 False []))"
proof -
  have plan: "chooseWALPITRPlan id [newGen] ''a'' 1773558000000000001 =
      Some \<lparr>Generation = ''20260315T070000Z'', SnapshotKey = newGen, SegmentKeys = []\<rparr>"
    by (simp add: chooseWALPITRPlan_def walSnapshots_def List.map_filter_def walSegments_def demo_plan_keys demo_times)
  have "stampOf newGen = 1773558000000000000" by (simp add: stampOf_def demo_generations demo_times)
  then show ?thesis
    using pitr_plan_survives [OF plan _ _ _ _ _ surjective_pairing, where recent = newGen and env = "[]"
        and now = 1773558000000000001 and b = "[]" and a = "[]" and fails = "\<lambda>_. False" and dry = False]
    by (simp add: pitrRetentionWindow_def timeSub_def nsPerHour_def nsPerSecond_def)
qed

end
