(* ===== verification/Sql_Params.thy ===== *)
theory Sql_Params
  imports Sql_Tokens
begin

text \<open>
  The parameters of a text of SQL put together from pieces: the question marks in code. A piece
  adds a fixed number of them whatever follows it; plain words and quoted identifiers are pieces,
  and so is a concatenation of pieces. The theories of generated SQL (\<open>Sql_When\<close>, \<open>Access\<close>) use it to
  compare the placeholders with the values bound.
\<close>

type_synonym bytes = "(char \<times> sqlByteKind) list"

lemma cls_plain:
  "\<forall>c \<in> set p. c \<notin> {CHR 0x27, CHR 0x22, CHR ''['', CHR 0x60, CHR ''-'', CHR ''/''} \<Longrightarrow>
    cls InCode (p @ s) = map (\<lambda>c. (c, SqlCode)) p @ cls InCode s \<and> mode_after InCode (p @ s) = mode_after InCode s"
  by (induction p) (simp_all add: lex_step_plain)

text \<open>The parameters of a text: the question marks in code.\<close>

definition qmarks :: "bytes \<Rightarrow> nat" where
  "qmarks zs = length (filter (\<lambda>z. z = (CHR ''?'', SqlCode)) zs)"

definition piece :: "nat \<Rightarrow> string \<Rightarrow> bool" where
  "piece n s \<longleftrightarrow> (\<forall>t. qmarks (cls InCode (s @ t)) = n + qmarks (cls InCode t))"

lemma piece_append: "piece n a \<Longrightarrow> piece m b \<Longrightarrow> piece (n + m) (a @ b)"
  by (simp add: piece_def)

lemma piece_plain:
  "\<forall>c \<in> set p. c \<notin> {CHR 0x27, CHR 0x22, CHR ''['', CHR 0x60, CHR ''-'', CHR ''/''} \<Longrightarrow>
   piece (length (filter (\<lambda>c. c = CHR ''?'') p)) p"
  unfolding piece_def using cls_plain [of p] by (simp add: qmarks_def filter_map comp_def)

lemma piece_quoteIdent: "piece 0 (quoteIdent n)"
  unfolding piece_def by (simp add: cls_append joinFree_quoteIdent cls_quoteIdent qmarks_def filter_map comp_def)

end
