(* ===== verification/Sql_When.thy ===== *)
theory Sql_When
  imports Sql_Readonly Sqlite_Text Sql_Params "HOL-Library.List_Lexorder" "HOL-Library.Char_ord"
begin

text \<open>
  The \<^verbatim>\<open>when:\<close> conditions of hooks and workflows, \<^verbatim>\<open>hook_when.go\<close>: the columns of the one-row
  table a condition reads, the values bound to them, the check and rewriting of the condition's
  text, and the query built around it. A condition is an app author's text spliced into
  framework SQL; the lemmas show that a text that passes the check stays inside the
  parentheses it is put in, and that the query's parameters are exactly the row's values.

  The text and the kinds of its bytes, two parallel arrays in the code, are one list of pairs.
  Floats, times and JSON encoding are parameters.
\<close>

section \<open>Columns\<close>

record whenColumn =
  wc_name :: string
  wc_declType :: string
  wc_loose :: bool

definition whenKeyRe :: "string \<Rightarrow> bool" where
  [go_eval]: "whenKeyRe s \<longleftrightarrow> s \<noteq> [] \<and> length s \<le> 64 \<and> (hd s = CHR ''_'' \<or> is_letter (hd s)) \<and>
     list_all (\<lambda>c. c = CHR ''_'' \<or> is_letter c \<or> is_digit c) s"

definition whenExtraKeyCap :: nat where "whenExtraKeyCap = 200"

definition submittedFieldsKey :: string where "submittedFieldsKey = ''_submitted''"

definition whenSessionKeys :: "string list" where
  "whenSessionKeys = [''user_id'', ''user_email'', ''user_role'', ''user_roles'', ''user_group_id'', submittedFieldsKey]"

text \<open>The table's columns, by name and declared type: those the app declares, else those the database
  reports when it can be asked.\<close>

definition whenTableCols ::
    "(string \<times> (string \<times> string) list) list option \<Rightarrow> (string \<times> string) list option \<Rightarrow> string \<Rightarrow> (string \<times> string) list" where
  "whenTableCols app reported table =
     (case (case app of Some tables \<Rightarrow> map_of tables table | None \<Rightarrow> None) of
        Some cols \<Rightarrow> cols
      | None \<Rightarrow> (case reported of Some cols \<Rightarrow> cols | None \<Rightarrow> []))"

text \<open>The closure \<open>add\<close>: the state is the names seen and the columns so far.\<close>

definition addColumn :: "whenColumn \<Rightarrow> string list \<times> whenColumn list \<Rightarrow> string list \<times> whenColumn list" where
  "addColumn c st = (case st of (seen, cols) \<Rightarrow>
     let k = to_lower (wc_name c) in
     if k \<in> set seen \<or> \<not> whenKeyRe (wc_name c) then (seen, cols) else (k # seen, cols @ [c]))"

definition sessionColumn :: "string \<Rightarrow> whenColumn" where
  "sessionColumn k =
     (if k \<in> {''user_email'', ''user_role'', ''user_roles'', submittedFieldsKey}
      then \<lparr>wc_name = k, wc_declType = ''TEXT'', wc_loose = False\<rparr>
      else \<lparr>wc_name = k, wc_declType = [], wc_loose = True\<rparr>)"

definition whenColumns :: "(string \<times> string) list \<Rightarrow> string list \<Rightarrow> whenColumn list" where
  "whenColumns tableCols rowKeys =
     (let st1 = fold (\<lambda>(n, t). addColumn \<lparr>wc_name = n, wc_declType = t, wc_loose = False\<rparr>) tableCols ([], []);
          st2 = fold (\<lambda>(n, t). addColumn \<lparr>wc_name = ''old_'' @ n, wc_declType = t, wc_loose = False\<rparr>) tableCols st1;
          st3 = fold (\<lambda>k. addColumn (sessionColumn k)) whenSessionKeys st2;
          extra = take whenExtraKeyCap (sort (filter (\<lambda>k. to_lower k \<notin> set (fst st3) \<and> whenKeyRe k) rowKeys))
      in snd (fold (\<lambda>k. addColumn \<lparr>wc_name = k, wc_declType = [], wc_loose = True\<rparr>) extra st3))"

section \<open>Values\<close>

datatype ('f, 't) goValue =
    VNil | VBool bool | VInt int | VUint nat | VUint64 nat | VFloat32 'f | VFloat64 'f | VString string
  | VBytes string | VTime 't | VJson "string option" string | VOther string

datatype ('f, 't) bindValue =
    BindNil | BindInt int | BindFloat 'f | BindText string | BindBytes string | BindTime 't

record 'f floatFns =
  widen :: "'f \<Rightarrow> 'f"
  smallIntegral :: "'f \<Rightarrow> int option"
  floatOfNat :: "nat \<Rightarrow> 'f"

definition normalizeFloat :: "'f floatFns \<Rightarrow> 'f \<Rightarrow> ('f, 't) bindValue" where
  "normalizeFloat fn x = (case smallIntegral fn x of Some n \<Rightarrow> BindInt n | None \<Rightarrow> BindFloat x)"

fun whenNormalizeValue :: "'f floatFns \<Rightarrow> ('f, 't) goValue \<Rightarrow> string \<Rightarrow> ('f, 't) bindValue" where
  "whenNormalizeValue fn VNil d = BindNil"
| "whenNormalizeValue fn (VBool b) d = BindInt (if b then 1 else 0)"
| "whenNormalizeValue fn (VInt n) d = BindInt n"
| "whenNormalizeValue fn (VUint n) d = BindInt (wrap64 (int n))"
| "whenNormalizeValue fn (VUint64 n) d = (if 2 ^ 63 - 1 < n then BindFloat (floatOfNat fn n) else BindInt (int n))"
| "whenNormalizeValue fn (VFloat32 x) d = normalizeFloat fn (widen fn x)"
| "whenNormalizeValue fn (VFloat64 x) d = normalizeFloat fn x"
| "whenNormalizeValue fn (VString s) d =
     (if contains ''BOOL'' (to_upper d) then
        (if to_lower s = ''true'' then BindInt 1 else if to_lower s = ''false'' then BindInt 0 else BindText s)
      else BindText s)"
| "whenNormalizeValue fn (VBytes s) d = BindBytes s"
| "whenNormalizeValue fn (VTime t) d = BindTime t"
| "whenNormalizeValue fn (VJson encoded shown) d = BindText (case encoded of Some s \<Rightarrow> s | None \<Rightarrow> shown)"
| "whenNormalizeValue fn (VOther shown) d = BindText shown"

text \<open>The regular expression \<^verbatim>\<open>^\s*[+-]?(?:[0-9]+\.?[0-9]*|\.[0-9]+)(?:[eE][+-]?[0-9]+)?\s*$\<close>.\<close>

definition reSpace :: "char \<Rightarrow> bool" where
  "reSpace c \<longleftrightarrow> c \<in> {CHR '' '', CHR 0x09, CHR 0x0A, CHR 0x0C, CHR 0x0D}"

definition dropSign :: "string \<Rightarrow> string" where
  "dropSign s = (if s \<noteq> [] \<and> (hd s = CHR ''+'' \<or> hd s = CHR ''-'') then tl s else s)"

definition mantissaRest :: "string \<Rightarrow> string option" where
  "mantissaRest s =
     (let ds = takeWhile is_digit s; r = dropWhile is_digit s in
      if ds \<noteq> [] then Some (if r \<noteq> [] \<and> hd r = CHR ''.'' then dropWhile is_digit (tl r) else r)
      else if r \<noteq> [] \<and> hd r = CHR ''.'' \<and> takeWhile is_digit (tl r) \<noteq> [] then Some (dropWhile is_digit (tl r))
      else None)"

definition exponentRest :: "string \<Rightarrow> string" where
  "exponentRest s =
     (if s \<noteq> [] \<and> (hd s = CHR ''e'' \<or> hd s = CHR ''E'') \<and> takeWhile is_digit (dropSign (tl s)) \<noteq> []
      then dropWhile is_digit (dropSign (tl s)) else s)"

definition sqliteNumericText :: "string \<Rightarrow> bool" where
  "sqliteNumericText s =
     (case mantissaRest (dropSign (dropWhile reSpace s)) of
        None \<Rightarrow> False
      | Some r \<Rightarrow> list_all reSpace (exponentRest r))"

definition sqliteAffinity :: "string \<Rightarrow> string" where
  "sqliteAffinity declType =
     (let u = to_upper declType in
      if contains ''INT'' u then ''INTEGER''
      else if contains ''CHAR'' u \<or> contains ''CLOB'' u \<or> contains ''TEXT'' u then ''TEXT''
      else if contains ''BLOB'' u \<or> trim_space u = [] then ''BLOB''
      else if contains ''REAL'' u \<or> contains ''FLOA'' u \<or> contains ''DOUB'' u then ''REAL''
      else ''NUMERIC'')"

definition whenBind :: "'f floatFns \<Rightarrow> whenColumn \<Rightarrow> ('f, 't) goValue \<Rightarrow> string \<times> ('f, 't) bindValue" where
  "whenBind fn c v0 =
     (let v = whenNormalizeValue fn v0 (wc_declType c);
          numeric = (case v of BindInt _ \<Rightarrow> True | BindFloat _ \<Rightarrow> True | BindText s \<Rightarrow> sqliteNumericText s | _ \<Rightarrow> False)
      in if wc_loose c then
           (if numeric then (''CAST(? AS NUMERIC)'', v)
            else case v of
                BindNil \<Rightarrow> (''?'', BindNil)
              | BindText _ \<Rightarrow> (''CAST(? AS TEXT)'', v)
              | _ \<Rightarrow> (''?'', v))
         else
           (let a = sqliteAffinity (wc_declType c) in
            if a = ''TEXT'' then (''CAST(? AS TEXT)'', v)
            else if (a = ''INTEGER'' \<or> a = ''NUMERIC'') \<and> (numeric \<or> v = BindNil) then (''CAST(? AS NUMERIC)'', v)
            else if a = ''REAL'' \<and> (numeric \<or> v = BindNil) then (''CAST(? AS REAL)'', v)
            else (''?'', v)))"

definition whenSelectList :: "string list \<Rightarrow> whenColumn list \<Rightarrow> string" where
  "whenSelectList exprs cols = join '', '' (map (\<lambda>(e, c). e @ '' AS '' @ quoteIdent (wc_name c)) (zip exprs cols))"

section \<open>The condition's text\<close>

datatype whenError =
    WhenTemplate | WhenEmpty | WhenLoadExtension | WhenOpenQuote | WhenOpenComment | WhenSemicolon
  | WhenParameter string | WhenCloseParen | WhenOpenParen | WhenNoColumns | WhenNoStatement

definition isCode :: "bytes \<Rightarrow> nat \<Rightarrow> bool" where
  "isCode zs i \<longleftrightarrow> i < length zs \<and> snd (zs ! i) = SqlCode"

definition whenSpace :: "char \<Rightarrow> bool" where
  "whenSpace b \<longleftrightarrow> b \<in> {CHR '' '', CHR 0x09, CHR 0x0A, CHR 0x0D, CHR 0x0C}"

definition skippable :: "char \<times> sqlByteKind \<Rightarrow> bool" where
  "skippable z \<longleftrightarrow> snd z = SqlInLineComment \<or> snd z = SqlInBlockComment \<or> snd z = SqlCode \<and> whenSpace (fst z)"

definition skipTo :: "bytes \<Rightarrow> nat \<Rightarrow> nat" where
  "skipTo zs i = i + length (takeWhile skippable (drop i zs))"

text \<open>\<open>skipBack(i)\<close> answers an index that may be -1; here it is the number of bytes up to it.\<close>

definition skipBackTo :: "bytes \<Rightarrow> nat \<Rightarrow> nat" where
  "skipBackTo zs n = n - length (takeWhile skippable (rev (take n zs)))"

definition emptyForward :: "bytes \<Rightarrow> nat \<Rightarrow> bool" where
  "emptyForward zs i \<longleftrightarrow> i + 1 < length zs \<and> snd (zs ! i) = SqlInSingleQuote \<and> fst (zs ! i) = CHR 0x27 \<and>
     fst (zs ! (i + 1)) = CHR 0x27 \<and> (length zs \<le> i + 2 \<or> snd (zs ! (i + 2)) \<noteq> SqlInSingleQuote)"

definition emptyBackward :: "bytes \<Rightarrow> nat \<Rightarrow> bool" where
  "emptyBackward zs n \<longleftrightarrow> 2 \<le> n \<and> snd (zs ! (n - 1)) = SqlInSingleQuote \<and> fst (zs ! (n - 1)) = CHR 0x27 \<and>
     fst (zs ! (n - 2)) = CHR 0x27 \<and> snd (zs ! (n - 2)) = SqlInSingleQuote \<and>
     (n = 2 \<or> snd (zs ! (n - 3)) \<noteq> SqlInSingleQuote)"

definition identRun :: "bytes \<Rightarrow> nat \<Rightarrow> string" where
  "identRun zs i = map fst (takeWhile (\<lambda>z. snd z = SqlCode \<and> sqlIdentByte (fst z)) (drop i zs))"

definition identAt :: "bytes \<Rightarrow> nat \<Rightarrow> bool" where
  "identAt zs i \<longleftrightarrow> isCode zs i \<and> sqlIdentByte (fst (zs ! i))"

definition isParameter :: "bytes \<Rightarrow> nat \<Rightarrow> bool" where
  "isParameter zs i \<longleftrightarrow>
     (let c = fst (zs ! i) in
      c = CHR ''?'' \<or>
      (c = CHR '':'' \<or> c = CHR ''@'') \<and> isCode zs (i + 1) \<and>
        (is_letter (fst (zs ! (i + 1))) \<or> fst (zs ! (i + 1)) = CHR ''_'') \<or>
      c = CHR 0x24 \<and> (i = 0 \<or> \<not> identAt zs (i - 1)) \<and> identAt zs (i + 1))"

definition isNotEqual :: "bytes \<Rightarrow> nat \<Rightarrow> bool" where
  "isNotEqual zs i \<longleftrightarrow> isCode zs (i + 1) \<and>
     (fst (zs ! i) = CHR ''!'' \<and> fst (zs ! (i + 1)) = CHR ''='' \<or>
      fst (zs ! i) = CHR ''<'' \<and> fst (zs ! (i + 1)) = CHR ''>'')"

lemma identRun_pos: "isCode zs i \<Longrightarrow> sqlIdentByte (fst (zs ! i)) \<Longrightarrow> 0 < length (identRun zs i)"
  by (auto simp: identRun_def isCode_def Cons_nth_drop_Suc [symmetric])

function prepareLoop :: "bytes \<Rightarrow> nat \<Rightarrow> string \<Rightarrow> bool list \<Rightarrow> int \<Rightarrow> whenError + string" where
  "prepareLoop zs i out frames subqueries =
     (if length zs \<le> i then (if frames \<noteq> [] then Inl WhenOpenParen else Inr out)
      else
        let c = fst (zs ! i) in
        if \<not> isCode zs i then prepareLoop zs (i + 1) (out @ [c]) frames subqueries
        else if c = CHR '';'' then Inl WhenSemicolon
        else if isParameter zs i then Inl (WhenParameter (map fst (take 2 (drop i zs))))
        else if c = CHR ''('' then
          (let sub = (to_upper (identRun zs (skipTo zs (i + 1))) \<in> {''SELECT'', ''WITH'', ''VALUES''})
           in prepareLoop zs (i + 1) (out @ [c]) (frames @ [sub]) (if sub then subqueries + 1 else subqueries))
        else if c = CHR '')'' then
          (if frames = [] then Inl WhenCloseParen
           else prepareLoop zs (i + 1) (out @ [c]) (butlast frames) (if last frames then subqueries - 1 else subqueries))
        else if isNotEqual zs i then
          prepareLoop zs (i + 2)
            (out @ (if subqueries = 0 \<and> \<not> emptyBackward zs (skipBackTo zs i) \<and> \<not> emptyForward zs (skipTo zs (i + 2))
                    then '' IS NOT '' else [c, fst (zs ! (i + 1))])) frames subqueries
        else if sqlIdentByte c \<and> (i = 0 \<or> \<not> identAt zs (i - 1)) then
          prepareLoop zs (i + length (identRun zs i)) (out @ identRun zs i) frames subqueries
        else prepareLoop zs (i + 1) (out @ [c]) frames subqueries)"
  by pat_completeness auto

termination
proof (relation "measure (\<lambda>(zs, i, _). length zs - i)")
  fix zs i and out :: string and frames :: "bool list" and subqueries :: int and x
  assume "\<not> length zs \<le> i" "x = fst (zs ! i)" "\<not> \<not> isCode zs i" "sqlIdentByte x \<and> (i = 0 \<or> \<not> identAt zs (i - 1))"
  with identRun_pos [of zs i]
  show "((zs, i + length (identRun zs i), out @ identRun zs i, frames, subqueries), zs, i, out, frames, subqueries)
      \<in> measure (\<lambda>(zs, i, _). length zs - i)" by (simp del: length_greater_0_conv)
qed auto

declare prepareLoop.simps [simp del]

definition whenQuotedRegionClosed :: "bytes \<Rightarrow> bool" where
  "whenQuotedRegionClosed zs =
     (let k = snd (last zs);
          region = rev (takeWhile (\<lambda>z. snd z = k) (rev zs));
          closer = (if k = SqlInSingleQuote then CHR 0x27 else if k = SqlInDoubleQuote then CHR 0x22
                    else if k = SqlInBracket then CHR '']'' else CHR 0x60)
      in if k = SqlInBracket then fst (last zs) = CHR '']'' \<and> 1 < length region
         else even (length (filter (\<lambda>z. fst z = closer) region)))"

definition prepareWhenCondition :: "string \<Rightarrow> whenError + string" where
  "prepareWhenCondition condition =
     (if contains ''{{'' condition then Inl WhenTemplate
      else if trim_space condition = [] then Inl WhenEmpty
      else if contains ''load_extension'' (to_lower condition) then Inl WhenLoadExtension
      else
        let zs = classify condition in
        if zs \<noteq> [] \<and> quoted (snd (last zs)) \<and> \<not> whenQuotedRegionClosed zs then Inl WhenOpenQuote
        else if zs \<noteq> [] \<and> snd (last zs) = SqlInBlockComment \<and> \<not> suffix ''*/'' condition then Inl WhenOpenComment
        else prepareLoop zs 0 [] [] 0)"

definition whenPrefix :: "string \<Rightarrow> string \<Rightarrow> string" where
  "whenPrefix table selectList = ''WITH '' @ quoteIdent table @ '' AS (SELECT '' @ selectList @ '')'' @ [CHR 0x0A]
     @ ''SELECT CASE WHEN ('' @ [CHR 0x0A]"

definition whenPostfix :: "string \<Rightarrow> string" where
  "whenPostfix table = [CHR 0x0A] @ '') THEN 1 ELSE 0 END FROM '' @ quoteIdent table"

definition buildWhenQuery :: "string \<Rightarrow> string \<Rightarrow> string \<Rightarrow> whenError + string" where
  "buildWhenQuery table condition selectList =
     (case prepareWhenCondition condition of
        Inl e \<Rightarrow> Inl e
      | Inr cond \<Rightarrow>
          if selectList = [] then Inl WhenNoColumns
          else case sqlRunnableText (whenPrefix table selectList @ cond @ whenPostfix table) of
              None \<Rightarrow> Inl WhenNoStatement
            | Some query \<Rightarrow> Inr query)"

fun authorizeWhenQuery :: "sqliteAction \<Rightarrow> string \<Rightarrow> string \<Rightarrow> string \<Rightarrow> sqliteAuth" where
  "authorizeWhenQuery SQLITE_READ arg1 arg2 database = SQLITE_OK"
| "authorizeWhenQuery SQLITE_SELECT arg1 arg2 database = SQLITE_OK"
| "authorizeWhenQuery SQLITE_RECURSIVE arg1 arg2 database = SQLITE_OK"
| "authorizeWhenQuery SQLITE_FUNCTION arg1 arg2 database =
     (if \<not> equal_fold arg2 ''load_extension'' then SQLITE_OK else SQLITE_DENY)"
| "authorizeWhenQuery SQLITE_UPDATE arg1 arg2 database =
     (if arg1 = ''sqlite_master'' \<or> arg1 = ''sqlite_temp_master'' then SQLITE_OK else SQLITE_DENY)"
| "authorizeWhenQuery SQLITE_PRAGMA arg1 arg2 database =
     (if equal_fold arg1 ''data_version'' \<and> arg2 = [] then SQLITE_OK else SQLITE_DENY)"
| "authorizeWhenQuery (SQLITE_OTHER n) arg1 arg2 database = SQLITE_DENY"


section \<open>What the loop writes\<close>

text \<open>The bytes written, with their kinds: those of the condition, some pairs of operator bytes
  replaced.\<close>

inductive rewritten :: "bytes \<Rightarrow> bytes \<Rightarrow> bool" where
  nothing: "rewritten [] []"
| keep: "rewritten zs es \<Longrightarrow> rewritten (z # zs) (z # es)"
| is_not: "rewritten zs es \<Longrightarrow> (a, b) \<in> {(CHR ''!'', CHR ''=''), (CHR ''<'', CHR ''>'')} \<Longrightarrow>
    rewritten ((a, SqlCode) # (b, SqlCode) # zs) (map (\<lambda>c. (c, SqlCode)) '' IS NOT '' @ es)"

inductive_cases rewritten_NilE: "rewritten [] es"
inductive_cases rewritten_ConsE: "rewritten (z # zs) es"

lemma rewritten_append: "rewritten zs es \<Longrightarrow> rewritten (xs @ zs) (xs @ es)"
  by (induction xs) (auto intro: rewritten.keep)

lemma drop_nth: "i < length zs \<Longrightarrow> drop i zs = zs ! i # drop (Suc i) zs"
  by (simp add: Cons_nth_drop_Suc)

lemma identRun_drop:
  "\<exists>xs. drop i zs = xs @ drop (i + length (identRun zs i)) zs \<and> map fst xs = identRun zs i
     \<and> (\<forall>z \<in> set xs. snd z = SqlCode \<and> sqlIdentByte (fst z))"
proof -
  let ?P = "\<lambda>z. snd z = SqlCode \<and> sqlIdentByte (fst z)"
  have "drop i zs = takeWhile ?P (drop i zs) @ dropWhile ?P (drop i zs)" by simp
  moreover have "dropWhile ?P (drop i zs) = drop (i + length (identRun zs i)) zs"
    unfolding identRun_def length_map by (simp add: dropWhile_eq_drop add.commute)
  ultimately show ?thesis
    by (intro exI [of _ "takeWhile ?P (drop i zs)"]) (auto simp: identRun_def dest: set_takeWhileD)
qed

text \<open>Depth of the code parentheses: \<open>None\<close> when one closes that was not opened.\<close>

fun parenDepth :: "nat \<Rightarrow> bytes \<Rightarrow> nat option" where
  "parenDepth d [] = Some d"
| "parenDepth d (z # zs) =
     (if z = (CHR ''('', SqlCode) then parenDepth (Suc d) zs
      else if z = (CHR '')'', SqlCode) then (if d = 0 then None else parenDepth (d - 1) zs)
      else parenDepth d zs)"

lemma parenDepth_append: "parenDepth d (xs @ zs) = (case parenDepth d xs of None \<Rightarrow> None | Some d' \<Rightarrow> parenDepth d' zs)"
  by (induction d xs rule: parenDepth.induct) auto

lemma parenDepth_skip:
  "\<forall>z \<in> set xs. z \<noteq> (CHR ''('', SqlCode) \<and> z \<noteq> (CHR '')'', SqlCode) \<Longrightarrow> parenDepth d (xs @ zs) = parenDepth d zs"
  by (induction xs) auto

definition plainCode :: "bytes \<Rightarrow> bool" where
  "plainCode zs \<longleftrightarrow> (CHR '';'', SqlCode) \<notin> set zs \<and> (CHR ''?'', SqlCode) \<notin> set zs"

definition loopOk :: "bytes \<Rightarrow> nat \<Rightarrow> string \<Rightarrow> nat \<Rightarrow> string \<Rightarrow> bool" where
  "loopOk zs i out d r \<longleftrightarrow> (\<exists>es. rewritten (drop i zs) es \<and> r = out @ map fst es \<and>
     parenDepth d (drop i zs) = Some 0 \<and> plainCode (drop i zs))"

lemma loopOk_copy:
  assumes "i < length zs" "loopOk zs (i + 1) (out @ [fst (zs ! i)]) d' r"
    and "parenDepth d (drop i zs) = parenDepth d' (drop (i + 1) zs)"
    and "zs ! i \<noteq> (CHR '';'', SqlCode)" "zs ! i \<noteq> (CHR ''?'', SqlCode)"
  shows "loopOk zs i out d r"
proof -
  obtain es where "rewritten (drop (i + 1) zs) es" "r = (out @ [fst (zs ! i)]) @ map fst es"
    "parenDepth d' (drop (i + 1) zs) = Some 0" "plainCode (drop (i + 1) zs)"
    using assms(2) by (auto simp: loopOk_def)
  with assms show ?thesis
    unfolding loopOk_def
    by (intro exI [of _ "zs ! i # es"]) (auto simp: drop_nth plainCode_def intro: rewritten.keep)
qed

lemma loopOk_run:
  assumes "loopOk zs (i + length (identRun zs i)) (out @ identRun zs i) d r"
  shows "loopOk zs i out d r"
proof -
  obtain xs where xs: "drop i zs = xs @ drop (i + length (identRun zs i)) zs" "map fst xs = identRun zs i"
    "\<forall>z \<in> set xs. snd z = SqlCode \<and> sqlIdentByte (fst z)" using identRun_drop by blast
  then have no: "\<forall>z \<in> set xs. z \<noteq> (CHR ''('', SqlCode) \<and> z \<noteq> (CHR '')'', SqlCode) \<and> z \<noteq> (CHR '';'', SqlCode)
      \<and> z \<noteq> (CHR ''?'', SqlCode)"
    by (fastforce simp: sqlIdentByte_def is_letter_def is_lower_def is_upper_def is_digit_def byte_def)
  obtain es where "rewritten (drop (i + length (identRun zs i)) zs) es"
    "r = (out @ identRun zs i) @ map fst es" "parenDepth d (drop (i + length (identRun zs i)) zs) = Some 0"
    "plainCode (drop (i + length (identRun zs i)) zs)"
    using assms by (auto simp: loopOk_def)
  then show ?thesis
    unfolding loopOk_def using xs no
    by (intro exI [of _ "xs @ es"]) (auto simp: parenDepth_skip plainCode_def intro: rewritten_append)
qed

lemma loopOk_not_equal:
  assumes "isCode zs i" "isNotEqual zs i"
    and "loopOk zs (i + 2) (out @ (if b then '' IS NOT '' else [fst (zs ! i), fst (zs ! (i + 1))])) d r"
  shows "loopOk zs i out d r"
proof -
  have len: "i < length zs" "i + 1 < length zs" using assms(1,2) by (auto simp: isCode_def isNotEqual_def)
  obtain x y where z: "zs ! i = (x, SqlCode)" "zs ! (i + 1) = (y, SqlCode)"
    and xy: "(x, y) \<in> {(CHR ''!'', CHR ''=''), (CHR ''<'', CHR ''>'')}"
    using assms(1,2) by (cases "zs ! i"; cases "zs ! (i + 1)") (auto simp: isCode_def isNotEqual_def)
  have drop2: "drop i zs = (x, SqlCode) # (y, SqlCode) # drop (i + 2) zs"
    using len z by (simp add: drop_nth)
  obtain es where es: "rewritten (drop (i + 2) zs) es" "parenDepth d (drop (i + 2) zs) = Some 0"
    "plainCode (drop (i + 2) zs)" "r = (out @ (if b then '' IS NOT '' else [x, y])) @ map fst es"
    using assms(3) z by (auto simp: loopOk_def)
  show ?thesis
  proof (cases b)
    case True
    then show ?thesis
      using es xy rewritten.is_not [OF es(1) xy] unfolding loopOk_def drop2
      by (intro exI [of _ "map (\<lambda>c. (c, SqlCode)) '' IS NOT '' @ es"]) (auto simp: plainCode_def)
  next
    case False
    then show ?thesis
      using es xy rewritten.keep [OF rewritten.keep [OF es(1)]] unfolding loopOk_def drop2
      by (intro exI [of _ "(x, SqlCode) # (y, SqlCode) # es"]) (auto simp: plainCode_def)
  qed
qed

lemma prepareLoop_end:
  "length zs \<le> i \<Longrightarrow> prepareLoop zs i out frames n = (if frames \<noteq> [] then Inl WhenOpenParen else Inr out)"
  by (subst prepareLoop.simps) (simp only: if_True)

lemma prepareLoop_copy:
  "i < length zs \<Longrightarrow> \<not> isCode zs i \<Longrightarrow>
   prepareLoop zs i out frames n = prepareLoop zs (i + 1) (out @ [fst (zs ! i)]) frames n"
  by (subst prepareLoop.simps) (simp only: Let_def if_False if_True not_le [symmetric] simp_thms)

definition codeStep :: "bytes \<Rightarrow> nat \<Rightarrow> string \<Rightarrow> bool list \<Rightarrow> int \<Rightarrow> whenError + string" where
  "codeStep zs i out frames n =
     (let c = fst (zs ! i) in
      if c = CHR '';'' then Inl WhenSemicolon
      else if isParameter zs i then Inl (WhenParameter (map fst (take 2 (drop i zs))))
      else if c = CHR ''('' then
        (let sub = (to_upper (identRun zs (skipTo zs (i + 1))) \<in> {''SELECT'', ''WITH'', ''VALUES''})
         in prepareLoop zs (i + 1) (out @ [c]) (frames @ [sub]) (if sub then n + 1 else n))
      else if c = CHR '')'' then
        (if frames = [] then Inl WhenCloseParen
         else prepareLoop zs (i + 1) (out @ [c]) (butlast frames) (if last frames then n - 1 else n))
      else if isNotEqual zs i then
        prepareLoop zs (i + 2)
          (out @ (if n = 0 \<and> \<not> emptyBackward zs (skipBackTo zs i) \<and> \<not> emptyForward zs (skipTo zs (i + 2))
                  then '' IS NOT '' else [c, fst (zs ! (i + 1))])) frames n
      else if sqlIdentByte c \<and> (i = 0 \<or> \<not> identAt zs (i - 1)) then
        prepareLoop zs (i + length (identRun zs i)) (out @ identRun zs i) frames n
      else prepareLoop zs (i + 1) (out @ [c]) frames n)"

lemma prepareLoop_code: "isCode zs i \<Longrightarrow> prepareLoop zs i out frames n = codeStep zs i out frames n"
proof -
  assume c: "isCode zs i"
  then have l: "\<not> length zs \<le> i" by (simp add: isCode_def)
  show ?thesis
    unfolding codeStep_def prepareLoop.simps [of zs i] Let_def if_not_P [OF l] by (simp only: c not_True_eq_False if_False)
qed

lemma codeStep_cases:
  assumes "codeStep zs i out frames n = Inr r"
  obtains (opens) sub m where "fst (zs ! i) = CHR ''(''"
      "prepareLoop zs (i + 1) (out @ [fst (zs ! i)]) (frames @ [sub]) m = Inr r"
  | (closes) m where "fst (zs ! i) = CHR '')''" "frames \<noteq> []"
      "prepareLoop zs (i + 1) (out @ [fst (zs ! i)]) (butlast frames) m = Inr r"
  | (neq) b where "isNotEqual zs i"
      "prepareLoop zs (i + 2) (out @ (if b then '' IS NOT '' else [fst (zs ! i), fst (zs ! (i + 1))])) frames n = Inr r"
  | (word) "sqlIdentByte (fst (zs ! i))" "prepareLoop zs (i + length (identRun zs i)) (out @ identRun zs i) frames n = Inr r"
  | (plain) "fst (zs ! i) \<notin> {CHR '';'', CHR ''?'', CHR ''('', CHR '')''}"
      "prepareLoop zs (i + 1) (out @ [fst (zs ! i)]) frames n = Inr r"
proof -
  let ?c = "fst (zs ! i)"
  note run = assms [unfolded codeStep_def Let_def]
  have semi: "?c \<noteq> CHR '';''" and par: "\<not> isParameter zs i"
    using run by (simp_all only: split: if_split_asm) simp_all
  then have q: "?c \<noteq> CHR ''?''" by (auto simp: isParameter_def Let_def)
  note run = run [unfolded if_not_P [OF semi] if_not_P [OF par]]
  show ?thesis
  proof (cases "?c = CHR ''(''")
    case True
    show ?thesis by (rule opens [OF True run [unfolded if_P [OF True]]])
  next
    case o: False
    note run = run [unfolded if_not_P [OF o]]
    show ?thesis
    proof (cases "?c = CHR '')''")
      case True
      then show ?thesis using run [unfolded if_P [OF True]] by (auto intro: closes split: if_split_asm)
    next
      case c: False
      note run = run [unfolded if_not_P [OF c]]
      show ?thesis
      proof (cases "isNotEqual zs i")
        case True
        show ?thesis by (rule neq [OF True run [unfolded if_P [OF True]]])
      next
        case False
        show ?thesis
        proof (cases "sqlIdentByte ?c \<and> (i = 0 \<or> \<not> identAt zs (i - 1))")
          case True
          show ?thesis
            by (rule word [OF conjunct1 [OF True] run [unfolded if_not_P [OF False] if_P [OF True]]])
        next
          case w: False
          show ?thesis using semi q o c
            by (intro plain [OF _ run [unfolded if_not_P [OF False] if_not_P [OF w]]]) simp
        qed
      qed
    qed
  qed
qed

lemma loopOk_char:
  assumes i: "i < length zs" and z: "zs ! i = (c, k)" and "loopOk zs (i + 1) (out @ [fst (zs ! i)]) d' r"
    and "k = SqlCode \<Longrightarrow> c \<notin> {CHR '';'', CHR ''?''}"
    and "(if k = SqlCode \<and> c = CHR ''('' then d' = Suc d else if k = SqlCode \<and> c = CHR '')'' then d = Suc d' else d' = d)"
  shows "loopOk zs i out d r"
proof (rule loopOk_copy [OF i assms(3)])
  have "drop i zs = (c, k) # drop (i + 1) zs" using z i by (simp add: Cons_nth_drop_Suc [symmetric])
  then show "parenDepth d (drop i zs) = parenDepth d' (drop (i + 1) zs)"
    using assms(5) by (auto split: if_split_asm)
qed (use z assms(4) in auto)

text \<open>The loop is induced on the bytes that are left.\<close>

lemma prepareLoop_ok:
  "prepareLoop zs i out frames n = Inr r \<Longrightarrow> loopOk zs i out (length frames) r"
proof (induction "length zs - i" arbitrary: i out frames n rule: less_induct)
  case less
  note IH = less.hyps
  obtain c k where z: "zs ! i = (c, k)" by (cases "zs ! i")
  consider (past) "length zs \<le> i" | (kept) "i < length zs" "\<not> isCode zs i" | (code) "isCode zs i"
    by (meson not_le)
  then show ?case
  proof cases
    case past
    then have "(if frames \<noteq> [] then Inl WhenOpenParen else Inr out) = Inr r"
      using less.prems by (simp only: prepareLoop_end)
    then have "frames = []" "r = out" by (simp_all split: if_split_asm)
    then show ?thesis
      unfolding loopOk_def using past by (intro exI [of _ "[]"]) (simp add: plainCode_def rewritten.nothing)
  next
    case kept
    have "loopOk zs (i + 1) (out @ [fst (zs ! i)]) (length frames) r"
      using less.prems [unfolded prepareLoop_copy [OF kept]] kept by (intro IH) simp_all
    moreover have "k \<noteq> SqlCode" using kept z by (simp add: isCode_def)
    ultimately show ?thesis by (intro loopOk_char [OF kept(1) z]) simp_all
  next
    case code
    then have i: "i < length zs" and k: "k = SqlCode" using z by (simp_all add: isCode_def)
    have run: "codeStep zs i out frames n = Inr r" using less.prems code by (simp only: prepareLoop_code)
    note step = loopOk_char [OF i z]
    from run show ?thesis
    proof (cases rule: codeStep_cases)
      case (opens sub m)
      have "loopOk zs (i + 1) (out @ [fst (zs ! i)]) (length (frames @ [sub])) r"
        using opens(2) i by (intro IH) simp_all
      then show ?thesis using opens(1) k z by (intro step) simp_all
    next
      case (closes m)
      obtain fs f where fr: "frames = fs @ [f]" using closes(2) by (cases frames rule: rev_cases) simp_all
      have "loopOk zs (i + 1) (out @ [fst (zs ! i)]) (length fs) r"
        using closes(3) i fr by (intro IH) simp_all
      then show ?thesis unfolding fr using closes(1) k z by (intro step) simp_all
    next
      case (neq b)
      have "loopOk zs (i + 2) (out @ (if b then '' IS NOT '' else [fst (zs ! i), fst (zs ! (i + 1))])) (length frames) r"
        by (rule IH [OF _ neq(2)]) (use i in simp)
      then show ?thesis by (rule loopOk_not_equal [OF code neq(1)])
    next
      case word
      have "loopOk zs (i + length (identRun zs i)) (out @ identRun zs i) (length frames) r"
        by (rule IH [OF _ word(2)]) (use i identRun_pos [OF code word(1)] in \<open>simp del: length_greater_0_conv\<close>)
      then show ?thesis by (rule loopOk_run)
    next
      case plain
      have "loopOk zs (i + 1) (out @ [fst (zs ! i)]) (length frames) r"
        using plain(2) i by (intro IH) simp_all
      then show ?thesis using plain(1) k z by (intro step) simp_all
    qed
  qed
qed

text \<open>The bytes written are classified as they were read.\<close>

lemma rewritten_hd:
  "rewritten (cls m s) es \<Longrightarrow> x \<in> {CHR ''-'', CHR ''/'', CHR ''*''} \<Longrightarrow> peekIsNext (map fst es) x = peekIsNext s x"
  by (cases s) (auto split: prod.splits elim!: rewritten_NilE rewritten_ConsE)

lemma code_step:
  assumes "lex_step m c r = (SqlCode, m')" "c \<in> {CHR ''!'', CHR ''<'', CHR ''='', CHR ''>''}" "quote_mode m"
  shows "m = InCode \<and> m' = InCode"
  using assms by (cases m) (auto simp: lex_step_def quote_mode_def split: if_splits)

lemma rewritten_classified:
  "rewritten (cls m s) es \<Longrightarrow> quote_mode m \<Longrightarrow> cls m (map fst es) = es \<and> mode_after m (map fst es) = mode_after m s"
proof (induction "length s" arbitrary: s m es rule: less_induct)
  case less
  show ?case
  proof (cases s)
    case Nil
    with less.prems show ?thesis by (auto elim: rewritten_NilE)
  next
    case (Cons c r)
    obtain k m' where st: "lex_step m c r = (k, m')" by fastforce
    then have q: "quote_mode m'" using quote_mode_step [OF less.prems(2), of c r] by simp
    from less.prems(1) have "rewritten ((c, k) # cls m' r) es" by (simp add: Cons st)
    then consider (same) es' where "es = (c, k) # es'" "rewritten (cls m' r) es'"
      | (op) zs es' b where "k = SqlCode" "cls m' r = (b, SqlCode) # zs" "rewritten zs es'"
          "(c, b) \<in> {(CHR ''!'', CHR ''=''), (CHR ''<'', CHR ''>'')}"
          "es = map (\<lambda>c. (c, SqlCode)) '' IS NOT '' @ es'"
      by (cases rule: rewritten_ConsE) fastforce+
    then show ?thesis
    proof cases
      case (same es')
      have "cls m' (map fst es') = es' \<and> mode_after m' (map fst es') = mode_after m' r"
        using less.hyps [of r m' es'] same(2) q Cons by simp
      moreover have "lex_step m c (map fst es') = (k, m')"
        unfolding st [symmetric] by (rule lex_step_cong) (rule rewritten_hd [OF same(2)])
      ultimately show ?thesis using same(1) st Cons by simp
    next
      case (op zs es' b)
      then have m: "m = InCode" "m' = InCode"
        using code_step [of m c r m'] st less.prems(2) by auto
      obtain r' where r: "r = b # r'" using op(2) by (cases r) (auto split: prod.splits)
      have b: "lex_step InCode b r' = (SqlCode, InCode)" using op(4) by (intro lex_step_plain) auto
      then have zs: "zs = cls InCode r'" and mr: "mode_after InCode r = mode_after InCode r'"
        using op(2) by (simp_all add: r m)
      have "cls InCode (map fst es') = es' \<and> mode_after InCode (map fst es') = mode_after InCode r'"
        using less.hyps [of r' InCode es'] op(3) zs r Cons by (simp add: quote_mode_def)
      moreover have "mode_after m s = mode_after InCode r'" using st m mr Cons by simp
      ultimately show ?thesis
        using cls_plain [of "'' IS NOT ''" "map fst es'"] unfolding op(5) m(1) map_append map_map by (simp add: comp_def)
    qed
  qed
qed

text \<open>Where the text ends: the mode after it, by the kind of its last byte.\<close>

definition closerOf :: "sqlByteKind \<Rightarrow> char" where
  "closerOf k = (if k = SqlInSingleQuote then CHR 0x27 else if k = SqlInDoubleQuote then CHR 0x22
     else if k = SqlInBracket then CHR '']'' else CHR 0x60)"

definition scanned :: "bytes \<Rightarrow> lex_mode \<Rightarrow> string \<Rightarrow> bool" where
  "scanned p m r \<longleftrightarrow>
     (case m of
        InCode \<Rightarrow> p \<noteq> [] \<longrightarrow> quoted (snd (last p)) \<longrightarrow> whenQuotedRegionClosed p
      | InQuote k cl \<Rightarrow> p \<noteq> [] \<and> snd (last p) = k \<and> quoted k \<and> cl = closerOf k \<and> \<not> whenQuotedRegionClosed p
      | InLine \<Rightarrow> p \<noteq> [] \<and> snd (last p) = SqlInLineComment
      | AtStar \<Rightarrow> p \<noteq> [] \<and> last p = (CHR ''/'', SqlInBlockComment) \<and> peekIsNext r CHR ''*''
      | InBlock \<Rightarrow> p \<noteq> [] \<and> snd (last p) = SqlInBlockComment \<and>
          (suffix ''*/'' (map fst p) \<longrightarrow> suffix ''/*/'' (map fst p)) \<and>
          (suffix ''*'' (map fst p) \<longrightarrow> suffix ''/*'' (map fst p) \<or> \<not> peekIsNext r CHR ''/'')
      | AtSlash \<Rightarrow> p \<noteq> [] \<and> peekIsNext r CHR ''/'' \<and> last p = (CHR ''*'', SqlInBlockComment))"

lemma region_snoc:
  "rev (takeWhile (\<lambda>z. snd z = k) (rev (p @ [(c, k')]))) =
     (if k' = k then rev (takeWhile (\<lambda>z. snd z = k) (rev p)) @ [(c, k')] else [])"
  by simp

lemma closed_snoc:
  "whenQuotedRegionClosed (p @ [(c, k)]) =
    (if p \<noteq> [] \<and> snd (last p) = k
     then (if k = SqlInBracket then c = CHR '']'' else whenQuotedRegionClosed p = (c \<noteq> closerOf k))
     else k \<noteq> SqlInBracket \<and> c \<noteq> closerOf k)"
  by (cases p rule: rev_cases) (auto simp: whenQuotedRegionClosed_def closerOf_def Let_def)

lemma quoteOpen_closer: "quoteOpen c = Some (k, cl) \<Longrightarrow>
    quoted k \<and> cl = closerOf k \<and> (k = SqlInBracket \<and> c = CHR ''['' \<or> k \<noteq> SqlInBracket \<and> c = cl)"
  by (auto simp: closerOf_def split: if_splits)

lemma suffix_snoc1: "suffix [a] (xs @ [z]) \<longleftrightarrow> a = z"
  by auto

lemma suffix_snoc2: "suffix [a, b] (xs @ [z]) \<longleftrightarrow> b = z \<and> xs \<noteq> [] \<and> last xs = a"
  using snoc_suffix_snoc [of "[a]" b xs z] by (cases xs rule: rev_cases) auto

lemma suffix_snoc3: "suffix [a, b, c] (xs @ [z]) \<longleftrightarrow> c = z \<and> suffix [a, b] xs"
  using snoc_suffix_snoc [of "[a, b]" c xs z] by auto

lemma scanned_code:
  assumes "scanned p InCode (c # r)" "lex_step InCode c r = (k, m')"
  shows "scanned (p @ [(c, k)]) m' r"
proof (cases "quoteOpen c")
  case None
  then show ?thesis using assms by (auto simp: lex_step_def scanned_def split: if_splits)
next
  case (Some kc)
  obtain k0 cl where kc: "kc = (k0, cl)" by fastforce
  with Some assms have "k = k0" "m' = InQuote k0 cl" by (auto simp: lex_step_def simp del: quoteOpen.simps)
  then show ?thesis
    using quoteOpen_closer [of c k0 cl] Some kc assms(1) by (auto simp: scanned_def closed_snoc closerOf_def)
qed

lemma scanned_step:
  assumes "scanned p m (c # r)" "lex_step m c r = (k, m')"
  shows "scanned (p @ [(c, k)]) m' r"
proof (cases m)
  case InCode
  then show ?thesis using assms scanned_code by blast
next
  case (InQuote k0 cl)
  then show ?thesis using assms by (auto simp: lex_step_def scanned_def closed_snoc closerOf_def split: if_splits)
next
  case InBlock
  then show ?thesis using assms
    by (auto simp: lex_step_def scanned_def suffix_snoc1 suffix_snoc2 suffix_snoc3 split: if_splits)
next
  case AtStar
  moreover have "p \<noteq> [] \<Longrightarrow> last p = (CHR ''/'', SqlInBlockComment) \<Longrightarrow> suffix ''/'' (map fst p)"
    by (cases p rule: rev_cases) auto
  ultimately show ?thesis using assms
    by (auto simp: lex_step_def scanned_def suffix_snoc1 suffix_snoc2 suffix_snoc3 last_map split: if_splits)
qed (use assms in \<open>auto simp: lex_step_def scanned_def suffix_snoc1 suffix_snoc2 suffix_snoc3 last_map split: if_splits\<close>)

lemma scanned_all: "scanned p m r \<Longrightarrow> scanned (p @ cls m r) (mode_after m r) []"
proof (induction r arbitrary: p m)
  case (Cons c r)
  obtain k m' where st: "lex_step m c r = (k, m')" by fastforce
  show ?case using Cons.IH [OF scanned_step [OF Cons.prems st]] st by simp
qed simp

lemma scanned_classify: "scanned (classify s) (mode_after InCode s) []"
  using scanned_all [of "[]" InCode s] by (simp add: classify_def scanned_def)

lemma scanned_ends:
  assumes "scanned (classify s) m []" "\<not> (s \<noteq> [] \<and> quoted (snd (last (classify s))) \<and> \<not> whenQuotedRegionClosed (classify s))"
    "\<not> (s \<noteq> [] \<and> snd (last (classify s)) = SqlInBlockComment \<and> \<not> suffix ''*/'' s)" "\<not> suffix ''/*/'' s"
  shows "m = InCode \<or> m = InLine"
  using assms by (cases m) (auto simp: scanned_def classify_def)

lemma parenDepth_rewritten: "rewritten zs es \<Longrightarrow> parenDepth d es = parenDepth d zs"
  by (induction arbitrary: d rule: rewritten.induct) auto

lemma plainCode_rewritten: "rewritten zs es \<Longrightarrow> plainCode zs \<Longrightarrow> plainCode es"
  by (induction rule: rewritten.induct) (auto simp: plainCode_def)

lemma classify_Nil: "classify s = [] \<longleftrightarrow> s = []"
  by (cases s) (auto simp: classify_def split: prod.splits)

lemma prepared:
  assumes "prepareWhenCondition s = Inr cond" "\<not> suffix ''/*/'' s"
  shows "mode_after InCode cond \<in> {InCode, InLine}" "parenDepth 0 (classify cond) = Some 0" "plainCode (classify cond)"
proof -
  have ok: "\<not> (s \<noteq> [] \<and> quoted (snd (last (classify s))) \<and> \<not> whenQuotedRegionClosed (classify s))"
    and oc: "\<not> (s \<noteq> [] \<and> snd (last (classify s)) = SqlInBlockComment \<and> \<not> suffix ''*/'' s)"
    and run: "prepareLoop (classify s) 0 [] [] 0 = Inr cond"
    using assms(1) classify_Nil [of s] by (auto simp: prepareWhenCondition_def Let_def split: if_split_asm)
  obtain es where es: "rewritten (classify s) es" "cond = map fst es" "parenDepth 0 (classify s) = Some 0" "plainCode (classify s)"
    using prepareLoop_ok [OF run] by (auto simp: loopOk_def)
  have same: "classify cond = es" "mode_after InCode cond = mode_after InCode s"
    using rewritten_classified [of InCode s es] es(1,2) by (simp_all add: classify_def quote_mode_def)
  show "mode_after InCode cond \<in> {InCode, InLine}"
    unfolding same(2) using scanned_ends [OF scanned_classify ok oc assms(2)] by simp
  show "parenDepth 0 (classify cond) = Some 0" "plainCode (classify cond)"
    unfolding same(1) using es parenDepth_rewritten plainCode_rewritten by auto
qed

lemma confined:
  assumes "mode_after InCode cond \<in> {InCode, InLine}"
  shows "cls InCode (cond @ CHR 0x0A # post) = classify cond @ (CHR 0x0A, SqlCode) # classify post"
proof -
  have "joinFree cond (CHR 0x0A # post)" by (simp add: joinFree_def)
  then show ?thesis
    using assms by (auto simp: cls_append classify_def lex_step_def)
qed

lemma piece_bind: "piece 1 (fst (whenBind fn c v))"
proof -
  have "fst (whenBind fn c v) \<in> {''?'', ''CAST(? AS NUMERIC)'', ''CAST(? AS TEXT)'', ''CAST(? AS REAL)''}"
    by (auto simp: whenBind_def Let_def split: bindValue.split)
  then show ?thesis using piece_plain [of "fst (whenBind fn c v)"] by auto
qed

lemma piece_select:
  "length exprs = length cols \<Longrightarrow> \<forall>e \<in> set exprs. piece 1 e \<Longrightarrow> piece (length cols) (whenSelectList exprs cols)"
proof (induction exprs cols rule: list_induct2)
  case Nil
  then show ?case by (simp add: whenSelectList_def piece_def)
next
  case (Cons e es c cs)
  have one: "piece 1 (e @ '' AS '' @ quoteIdent (wc_name c))"
    using piece_append [OF _ piece_append [OF piece_plain [of "'' AS ''"] piece_quoteIdent]] Cons.prems by fastforce
  show ?case
  proof (cases es)
    case Nil
    then show ?thesis using one Cons by (simp add: whenSelectList_def)
  next
    case (Cons e' es')
    then obtain c' cs' where cs: "cs = c' # cs'" using Cons.hyps by (cases cs) auto
    have "piece (1 + (0 + length cs)) ((e @ '' AS '' @ quoteIdent (wc_name c)) @ '', '' @ whenSelectList es cs)"
      using piece_plain [of "'', ''"] Cons.IH Cons.prems by (intro piece_append one) auto
    then show ?thesis unfolding whenSelectList_def using \<open>es = e' # es'\<close> cs by simp
  qed
qed

lemma piece_query:
  assumes "mode_after InCode cond \<in> {InCode, InLine}" "plainCode (classify cond)" "piece n sel"
  shows "qmarks (classify (whenPrefix table sel @ cond @ whenPostfix table)) = n"
proof -
  define last_line where "last_line = '') THEN 1 ELSE 0 END FROM '' @ quoteIdent table"
  have p: "piece 0 ''WITH ''" "piece 0 '' AS (SELECT ''" "piece 0 ('')'' @ [CHR 0x0A] @ ''SELECT CASE WHEN ('' @ [CHR 0x0A])"
    "piece 0 '') THEN 1 ELSE 0 END FROM ''"
    using piece_plain [of "''WITH ''"] piece_plain [of "'' AS (SELECT ''"] piece_plain [of "'') THEN 1 ELSE 0 END FROM ''"]
      piece_plain [of "'')'' @ [CHR 0x0A] @ ''SELECT CASE WHEN ('' @ [CHR 0x0A]"] by simp_all
  have "piece (0 + (0 + (0 + (n + 0)))) (whenPrefix table sel)"
    unfolding whenPrefix_def by (intro piece_append p piece_quoteIdent assms(3))
  then have "qmarks (classify (whenPrefix table sel @ cond @ whenPostfix table))
      = n + qmarks (cls InCode (cond @ CHR 0x0A # last_line))"
    by (simp add: piece_def classify_def whenPostfix_def last_line_def)
  moreover have "qmarks (classify cond) = 0" using assms(2) by (auto simp: qmarks_def plainCode_def filter_empty_conv)
  moreover have "piece (0 + 0) last_line"
    unfolding last_line_def by (intro piece_append p piece_quoteIdent)
  then have "qmarks (cls InCode last_line) = 0"
    unfolding piece_def by (auto dest: spec [of _ "[]"] simp: qmarks_def)
  ultimately show ?thesis by (simp add: confined [OF assms(1)] classify_def qmarks_def)
qed

text \<open>The columns.\<close>

definition columnsOk :: "string list \<times> whenColumn list \<Rightarrow> bool" where
  "columnsOk st \<longleftrightarrow> set (fst st) = set (map (\<lambda>c. to_lower (wc_name c)) (snd st)) \<and>
     distinct (map (\<lambda>c. to_lower (wc_name c)) (snd st)) \<and> list_all (\<lambda>c. whenKeyRe (wc_name c)) (snd st)"

lemma columnsOk_add: "columnsOk st \<Longrightarrow> columnsOk (addColumn c st)"
  by (cases st) (auto simp: columnsOk_def addColumn_def Let_def)

lemma columnsOk_fold: "columnsOk st \<Longrightarrow> columnsOk (fold (\<lambda>x. addColumn (f x)) xs st)"
  by (induction xs arbitrary: st) (simp_all add: columnsOk_add)

lemma addColumns_append:
  "\<exists>cs. snd (fold (\<lambda>x. addColumn (f x)) xs st) = snd st @ cs \<and> set cs \<subseteq> f ` set xs \<and> length cs \<le> length xs"
proof (induction xs arbitrary: st)
  case (Cons x xs)
  have one: "snd (addColumn (f x) st) = snd st \<or> snd (addColumn (f x) st) = snd st @ [f x]"
    by (cases st) (simp add: addColumn_def Let_def)
  obtain cs where "snd (fold (\<lambda>x. addColumn (f x)) (x # xs) st) = snd (addColumn (f x) st) @ cs"
    "set cs \<subseteq> f ` set xs" "length cs \<le> length xs" using Cons.IH [of "addColumn (f x) st"] by auto
  with one show ?case
    by (elim disjE; intro exI [of _ "(if snd (addColumn (f x) st) = snd st then [] else [f x]) @ cs"]) auto
qed simp

definition rowColumns :: "(string \<times> string) list \<Rightarrow> string list \<times> whenColumn list" where
  "rowColumns tableCols = fold (\<lambda>k. addColumn (sessionColumn k)) whenSessionKeys
     (fold (\<lambda>(n, t). addColumn \<lparr>wc_name = ''old_'' @ n, wc_declType = t, wc_loose = False\<rparr>) tableCols
       (fold (\<lambda>(n, t). addColumn \<lparr>wc_name = n, wc_declType = t, wc_loose = False\<rparr>) tableCols ([], [])))"

lemma case_addColumn: "(\<lambda>(n, t). addColumn (f n t)) = (\<lambda>x. addColumn (case x of (n, t) \<Rightarrow> f n t))"
  by (auto simp: fun_eq_iff)

lemma rowColumns_ok: "columnsOk (rowColumns tableCols)"
  unfolding rowColumns_def case_addColumn by (intro columnsOk_fold) (simp add: columnsOk_def)

lemma rowColumns_length: "length (snd (rowColumns tableCols)) \<le> 2 * length tableCols + 6"
proof -
  let ?f = "\<lambda>(n, t). \<lparr>wc_name = n, wc_declType = t, wc_loose = False\<rparr>"
  let ?g = "\<lambda>(n, t). \<lparr>wc_name = ''old_'' @ n, wc_declType = t, wc_loose = False\<rparr>"
  let ?a = "fold (\<lambda>x. addColumn (?f x)) tableCols ([], [])"
  let ?b = "fold (\<lambda>x. addColumn (?g x)) tableCols ?a"
  have "length (snd ?a) \<le> length tableCols" using addColumns_append [of ?f tableCols "([], [])"] by auto
  moreover have "length (snd ?b) \<le> length (snd ?a) + length tableCols"
    using addColumns_append [of ?g tableCols ?a] by auto
  moreover have "length (snd (rowColumns tableCols)) \<le> length (snd ?b) + length whenSessionKeys"
    unfolding rowColumns_def case_addColumn using addColumns_append [of sessionColumn whenSessionKeys ?b] by auto
  ultimately show ?thesis by (simp add: whenSessionKeys_def)
qed

definition extraKeys :: "(string \<times> string) list \<Rightarrow> string list \<Rightarrow> string list" where
  "extraKeys tableCols rowKeys = take whenExtraKeyCap
     (sort (filter (\<lambda>k. to_lower k \<notin> set (fst (rowColumns tableCols)) \<and> whenKeyRe k) rowKeys))"

lemma whenColumns_split:
  "whenColumns tableCols rowKeys = snd (fold (\<lambda>k. addColumn \<lparr>wc_name = k, wc_declType = [], wc_loose = True\<rparr>)
     (extraKeys tableCols rowKeys) (rowColumns tableCols))"
  by (simp add: whenColumns_def Let_def rowColumns_def extraKeys_def)

section \<open>Properties\<close>

text \<open>The columns of a condition's row: their names are plain identifiers, no two alike but for case, and at most
  the table's, their old values, the session's six and 200 more. The row's own keys only add
  columns behind those, so a submitted key never takes the place or the type of a column of the
  table or of the session.\<close>

theorem whenColumns_ok:
  "distinct (map (\<lambda>c. to_lower (wc_name c)) (whenColumns tableCols rowKeys)) \<and>
   list_all (\<lambda>c. whenKeyRe (wc_name c)) (whenColumns tableCols rowKeys) \<and>
   length (whenColumns tableCols rowKeys) \<le> 2 * length tableCols + 6 + 200 \<and>
   (\<exists>cs. whenColumns tableCols rowKeys = whenColumns tableCols [] @ cs \<and>
      list_all (\<lambda>c. wc_loose c \<and> List.member rowKeys (wc_name c)) cs)"
proof -
  let ?f = "\<lambda>k. \<lparr>wc_name = k, wc_declType = [], wc_loose = True\<rparr>"
  let ?xs = "extraKeys tableCols rowKeys"
  have "columnsOk (fold (\<lambda>k. addColumn (?f k)) ?xs (rowColumns tableCols))"
    by (intro columnsOk_fold rowColumns_ok)
  moreover obtain cs where cs: "whenColumns tableCols rowKeys = snd (rowColumns tableCols) @ cs"
    "set cs \<subseteq> ?f ` set ?xs" "length cs \<le> length ?xs"
    using addColumns_append [of ?f ?xs "rowColumns tableCols"] by (auto simp: whenColumns_split)
  moreover have "whenColumns tableCols [] = snd (rowColumns tableCols)"
    by (simp add: whenColumns_split extraKeys_def)
  moreover have "length ?xs \<le> 200" by (simp add: extraKeys_def whenExtraKeyCap_def)
  moreover have sub: "set ?xs \<subseteq> set rowKeys" by (auto simp: extraKeys_def dest!: in_set_takeD)
  moreover have "list_all (\<lambda>c. wc_loose c \<and> List.member rowKeys (wc_name c)) cs"
    using cs(2) sub by (fastforce simp: list_all_iff)
  ultimately show ?thesis
    using rowColumns_length [of tableCols]
    by (auto simp: columnsOk_def whenColumns_split)
qed


text \<open>The query built around a condition has exactly one parameter per column of the row, the
  placeholders of the select list: the condition adds none and hides none, whatever the
  names of the table and the columns.\<close>

theorem when_parameters_bound:
  assumes "prepareWhenCondition s = Inr cond" "\<not> suffix ''/*/'' s" "length vals = length cols"
  shows "qmarks (classify (whenPrefix table (whenSelectList (map fst (map2 (whenBind fn) cols vals)) cols)
    @ cond @ whenPostfix table)) = length cols"
proof -
  have "piece (length cols) (whenSelectList (map fst (map2 (whenBind fn) cols vals)) cols)"
    using assms(3) piece_bind by (intro piece_select) auto
  then show ?thesis using prepared [OF assms(1,2)] by (intro piece_query)
qed

lemma when_example: "prepareWhenCondition ''a <> 1'' = Inr ''a  IS NOT  1''"
  by code_simp


theorem when_parameters_bound_witness:
  "qmarks (classify (whenPrefix ''t'' (whenSelectList [''?''] [sessionColumn ''user_id''])
    @ ''a  IS NOT  1'' @ whenPostfix ''t'')) = 1"
  using when_parameters_bound [OF when_example, of "[VNil]" "[sessionColumn ''user_id'']" "''t''"]
  by (simp add: suffix_def sessionColumn_def whenBind_def submittedFieldsKey_def)

text \<open>The check for an unterminated comment looks at the text's last two bytes, so a comment that is
  opened by them passes: the condition \<^verbatim>\<open>1 /*/\<close> is accepted although the comment never ends.\<close>

theorem when_unterminated_comment:
  "prepareWhenCondition ''1 /*/'' = Inr ''1 /*/'' \<and> mode_after InCode ''1 /*/'' = InBlock"
  by code_simp

text \<open>A parameter whose name starts with a digit is accepted, although SQLite reads it as one.\<close>

theorem when_digit_parameter:
  "prepareWhenCondition ''a = :1'' = Inr ''a = :1'' \<and> sqliteTokenLen '':1'' = (2, sqliteTokenParsed)"
  by code_simp

end
