(* ===== verification/Principals.thy ===== *)
theory Principals
  imports Scopes
begin

text \<open>
  The session a request carries (\<^verbatim>\<open>types.go\<close>, the methods of \<open>Session\<close>), the address that email-keyed
  grants may match (\<^verbatim>\<open>email_grants.go\<close>) and the role and permission gates over a session
  (\<^verbatim>\<open>rbac.go\<close>). A nil session is \<open>None\<close>. The record extends the one the scope checks read.
\<close>

record principal = session +
  SessionID :: string
  UserID :: int
  Email :: string
  GroupID :: string
  Role :: string
  HeldRoles :: "string list"
  Verified :: bool
  EmailGrandfathered :: bool
  ActingAsGroup :: string
  GlobalAdmin :: bool
  connectorGrant :: bool

section \<open>Session methods\<close>

definition IsAdmin :: "principal option \<Rightarrow> bool" where
  "IsAdmin s = (case s of None \<Rightarrow> False | Some p \<Rightarrow> Role p = ''admin'' \<or> GlobalAdmin p)"

definition IsAdminBypass :: "principal option \<Rightarrow> bool" where
  "IsAdminBypass s = (case s of None \<Rightarrow> False
     | Some p \<Rightarrow> \<not> connectorGrant p \<and> IsAdmin s \<and> ActingAsGroup p = [])"

definition HasGroup :: "principal option \<Rightarrow> bool" where
  "HasGroup s = (case s of None \<Rightarrow> False | Some p \<Rightarrow> GroupID p \<noteq> [] \<and> GroupID p \<noteq> ''0'')"

definition EffectiveGroupID :: "principal option \<Rightarrow> string" where
  "EffectiveGroupID s = (case s of None \<Rightarrow> []
     | Some p \<Rightarrow> if ActingAsGroup p \<noteq> [] \<and> ActingAsGroup p \<noteq> ''0'' \<and> IsAdmin s then ActingAsGroup p
                else GroupID p)"

definition EffectiveHasGroup :: "principal option \<Rightarrow> bool" where
  "EffectiveHasGroup s = (case s of None \<Rightarrow> False
     | Some p \<Rightarrow> EffectiveGroupID s \<noteq> [] \<and> EffectiveGroupID s \<noteq> ''0'')"

definition accountManagementSession :: "principal option \<Rightarrow> bool" where
  "accountManagementSession s = (case s of None \<Rightarrow> False
     | Some p \<Rightarrow> \<not> prefix ''edge:'' (SessionID p) \<and> (CredentialScopes p = [] \<or> CredentialScopes p = ''*''))"

definition IsAdminConsole :: "principal option \<Rightarrow> bool" where
  "IsAdminConsole s \<longleftrightarrow> IsAdmin s \<and> accountManagementSession s"

section \<open>Email-keyed grants\<close>

definition emailKeyedColumn :: "string \<Rightarrow> bool" where
  "emailKeyedColumn col = contains ''email'' (to_lower col)"

definition sessionGrantEmail :: "principal option \<Rightarrow> string" where
  "sessionGrantEmail s = (case s of None \<Rightarrow> []
     | Some p \<Rightarrow> if \<not> (Verified p \<or> EmailGrandfathered p) then [] else Email p)"

section \<open>Role and permission gates\<close>

definition scopeView :: "principal option \<Rightarrow> session option" where
  "scopeView = map_option session.truncate"

definition HasAnyRole :: "principal option \<Rightarrow> string list \<Rightarrow> bool" where
  "HasAnyRole s wanted = (case s of None \<Rightarrow> False
     | Some p \<Rightarrow> IsAdmin s \<or>
         list_ex (\<lambda>w. let want = trim_space w in
           want \<noteq> [] \<and> (Role p = want \<or> list_ex (\<lambda>have. have = want) (HeldRoles p))) wanted)"

definition HasPermission :: "principal option \<Rightarrow> string \<Rightarrow> bool" where
  "HasPermission s perm = (case s of None \<Rightarrow> False
     | Some p \<Rightarrow>
         if perm = [] \<or> trim_space (Scopes p) = [] then False
         else case parseScope perm of (resource, action) \<Rightarrow>
           resource \<noteq> [] \<and> hasScope (scopeView s) resource action)"

lemmas principal_defs = IsAdmin_def IsAdminBypass_def HasGroup_def EffectiveGroupID_def EffectiveHasGroup_def

section \<open>Facts\<close>

lemma nil_session [simp]:
  "\<not> IsAdmin None" "\<not> IsAdminBypass None" "\<not> HasGroup None" "\<not> EffectiveHasGroup None" "\<not> HasAnyRole None w"
  "\<not> HasPermission None q" "sessionGrantEmail None = []" "EffectiveGroupID None = []"
  by (simp_all add: principal_defs HasAnyRole_def HasPermission_def sessionGrantEmail_def)

lemma bypass_admin: "IsAdminBypass s \<Longrightarrow> IsAdmin s"
  by (auto simp: IsAdminBypass_def split: option.splits)

lemma scopeView_simps [simp]: "scopeView None = None" "scopeView (Some p) = Some (session.truncate p)"
  by (simp_all add: scopeView_def)

lemma HasAnyRole_admin: "IsAdmin s \<Longrightarrow> HasAnyRole s w"
  by (cases s) (auto simp: HasAnyRole_def)

lemma HasAnyRole_mono: "set v \<subseteq> set w \<Longrightarrow> HasAnyRole s v \<Longrightarrow> HasAnyRole s w"
  by (cases s) (auto simp: HasAnyRole_def list_ex_iff)

text \<open>The roles a session holds never make it an administrator: only the account's own role column or
  a global grant does.\<close>

lemma held_roles_no_admin: "IsAdmin (Some (p\<lparr>HeldRoles := rs\<rparr>)) = IsAdmin (Some p)"
  by (simp add: IsAdmin_def)

end
