(* ===== verification/User_Roles.thy ===== *)
theory User_Roles
  imports Principals "HOL-Library.List_Lexorder" "HOL-Library.Char_ord" "HOL-Library.Multiset"
begin

text \<open>
  Role grants (\<^verbatim>\<open>rbac.go\<close>), the scopes a role resolves to (\<open>RolesConfig\<close> in \<^verbatim>\<open>config.go\<close>) and the session
  a stored row resolves to (\<open>loadStoredSessionChecked\<close> in \<^verbatim>\<open>auth_sessions.go\<close>). The state is the three
  tables they read and write. Times are nanoseconds; the database keeps and compares whole
  seconds. A request is what its handler decodes: the session, the outcome of the CSRF check,
  and the parsed path, query and body.
\<close>

section \<open>The tables\<close>

record grant =
  g_user :: int
  g_role :: string
  g_group :: "string option"
  g_granted :: int
  g_by :: "int option"
  g_expires :: "int option"

record account =
  u_id :: int
  u_email :: string
  u_role :: string
  u_deactivated :: bool
  u_verified :: bool
  u_grandfathered :: bool
  u_pwChange :: bool

record sessionRow =
  sr_id :: string
  sr_user :: int
  sr_group :: string
  sr_scopes :: string
  sr_acting :: string
  sr_expires :: int
  sr_impersonator :: int

record authDB =
  accounts :: "account list"
  sessions :: "sessionRow list"
  grants :: "grant list"

definition secOf :: "int \<Rightarrow> int" where
  "secOf t = t div 1000000000"

definition unexpired :: "int \<Rightarrow> grant \<Rightarrow> bool" where
  "unexpired now g = (case g_expires g of None \<Rightarrow> True | Some e \<Rightarrow> secOf now < e)"

section \<open>Roles of a session\<close>

definition addRole :: "string \<Rightarrow> string list \<Rightarrow> string list" where
  "addRole r out = (let r' = trim_space r in if r' = [] \<or> r' \<in> set out then out else out @ [r'])"

definition grantApplies :: "int \<Rightarrow> int \<Rightarrow> string \<Rightarrow> grant \<Rightarrow> bool" where
  "grantApplies now userID effectiveGroupID g \<longleftrightarrow> g_user g = userID \<and> unexpired now g \<and>
     (g_group g = None \<or> effectiveGroupID \<noteq> [] \<and> g_group g = Some effectiveGroupID)"

definition LoadSessionRoles :: "grant list \<Rightarrow> int \<Rightarrow> int \<Rightarrow> string \<Rightarrow> string \<Rightarrow> string list" where
  "LoadSessionRoles gs now userID primaryRole effectiveGroupID =
     fold addRole (map g_role (filter (grantApplies now userID effectiveGroupID) gs))
       (if primaryRole \<noteq> [] then [primaryRole] else [])"

definition globalAdminGrant :: "int \<Rightarrow> int \<Rightarrow> grant \<Rightarrow> bool" where
  "globalAdminGrant now userID g \<longleftrightarrow> g_user g = userID \<and> g_role g = ''admin'' \<and> g_group g = None \<and> unexpired now g"

definition UserHasGlobalAdminGrant :: "grant list \<Rightarrow> int \<Rightarrow> int \<Rightarrow> bool" where
  "UserHasGlobalAdminGrant gs now userID \<longleftrightarrow> userID \<noteq> 0 \<and> list_ex (globalAdminGrant now userID) gs"

definition impersonatorStillAdmin :: "authDB \<Rightarrow> int \<Rightarrow> int \<Rightarrow> bool" where
  "impersonatorStillAdmin db now adminID =
     (case find (\<lambda>u. u_id u = adminID \<and> \<not> u_deactivated u \<and> \<not> u_pwChange u) (accounts db) of
        None \<Rightarrow> False
      | Some u \<Rightarrow> u_role u = ''admin'' \<or> list_ex (globalAdminGrant now adminID) (grants db))"

definition accountOf :: "authDB \<Rightarrow> int \<Rightarrow> account option" where
  "accountOf db uid = find (\<lambda>u. u_id u = uid) (accounts db)"

text \<open>The join of the sessions and the accounts tables in \<open>loadStoredSessionChecked\<close>.\<close>

definition storedSessionRow :: "authDB \<Rightarrow> int \<Rightarrow> string list \<Rightarrow> (sessionRow \<times> account) option" where
  "storedSessionRow db now ids =
     (case find (\<lambda>s. sr_id s \<in> set ids \<and> secOf now < sr_expires s \<and>
          (case accountOf db (sr_user s) of None \<Rightarrow> False | Some u \<Rightarrow> \<not> u_pwChange u)) (sessions db) of
        None \<Rightarrow> None
      | Some s \<Rightarrow> map_option (\<lambda>u. (s, u)) (accountOf db (sr_user s)))"

text \<open>The session of a row and its account before the roles are loaded, which depend on its effective group.\<close>

definition sessionOf :: "authDB \<Rightarrow> int \<Rightarrow> sessionRow \<Rightarrow> account \<Rightarrow> principal" where
  "sessionOf db now s u =
     \<lparr>Scopes = sr_scopes s, CredentialScopes = sr_scopes s, accessTables = (\<lambda>_. False),
      SessionID = sr_id s, UserID = sr_user s, Email = u_email u,
      GroupID = (if sr_group s \<noteq> ''0'' then sr_group s else []), Role = u_role u, HeldRoles = [],
      Verified = u_verified u, EmailGrandfathered = u_grandfathered u,
      ActingAsGroup = (if sr_acting s \<noteq> [] \<and> sr_acting s \<noteq> ''0'' then sr_acting s else []),
      GlobalAdmin = (u_role u = ''admin'' \<or> UserHasGlobalAdminGrant (grants db) now (sr_user s)),
      connectorGrant = False\<rparr>"

definition loadStoredSession :: "authDB \<Rightarrow> int \<Rightarrow> string list \<Rightarrow> principal option" where
  "loadStoredSession db now ids =
     (case storedSessionRow db now ids of
        None \<Rightarrow> None
      | Some (s, u) \<Rightarrow>
          if u_deactivated u then None
          else if sr_impersonator s \<noteq> 0 \<and> \<not> impersonatorStillAdmin db now (sr_impersonator s) then None
          else
            let p = sessionOf db now s u
            in Some (p\<lparr>HeldRoles := LoadSessionRoles (grants db) now (sr_user s) (u_role u) (EffectiveGroupID (Some p))\<rparr>))"

section \<open>The scopes a role resolves to\<close>

record roleDef =
  rd_scopes :: string
  rd_inherits :: "string list"

type_synonym rolesConfig = "(string \<times> roleDef) list"

definition unseen :: "rolesConfig \<Rightarrow> string list \<Rightarrow> nat" where
  "unseen rc seen = card (set (map fst rc) - set seen)"

lemma unseen_less: "map_of rc name = Some d \<Longrightarrow> name \<notin> set seen \<Longrightarrow> unseen rc (name # seen) < unseen rc seen"
proof -
  assume d: "map_of rc name = Some d" and new: "name \<notin> set seen"
  then have "name \<in> set (map fst rc)" by (metis domI dom_map_of_conv_image_fst list.set_map)
  with new show ?thesis unfolding unseen_def by (intro psubset_card_mono) auto
qed

lemma unseen_le: "unseen rc (name # seen) \<le> unseen rc seen"
  unfolding unseen_def by (rule card_mono) auto

text \<open>The recursive closure \<open>walk\<close>, its call stack a list: the names still to visit.\<close>

function walk :: "rolesConfig \<Rightarrow> string list \<Rightarrow> string list \<Rightarrow> string list \<Rightarrow> string list" where
  "walk rc [] seen scopes = scopes"
| "walk rc (name # names) seen scopes =
     (if name \<in> set seen then walk rc names seen scopes
      else case map_of rc name of
          None \<Rightarrow> walk rc names (name # seen) scopes
        | Some d \<Rightarrow> walk rc (rd_inherits d @ names) (name # seen) (scopes @ str_fields (rd_scopes d)))"
  by pat_completeness auto

termination
proof (relation "measures [\<lambda>(rc, names, seen, scopes). unseen rc seen, \<lambda>(rc, names, seen, scopes). length names]")
qed (use unseen_le in \<open>auto simp: unseen_less le_less\<close>)

text \<open>\<open>sortStrings\<close>: each string sinks to the left of the greater ones before it.\<close>

fun sink :: "string \<Rightarrow> string list \<Rightarrow> string list" where
  "sink x [] = [x]"
| "sink x (y # ys) = (if y > x then y # sink x ys else x # y # ys)"

definition sortStrings :: "string list \<Rightarrow> string list" where
  "sortStrings s = rev (foldl (\<lambda>acc x. sink x acc) [] s)"

definition ResolveRoleScopes :: "rolesConfig option \<Rightarrow> string \<Rightarrow> string" where
  "ResolveRoleScopes rc role =
     (case rc of None \<Rightarrow> []
      | Some roles \<Rightarrow>
          if map_of roles role = None then []
          else
            let scopes = walk roles [role] [] [] in
            if ''*'' \<in> set scopes then ''*'' else join '' '' (sortStrings (remdups scopes)))"

definition combineScopes :: "rolesConfig \<Rightarrow> string \<Rightarrow> string list option \<Rightarrow> string list option" where
  "combineScopes rc r combined =
     (case combined of None \<Rightarrow> None
      | Some ts \<Rightarrow>
          let s = ResolveRoleScopes (Some rc) r in if s = ''*'' then None else Some (ts @ str_fields s))"

definition ResolveScopesForRoles :: "rolesConfig option \<Rightarrow> string list \<Rightarrow> string" where
  "ResolveScopesForRoles rc roles =
     (case rc of None \<Rightarrow> []
      | Some cfg \<Rightarrow>
          if roles = [] then []
          else case fold (combineScopes cfg) roles (Some []) of
              None \<Rightarrow> ''*''
            | Some ts \<Rightarrow> join '' '' (sortStrings (remdups ts)))"

definition KnownRoles :: "rolesConfig option \<Rightarrow> string list" where
  "KnownRoles rc = (case rc of None \<Rightarrow> [] | Some roles \<Rightarrow> sortStrings (map fst roles))"

section \<open>Facts about resolution\<close>

text \<open>One step of inheritance, and what the names reachable by it declare.\<close>

definition inheritStep :: "rolesConfig \<Rightarrow> (string \<times> string) set" where
  "inheritStep rc = {(a, b). \<exists>d. map_of rc a = Some d \<and> b \<in> set (rd_inherits d)}"

definition declares :: "rolesConfig \<Rightarrow> string \<Rightarrow> string set" where
  "declares rc n = (case map_of rc n of None \<Rightarrow> {} | Some d \<Rightarrow> set (str_fields (rd_scopes d)))"

lemma set_sink [simp]: "set (sink x ys) = insert x (set ys)"
  by (induction ys) auto

lemma sorted_sink: "sorted (rev ys) \<Longrightarrow> sorted (rev (sink x ys))"
  by (induction ys) (auto simp: sorted_append)

lemma mset_sink [simp]: "mset (sink x ys) = add_mset x (mset ys)"
  by (induction ys) auto

lemma sortStrings_sort: "sortStrings xs = sort xs"
proof -
  have "sorted (rev (foldl (\<lambda>acc x. sink x acc) acc xs)) \<and> mset (foldl (\<lambda>acc x. sink x acc) acc xs) = mset acc + mset xs"
    if "sorted (rev acc)" for acc
    using that by (induction xs arbitrary: acc) (simp_all add: sorted_sink)
  then show ?thesis unfolding sortStrings_def by (intro properties_for_sort [symmetric]) simp_all
qed

text \<open>The names visited later are those reachable without going through one seen before.\<close>

lemma walk_sound:
  "t \<in> set (walk rc names seen scopes) \<Longrightarrow>
   t \<in> set scopes \<or> (\<exists>n \<in> set names. \<exists>m. (n, m) \<in> (inheritStep rc)\<^sup>* \<and> t \<in> declares rc m)"
proof (induction rc names seen scopes rule: walk.induct)
  case (2 rc name names seen scopes)
  show ?case
  proof (cases "name \<in> set seen \<or> map_of rc name = None")
    case True
    then show ?thesis using 2 by (auto split: if_splits)
  next
    case False
    then obtain d where d: "map_of rc name = Some d" and new: "name \<notin> set seen" by auto
    from 2(3) [OF new d] 2(4) d new
    consider "t \<in> set scopes \<or> t \<in> declares rc name"
      | n m where "n \<in> set (rd_inherits d) \<union> set names" "(n, m) \<in> (inheritStep rc)\<^sup>*" "t \<in> declares rc m"
      by (auto simp: declares_def)
    then show ?thesis
    proof cases
      case 1
      then show ?thesis by auto
    next
      case (2 n m)
      have "n \<in> set (rd_inherits d) \<Longrightarrow> (name, n) \<in> inheritStep rc" using d by (auto simp: inheritStep_def)
      with 2 show ?thesis by (auto intro: converse_rtrancl_into_rtrancl)
    qed
  qed
qed simp

definition closedSeen :: "rolesConfig \<Rightarrow> string list \<Rightarrow> string list \<Rightarrow> string list \<Rightarrow> bool" where
  "closedSeen rc names seen scopes \<longleftrightarrow>
     (\<forall>n \<in> set seen. declares rc n \<subseteq> set scopes \<and>
        (\<forall>m. (n, m) \<in> inheritStep rc \<longrightarrow> m \<in> set seen \<or> m \<in> set names))"

definition covered :: "rolesConfig \<Rightarrow> string set \<Rightarrow> string list \<Rightarrow> bool" where
  "covered rc N out \<longleftrightarrow>
     (\<exists>V. N \<subseteq> V \<and> (\<forall>n \<in> V. declares rc n \<subseteq> set out \<and> (\<forall>m. (n, m) \<in> inheritStep rc \<longrightarrow> m \<in> V)))"

lemma covered_mono: "covered rc M out \<Longrightarrow> N \<subseteq> M \<Longrightarrow> covered rc N out"
  unfolding covered_def by (elim exE, rule exI) blast

lemma walk_complete:
  "closedSeen rc names seen scopes \<Longrightarrow> covered rc (set names \<union> set seen) (walk rc names seen scopes)"
proof (induction rc names seen scopes rule: walk.induct)
  case (1 rc seen scopes)
  then show ?case unfolding covered_def closedSeen_def by (intro exI [of _ "set seen"]) simp
next
  case (2 rc name names seen scopes)
  consider (old) "name \<in> set seen" | (unknown) "name \<notin> set seen" "map_of rc name = None"
    | (known) d where "name \<notin> set seen" "map_of rc name = Some d" by fastforce
  then show ?case
  proof cases
    case old
    then have "closedSeen rc names seen scopes" using "2.prems" by (auto simp: closedSeen_def)
    from covered_mono [OF 2(1) [OF old this]] old show ?thesis by simp
  next
    case unknown
    then have "closedSeen rc names (name # seen) scopes"
      using "2.prems" by (auto simp: closedSeen_def declares_def inheritStep_def)
    from covered_mono [OF 2(2) [OF unknown this]] unknown show ?thesis by simp
  next
    case known
    then have "closedSeen rc (rd_inherits d @ names) (name # seen) (scopes @ str_fields (rd_scopes d))"
      using "2.prems" by (auto simp: closedSeen_def declares_def inheritStep_def)
    from covered_mono [OF 2(3) [OF known this], of "set (name # names) \<union> set seen"] known
    show ?thesis by (auto simp: subset_iff)
  qed
qed

lemma walk_exact:
  "set (walk rc [role] [] []) = (\<Union>m \<in> {m. (role, m) \<in> (inheritStep rc)\<^sup>*}. declares rc m)"
proof (intro equalityI subsetI)
  fix t assume "t \<in> set (walk rc [role] [] [])"
  then show "t \<in> (\<Union>m \<in> {m. (role, m) \<in> (inheritStep rc)\<^sup>*}. declares rc m)"
    using walk_sound [of t rc "[role]" "[]" "[]"] by auto
next
  fix t assume "t \<in> (\<Union>m \<in> {m. (role, m) \<in> (inheritStep rc)\<^sup>*}. declares rc m)"
  then obtain m where m: "(role, m) \<in> (inheritStep rc)\<^sup>*" "t \<in> declares rc m" by auto
  obtain V where V: "role \<in> V" "\<And>n. n \<in> V \<Longrightarrow> declares rc n \<subseteq> set (walk rc [role] [] [])"
    "\<And>n m. n \<in> V \<Longrightarrow> (n, m) \<in> inheritStep rc \<Longrightarrow> m \<in> V"
    using walk_complete [of rc "[role]" "[]" "[]"] unfolding covered_def closedSeen_def by auto
  from m(1) have "m \<in> V" by (induction) (use V in auto)
  with V(2) m(2) show "t \<in> set (walk rc [role] [] [])" by auto
qed

end
