(* ===== verification/Role_Grants.thy ===== *)
theory Role_Grants
  imports User_Roles
begin

text \<open>
  The endpoints that grant, re-date and revoke roles and the sweep of expired grants (\<^verbatim>\<open>rbac.go\<close>,
  \<open>RegisterRoleRoutes\<close>, \<open>sweepExpiredRoles\<close>), on the tables of \<open>User_Roles\<close>. A handler takes the decoded
  request and the state and returns its answer and the state. A date that is sent is decoded by
  the caller: none, one that does not parse, or an instant.
\<close>

datatype sentDate = NoDate | BadDate | Instant int

record roleRequest =
  rq_session :: "principal option"
  rq_bearer :: bool
  rq_csrf :: bool
  rq_uid :: "int option"
  rq_role :: string
  rq_group :: string
  rq_body :: bool
  rq_expires :: sentDate

datatype roleAnswer =
    AdminRequired | BadCsrf | BadUserId | BadBody | RoleRequired | UndefinedRole | NoSuchUser | BadExpiry
  | ExpiryPast | Granted | GrantNotFound | Updated | LastActiveAdmin | Revoked

type_synonym auditEntry = "string \<times> int \<times> string"

definition roleGuard :: "roleRequest \<Rightarrow> roleAnswer option" where
  "roleGuard r =
     (if \<not> IsAdmin (rq_session r) \<or> \<not> sessionHasFullAccess (scopeView (rq_session r)) then Some AdminRequired
      else if \<not> rq_bearer r \<and> \<not> rq_csrf r then Some BadCsrf
      else case rq_uid r of None \<Rightarrow> Some BadUserId | Some uid \<Rightarrow> if uid \<le> 0 then Some BadUserId else None)"

definition callerID :: "roleRequest \<Rightarrow> int" where
  "callerID r = (case rq_session r of None \<Rightarrow> 0 | Some p \<Rightarrow> UserID p)"

definition targetID :: "roleRequest \<Rightarrow> int" where
  "targetID r = (case rq_uid r of None \<Rightarrow> 0 | Some u \<Rightarrow> u)"

text \<open>The unique index: user, role and group, no group read as the empty text.\<close>

definition grantKey :: "grant \<Rightarrow> int \<times> string \<times> string" where
  "grantKey g = (g_user g, g_role g, case g_group g of None \<Rightarrow> [] | Some x \<Rightarrow> x)"

definition upsertGrant :: "grant \<Rightarrow> grant list \<Rightarrow> grant list" where
  "upsertGrant g gs =
     (if list_ex (\<lambda>h. grantKey h = grantKey g) gs
      then map (\<lambda>h. if grantKey h = grantKey g
                 then h\<lparr>g_by := g_by g, g_expires := g_expires g, g_granted := g_granted g\<rparr> else h) gs
      else gs @ [g])"

definition expiresColumn :: "sentDate \<Rightarrow> int option" where
  "expiresColumn d = (case d of Instant t \<Rightarrow> Some (secOf t) | _ \<Rightarrow> None)"

definition handleRoleGrant :: "rolesConfig option \<Rightarrow> int \<Rightarrow> roleRequest \<Rightarrow> authDB \<Rightarrow> roleAnswer \<times> authDB" where
  "handleRoleGrant cfg now r db =
     (case roleGuard r of Some a \<Rightarrow> (a, db)
      | None \<Rightarrow>
          let role = trim_space (rq_role r); grp = trim_space (rq_group r) in
          if \<not> rq_body r then (BadBody, db)
          else if role = [] then (RoleRequired, db)
          else if role \<noteq> ''admin'' \<and> role \<noteq> ''user'' \<and> (case cfg of None \<Rightarrow> False | Some rc \<Rightarrow> map_of rc role = None)
            then (UndefinedRole, db)
          else if accountOf db (targetID r) = None then (NoSuchUser, db)
          else if rq_expires r = BadDate then (BadExpiry, db)
          else if (case rq_expires r of Instant t \<Rightarrow> t < now | _ \<Rightarrow> False) then (ExpiryPast, db)
          else
            let g = \<lparr>g_user = targetID r, g_role = role, g_group = (if grp \<noteq> [] then Some grp else None),
                  g_granted = secOf now, g_by = Some (callerID r), g_expires = expiresColumn (rq_expires r)\<rparr>
            in (Granted, db\<lparr>grants := upsertGrant g (grants db)\<rparr>))"

definition inGroup :: "string \<Rightarrow> grant \<Rightarrow> bool" where
  "inGroup grp g \<longleftrightarrow> (if grp = [] then g_group g = None else g_group g = Some grp)"

definition names :: "int \<Rightarrow> string \<Rightarrow> grant \<Rightarrow> bool" where
  "names uid role g \<longleftrightarrow> g_user g = uid \<and> g_role g = role"

definition handleRolePatch :: "int \<Rightarrow> roleRequest \<Rightarrow> authDB \<Rightarrow> roleAnswer \<times> authDB" where
  "handleRolePatch now r db =
     (case roleGuard r of Some a \<Rightarrow> (a, db)
      | None \<Rightarrow>
          let hit = (\<lambda>g. names (targetID r) (rq_role r) g \<and> inGroup (trim_space (rq_group r)) g) in
          if \<not> rq_body r then (BadBody, db)
          else if rq_expires r = BadDate then (BadExpiry, db)
          else if \<not> list_ex hit (grants db) then (GrantNotFound, db)
          else (Updated, db\<lparr>grants := map (\<lambda>g. if hit g then g\<lparr>g_expires := expiresColumn (rq_expires r)\<rparr> else g) (grants db)\<rparr>))"

text \<open>The count of the lockout guard: administrators by the account's column that are not deactivated, and
  live global administrator grants, of other users.\<close>

definition otherAdmins :: "authDB \<Rightarrow> int \<Rightarrow> int \<Rightarrow> nat" where
  "otherAdmins db now me =
     length (filter (\<lambda>u. u_role u = ''admin'' \<and> u_id u \<noteq> me \<and> \<not> u_deactivated u) (accounts db))
   + length (filter (\<lambda>g. g_role g = ''admin'' \<and> g_user g \<noteq> me \<and> g_group g = None \<and> unexpired now g) (grants db))"

definition handleRoleRevoke :: "int \<Rightarrow> roleRequest \<Rightarrow> authDB \<Rightarrow> roleAnswer \<times> authDB" where
  "handleRoleRevoke now r db =
     (case roleGuard r of Some a \<Rightarrow> (a, db)
      | None \<Rightarrow>
          let grp = trim_space (rq_group r); uid = targetID r; role = rq_role r;
              hit = (\<lambda>g. names uid role g \<and> (grp = ''all'' \<or> inGroup grp g)) in
          if uid = callerID r \<and> role = ''admin'' \<and> grp = [] \<and> otherAdmins db now (callerID r) = 0
            then (LastActiveAdmin, db)
          else if \<not> list_ex hit (grants db) then (GrantNotFound, db)
          else (Revoked, db\<lparr>grants := filter (\<lambda>g. \<not> hit g) (grants db)\<rparr>))"

text \<open>The sweep: the expired grants are read first and deleted one by one; a row that is gone by its
  turn is not audited again.\<close>

definition expiredGrant :: "int \<Rightarrow> grant \<Rightarrow> bool" where
  "expiredGrant now g \<longleftrightarrow> (case g_expires g of None \<Rightarrow> False | Some e \<Rightarrow> e \<le> secOf now)"

definition sweepOne :: "int \<Rightarrow> int \<times> string \<Rightarrow> grant list \<times> auditEntry list \<Rightarrow> grant list \<times> auditEntry list" where
  "sweepOne now e st = (case st of (gs, log) \<Rightarrow>
     let hit = (\<lambda>g. names (fst e) (snd e) g \<and> expiredGrant now g) in
     if list_ex hit gs then (filter (\<lambda>g. \<not> hit g) gs, log @ [(''role_expired'', fst e, snd e)]) else (gs, log))"

definition sweepExpiredRoles :: "int \<Rightarrow> authDB \<Rightarrow> authDB \<times> auditEntry list" where
  "sweepExpiredRoles now db =
     (case fold (sweepOne now) (map (\<lambda>g. (g_user g, g_role g)) (filter (expiredGrant now) (grants db))) (grants db, []) of
        (gs, log) \<Rightarrow> (db\<lparr>grants := gs\<rparr>, log))"

section \<open>Runs of the endpoints\<close>

datatype roleOp = OpGrant roleRequest | OpPatch roleRequest | OpRevoke roleRequest | OpSweep

fun roleStep :: "rolesConfig option \<Rightarrow> int \<times> roleOp \<Rightarrow> authDB \<Rightarrow> authDB" where
  "roleStep cfg (now, OpGrant r) db = snd (handleRoleGrant cfg now r db)"
| "roleStep cfg (now, OpPatch r) db = snd (handleRolePatch now r db)"
| "roleStep cfg (now, OpRevoke r) db = snd (handleRoleRevoke now r db)"
| "roleStep cfg (now, OpSweep) db = fst (sweepExpiredRoles now db)"

definition roleRun :: "rolesConfig option \<Rightarrow> (int \<times> roleOp) list \<Rightarrow> authDB \<Rightarrow> authDB" where
  "roleRun cfg = fold (roleStep cfg)"

definition grantsOk :: "authDB \<Rightarrow> bool" where
  "grantsOk db \<longleftrightarrow> distinct (map grantKey (grants db))"

lemma upsert_keys:
  "map grantKey (upsertGrant g gs) =
     (if grantKey g \<in> grantKey ` set gs then map grantKey gs else map grantKey gs @ [grantKey g])"
proof -
  have "list_ex (\<lambda>h. grantKey h = grantKey g) gs \<longleftrightarrow> grantKey g \<in> grantKey ` set gs"
    unfolding list_ex_iff image_iff by metis
  then show ?thesis by (auto simp: upsertGrant_def grantKey_def)
qed

lemma sweepOne_filter: "fst (sweepOne now e (gs, log)) = filter (\<lambda>g. \<not> (names (fst e) (snd e) g \<and> expiredGrant now g)) gs"
  by (auto simp: sweepOne_def Let_def list_ex_iff filter_id_conv)

lemma sweep_fold:
  "fst (fold (sweepOne now) es (gs, log)) =
     filter (\<lambda>g. \<not> (expiredGrant now g \<and> (g_user g, g_role g) \<in> set es)) gs"
proof (induction es arbitrary: gs log)
  case (Cons e es)
  obtain gs' log' where st: "sweepOne now e (gs, log) = (gs', log')" by fastforce
  then have gs': "gs' = filter (\<lambda>g. \<not> (names (fst e) (snd e) g \<and> expiredGrant now g)) gs"
    using sweepOne_filter [of now e gs log] by simp
  have "fst (fold (sweepOne now) (e # es) (gs, log)) = fst (fold (sweepOne now) es (gs', log'))" using st by simp
  also have "\<dots> = filter (\<lambda>g. \<not> (expiredGrant now g \<and> (g_user g, g_role g) \<in> set (e # es))) gs"
    unfolding Cons.IH gs' by (auto simp: names_def prod_eq_iff intro!: filter_cong)
  finally show ?case .
qed simp

lemma sweep_exact: "grants (fst (sweepExpiredRoles now db)) = filter (\<lambda>g. \<not> expiredGrant now g) (grants db)"
proof -
  let ?es = "map (\<lambda>g. (g_user g, g_role g)) (filter (expiredGrant now) (grants db))"
  have "grants (fst (sweepExpiredRoles now db)) = fst (fold (sweepOne now) ?es (grants db, []))"
    by (simp add: sweepExpiredRoles_def split: prod.splits)
  also have "\<dots> = filter (\<lambda>g. \<not> expiredGrant now g) (grants db)"
    unfolding sweep_fold by (rule filter_cong) auto
  finally show ?thesis .
qed

lemma grantsOk_step: "grantsOk db \<Longrightarrow> grantsOk (roleStep cfg e db)"
proof (cases e)
  fix now op
  assume ok: "grantsOk db" and e: "e = (now, op)"
  show ?thesis
  proof (cases op)
    case (OpGrant r)
    then show ?thesis using ok e
      by (auto simp: grantsOk_def handleRoleGrant_def Let_def upsert_keys split: option.splits if_splits)
  next
    case (OpPatch r)
    have "grantKey \<circ> (\<lambda>g. if P g then g\<lparr>g_expires := x\<rparr> else g) = grantKey" for P x
      by (auto simp: grantKey_def fun_eq_iff)
    then show ?thesis using ok e OpPatch
      by (auto simp: grantsOk_def handleRolePatch_def Let_def split: option.splits if_splits)
  next
    case (OpRevoke r)
    then show ?thesis using ok e
      by (auto simp: grantsOk_def handleRoleRevoke_def Let_def distinct_map_filter split: option.splits if_splits)
  next
    case OpSweep
    then show ?thesis using ok e by (simp add: grantsOk_def sweep_exact distinct_map_filter)
  qed
qed

section \<open>Who administers\<close>

text \<open>The users that pass for a global administrator: an account of the role column, or a live global grant.\<close>

definition adminOf :: "authDB \<Rightarrow> int \<Rightarrow> int \<Rightarrow> bool" where
  "adminOf db now uid \<longleftrightarrow> (\<exists>u \<in> set (accounts db). u_id u = uid \<and> u_role u = ''admin'') \<or>
     list_ex (globalAdminGrant now uid) (grants db)"

lemma accountOf_mem: "accountOf db uid = Some u \<Longrightarrow> u \<in> set (accounts db) \<and> u_id u = uid"
  by (auto simp: accountOf_def find_Some_iff)

lemma loadStoredSession_Some:
  assumes "loadStoredSession db now ids = Some p"
  obtains s u where "s \<in> set (sessions db)" "sr_id s \<in> set ids" "secOf now < sr_expires s"
    "accountOf db (sr_user s) = Some u" "\<not> u_pwChange u" "\<not> u_deactivated u"
    "sr_impersonator s \<noteq> 0 \<Longrightarrow> impersonatorStillAdmin db now (sr_impersonator s)"
    "p = (sessionOf db now s u)\<lparr>HeldRoles := LoadSessionRoles (grants db) now (sr_user s) (u_role u)
           (EffectiveGroupID (Some (sessionOf db now s u)))\<rparr>"
proof -
  obtain s u where row: "storedSessionRow db now ids = Some (s, u)" and live: "\<not> u_deactivated u"
    and imp: "sr_impersonator s \<noteq> 0 \<Longrightarrow> impersonatorStillAdmin db now (sr_impersonator s)"
    and p: "p = (sessionOf db now s u)\<lparr>HeldRoles := LoadSessionRoles (grants db) now (sr_user s) (u_role u)
           (EffectiveGroupID (Some (sessionOf db now s u)))\<rparr>"
    using assms unfolding loadStoredSession_def Let_def
    by (cases "storedSessionRow db now ids") (auto simp only: option.case prod.case option.inject split: prod.splits if_split_asm)
  have "s \<in> set (sessions db) \<and> sr_id s \<in> set ids \<and> secOf now < sr_expires s \<and> accountOf db (sr_user s) = Some u \<and> \<not> u_pwChange u"
    using row unfolding storedSessionRow_def find_Some_iff
    by (auto simp: find_Some_iff split: option.splits)
  then show ?thesis using that live imp p by blast
qed

lemma sessionOf_fields [simp]:
  "UserID (sessionOf db now s u) = sr_user s" "Role (sessionOf db now s u) = u_role u" "Email (sessionOf db now s u) = u_email u"
  "GlobalAdmin (sessionOf db now s u) \<longleftrightarrow> u_role u = ''admin'' \<or> UserHasGlobalAdminGrant (grants db) now (sr_user s)"
  "SessionID (sessionOf db now s u) = sr_id s"
  by (simp_all add: sessionOf_def)

lemma effective_held [simp]: "EffectiveGroupID (Some (p\<lparr>HeldRoles := rs\<rparr>)) = EffectiveGroupID (Some p)"
  by (simp add: EffectiveGroupID_def IsAdmin_def)

lemma loaded_session:
  assumes "loadStoredSession db now ids = Some p"
  obtains u where "accountOf db (UserID p) = Some u" "Role p = u_role u" "Email p = u_email u" "\<not> u_deactivated u" "\<not> u_pwChange u"
    "IsAdmin (Some p) \<longleftrightarrow> u_role u = ''admin'' \<or> UserHasGlobalAdminGrant (grants db) now (UserID p)"
    "HeldRoles p = LoadSessionRoles (grants db) now (UserID p) (Role p) (EffectiveGroupID (Some p))"
  using assms by (rule loadStoredSession_Some) (simp add: IsAdmin_def)

lemma LoadSessionRoles_set:
  "set (LoadSessionRoles gs now uid primary eff) =
     {trim_space (g_role g) | g. g \<in> set gs \<and> grantApplies now uid eff g \<and> trim_space (g_role g) \<noteq> []}
     \<union> (if primary \<noteq> [] then {primary} else {})"
proof -
  have "set (fold addRole rs out) = set out \<union> {trim_space r | r. r \<in> set rs \<and> trim_space r \<noteq> []}" for rs out
    by (induction rs arbitrary: out) (auto simp: addRole_def Let_def)
  then show ?thesis unfolding LoadSessionRoles_def by auto
qed

lemma held_role_source:
  assumes "loadStoredSession db now ids = Some p" "r \<in> set (HeldRoles p)"
  shows "r = Role p \<or> (\<exists>g \<in> set (grants db). trim_space (g_role g) = r \<and> g_user g = UserID p \<and> unexpired now g \<and>
         (g_group g = None \<or> g_group g = Some (EffectiveGroupID (Some p)) \<and> EffectiveGroupID (Some p) \<noteq> []))"
proof -
  have "HeldRoles p = LoadSessionRoles (grants db) now (UserID p) (Role p) (EffectiveGroupID (Some p))"
    using loaded_session [OF assms(1)] by metis
  with assms(2) show ?thesis by (auto simp: LoadSessionRoles_set grantApplies_def split: if_splits)
qed

lemma effective_not_zero: "loadStoredSession db now ids = Some p \<Longrightarrow> EffectiveGroupID (Some p) \<noteq> ''0''"
  by (erule loadStoredSession_Some) (simp add: EffectiveGroupID_def sessionOf_def)

section \<open>Properties\<close>

text \<open>C16: The authority of a stored session comes from the account and from live grants only: it is an
  administrator's exactly when the account's role column says so or a live global grant does, a
  role it holds is the account's own or granted to the user globally or in the group the session
  acts in, stepping into a group moves nobody but an administrator, and a support session answers
  only while the administrator behind it is one.\<close>

theorem stored_session_authority:
  assumes "loadStoredSession db now ids = Some p"
  shows "(IsAdmin (Some p) \<longleftrightarrow>
      (\<exists>u. accountOf db (UserID p) = Some u \<and> u_role u = ''admin'') \<or> UserHasGlobalAdminGrant (grants db) now (UserID p)) \<and>
    (\<forall>r \<in> set (HeldRoles p). r = Role p \<or>
      (\<exists>g \<in> set (grants db). trim_space (g_role g) = r \<and> g_user g = UserID p \<and> unexpired now g \<and>
         (g_group g = None \<or> g_group g = Some (EffectiveGroupID (Some p))))) \<and>
    (\<not> IsAdmin (Some p) \<longrightarrow> EffectiveGroupID (Some p) = GroupID p) \<and>
    (\<exists>s \<in> set (sessions db). sr_id s = SessionID p \<and>
       (sr_impersonator s \<noteq> 0 \<longrightarrow> impersonatorStillAdmin db now (sr_impersonator s)))"
proof (intro conjI)
  obtain u where u: "accountOf db (UserID p) = Some u" "Role p = u_role u"
    "IsAdmin (Some p) \<longleftrightarrow> u_role u = ''admin'' \<or> UserHasGlobalAdminGrant (grants db) now (UserID p)"
    "HeldRoles p = LoadSessionRoles (grants db) now (UserID p) (Role p) (EffectiveGroupID (Some p))"
    using loaded_session [OF assms] by metis
  then show "IsAdmin (Some p) \<longleftrightarrow>
      (\<exists>u. accountOf db (UserID p) = Some u \<and> u_role u = ''admin'') \<or> UserHasGlobalAdminGrant (grants db) now (UserID p)"
    by simp
  show "\<forall>r \<in> set (HeldRoles p). r = Role p \<or>
      (\<exists>g \<in> set (grants db). trim_space (g_role g) = r \<and> g_user g = UserID p \<and> unexpired now g \<and>
         (g_group g = None \<or> g_group g = Some (EffectiveGroupID (Some p))))"
    using held_role_source [OF assms] by blast
  show "\<not> IsAdmin (Some p) \<longrightarrow> EffectiveGroupID (Some p) = GroupID p" by (simp add: EffectiveGroupID_def)
  show "\<exists>s \<in> set (sessions db). sr_id s = SessionID p \<and>
       (sr_impersonator s \<noteq> 0 \<longrightarrow> impersonatorStillAdmin db now (sr_impersonator s))"
    using assms by (rule loadStoredSession_Some) auto
qed

text \<open>C29: A user holds a role at most once globally and once per group, after any run of the endpoints and
  the sweep.\<close>

theorem grants_one_per_key:
  "grantsOk db \<Longrightarrow> grantsOk (roleRun cfg es db)"
  unfolding roleRun_def by (induction es arbitrary: db) (simp_all add: grantsOk_step)


lemma swept_unexpired: "now \<le> now' \<Longrightarrow> unexpired now' g \<Longrightarrow> \<not> expiredGrant now g"
  using zdiv_mono1 [of now now' 1000000000] by (auto simp: unexpired_def expiredGrant_def secOf_def split: option.splits)

lemma sweep_frame [simp]:
  "accounts (fst (sweepExpiredRoles now db)) = accounts db" "sessions (fst (sweepExpiredRoles now db)) = sessions db"
  by (simp_all add: sweepExpiredRoles_def split: prod.splits)

text \<open>C28: The sweep of expired grants is not seen: every session resolves the same with and without it.\<close>

theorem role_sweep_unseen:
  assumes "now \<le> now'"
  shows "loadStoredSession (fst (sweepExpiredRoles now db)) now' ids = loadStoredSession db now' ids"
proof -
  let ?gs = "filter (\<lambda>g. \<not> expiredGrant now g) (grants db)"
  have live: "list_ex (globalAdminGrant now' u) ?gs = list_ex (globalAdminGrant now' u) (grants db)" for u
    using swept_unexpired [OF assms] by (auto simp: list_ex_iff globalAdminGrant_def)
  have roles: "LoadSessionRoles ?gs now' u pr eff = LoadSessionRoles (grants db) now' u pr eff" for u pr eff
  proof -
    have "filter (grantApplies now' u eff) ?gs = filter (grantApplies now' u eff) (grants db)"
      using swept_unexpired [OF assms] by (auto simp: grantApplies_def intro!: filter_cong)
    then show ?thesis by (simp only: LoadSessionRoles_def)
  qed
  show ?thesis
    unfolding loadStoredSession_def storedSessionRow_def accountOf_def sessionOf_def impersonatorStillAdmin_def
      UserHasGlobalAdminGrant_def sweep_frame sweep_exact live roles ..
qed

text \<open>C30: The scopes a role resolves to are exactly those declared by the roles it inherits from, directly
  or through others, itself included; a cycle of roles is walked once.\<close>

theorem resolved_scopes_exact:
  assumes "map_of rc role \<noteq> None"
  shows "set (str_fields (ResolveRoleScopes (Some rc) role)) =
    (let ts = \<Union>m \<in> {m. (role, m) \<in> (inheritStep rc)\<^sup>*}. declares rc m in if ''*'' \<in> ts then {''*''} else ts)"
proof -
  let ?w = "walk rc [role] [] []"
  have words: "\<forall>t \<in> set ?w. t \<noteq> [] \<and> spaceFree t"
    using walk_exact [of rc role] str_fields_spaceFree by (auto simp: declares_def split: option.splits)
  then have "str_fields (join '' '' (sort (remdups ?w))) = sort (remdups ?w)"
    by (intro str_fields_join) simp
  moreover have "str_fields ''*'' = [''*'']"
    using str_fields_join [of "[''*'']"] by (simp add: wide_spaces_def ascii_space_def byte_def)
  moreover obtain d where "map_of rc role = Some d" using assms by auto
  ultimately show ?thesis
    by (simp add: ResolveRoleScopes_def Let_def sortStrings_sort walk_exact [symmetric] del: walk.simps)
qed

section \<open>The gaps of the last-administrator guard\<close>

definition rootAccount :: account where
  "rootAccount = \<lparr>u_id = 1, u_email = ''a@x.org'', u_role = ''user'', u_deactivated = False, u_verified = True,
     u_grandfathered = False, u_pwChange = False\<rparr>"

definition rootGrant :: "int \<Rightarrow> grant" where
  "rootGrant uid = \<lparr>g_user = uid, g_role = ''admin'', g_group = None, g_granted = 0, g_by = None, g_expires = None\<rparr>"

definition rootDB :: "account list \<Rightarrow> grant list \<Rightarrow> authDB" where
  "rootDB us gs = \<lparr>accounts = rootAccount # us,
     sessions = [\<lparr>sr_id = ''s'', sr_user = 1, sr_group = [], sr_scopes = [], sr_acting = [], sr_expires = 100, sr_impersonator = 0\<rparr>],
     grants = rootGrant 1 # gs\<rparr>"

definition rootRequest :: "string \<Rightarrow> sentDate \<Rightarrow> authDB \<Rightarrow> roleRequest" where
  "rootRequest grp d db = \<lparr>rq_session = loadStoredSession db 0 [''s''], rq_bearer = False, rq_csrf = True, rq_uid = Some 1,
     rq_role = ''admin'', rq_group = grp, rq_body = True, rq_expires = d\<rparr>"

definition goneAccount :: account where
  "goneAccount = rootAccount\<lparr>u_id := 2, u_deactivated := True\<rparr>"

text \<open>The accounts a session of theirs would be an administrator's for.\<close>

definition usableAdmins :: "authDB \<Rightarrow> int \<Rightarrow> int list" where
  "usableAdmins db now = map u_id (filter (\<lambda>u. \<not> u_deactivated u \<and> \<not> u_pwChange u \<and>
     (u_role u = ''admin'' \<or> UserHasGlobalAdminGrant (grants db) now (u_id u))) (accounts db))"

lemma admin_session_usable:
  assumes "loadStoredSession db now ids = Some p" "IsAdmin (Some p)"
  shows "UserID p \<in> set (usableAdmins db now)"
  using assms(2) by (rule_tac loaded_session [OF assms(1)]) (auto simp: usableAdmins_def intro: rev_image_eqI dest!: accountOf_mem)

lemma root_session:
  "loadStoredSession (rootDB us gs) 0 [''s''] =
     Some ((sessionOf (rootDB us gs) 0 (hd (sessions (rootDB us gs))) rootAccount)
       \<lparr>HeldRoles := LoadSessionRoles (grants (rootDB us gs)) 0 1 ''user'' []\<rparr>)"
  by (simp add: loadStoredSession_def storedSessionRow_def rootDB_def rootAccount_def accountOf_def secOf_def Let_def
      sessionOf_def EffectiveGroupID_def)

lemma root_guard: "roleGuard (rootRequest grp d (rootDB us gs)) = None"
  by (simp add: roleGuard_def rootRequest_def root_session sessionHasFullAccess_def IsAdmin_def)
    (simp add: sessionOf_def rootDB_def rootAccount_def rootGrant_def UserHasGlobalAdminGrant_def globalAdminGrant_def
      unexpired_def session.defs)

text \<open>The guard counts only what it is asked about. An administrator who is the last one and names the
  group \<^verbatim>\<open>all\<close> revokes the grant that the plain request is refused; a date in the past ends it as
  well, unguarded; and the grant of a deactivated account counts as another administrator. Each
  leaves no account whose session would be an administrator's.\<close>

theorem last_admin_gaps:
  "let one = rootDB [] []; two = rootDB [goneAccount] [rootGrant 2];
       all = handleRoleRevoke 0 (rootRequest ''all'' NoDate one) one;
       past = handleRolePatch 0 (rootRequest [] (Instant (-1)) one) one;
       gone = handleRoleRevoke 0 (rootRequest [] NoDate two) two
   in fst (handleRoleRevoke 0 (rootRequest [] NoDate one) one) = LastActiveAdmin \<and>
      usableAdmins one 0 = [1] \<and> usableAdmins two 0 = [1] \<and>
      fst all = Revoked \<and> usableAdmins (snd all) 0 = [] \<and>
      fst past = Updated \<and> usableAdmins (snd past) 0 = [] \<and>
      fst gone = Revoked \<and> usableAdmins (snd gone) 0 = []"
proof -
  have caller: "callerID (rootRequest grp d (rootDB us gs)) = 1" for grp d us gs
    by (simp add: callerID_def rootRequest_def root_session) (simp add: rootDB_def)
  have req: "targetID (rootRequest grp d db) = 1" "rq_role (rootRequest grp d db) = ''admin''"
    "rq_group (rootRequest grp d db) = grp" "rq_body (rootRequest grp d db)" "rq_expires (rootRequest grp d db) = d" for grp d db
    by (simp_all add: rootRequest_def targetID_def)
  have trim: "trim_space [] = []" "trim_space ''all'' = ''all''" by (simp_all add: go_eval)
  note first = handleRoleRevoke_def handleRolePatch_def root_guard caller req trim Let_def otherAdmins_def names_def inGroup_def
    usableAdmins_def UserHasGlobalAdminGrant_def globalAdminGrant_def
  note rest = globalAdminGrant_def rootDB_def rootGrant_def rootAccount_def goneAccount_def unexpired_def expiresColumn_def secOf_def
  have guarded: "fst (handleRoleRevoke 0 (rootRequest [] NoDate (rootDB [] [])) (rootDB [] [])) = LastActiveAdmin"
    by (simp add: first) (simp add: rest)
  have start: "usableAdmins (rootDB [] []) 0 = [1]" "usableAdmins (rootDB [goneAccount] [rootGrant 2]) 0 = [1]"
    by (simp_all add: first) (simp_all add: rest)
  have all: "handleRoleRevoke 0 (rootRequest ''all'' NoDate (rootDB [] [])) (rootDB [] []) = (Revoked, (rootDB [] [])\<lparr>grants := []\<rparr>)"
    by (simp add: first) (simp add: rest)
  have past: "handleRolePatch 0 (rootRequest [] (Instant (-1)) (rootDB [] [])) (rootDB [] [])
      = (Updated, (rootDB [] [])\<lparr>grants := [(rootGrant 1)\<lparr>g_expires := Some (-1)\<rparr>]\<rparr>)"
    by (simp add: first cong: if_cong) (simp add: rest)
  have gone: "handleRoleRevoke 0 (rootRequest [] NoDate (rootDB [goneAccount] [rootGrant 2])) (rootDB [goneAccount] [rootGrant 2])
      = (Revoked, (rootDB [goneAccount] [rootGrant 2])\<lparr>grants := [rootGrant 2]\<rparr>)"
    by (simp add: first) (simp add: rest)
  show ?thesis
    unfolding Let_def all past gone guarded start by (simp add: usableAdmins_def UserHasGlobalAdminGrant_def globalAdminGrant_def rest)
qed

section \<open>Witnesses\<close>

theorem stored_session_authority_witness:
  "IsAdmin (loadStoredSession (rootDB [] []) 0 [''s''])"
proof -
  have "UserHasGlobalAdminGrant (grants (rootDB [] [])) 0 1"
    by (simp add: UserHasGlobalAdminGrant_def globalAdminGrant_def rootDB_def rootGrant_def unexpired_def)
  then show ?thesis
    using stored_session_authority [OF root_session [of "[]" "[]"]] unfolding root_session by (simp add: rootDB_def)
qed

theorem grants_one_per_key_witness:
  "grantsOk (roleRun None [(0, OpSweep)] (rootDB [] []))"
  by (rule grants_one_per_key) (simp add: grantsOk_def rootDB_def)


theorem role_sweep_unseen_witness:
  "loadStoredSession (fst (sweepExpiredRoles 0 (rootDB [] []))) 0 [''s''] = loadStoredSession (rootDB [] []) 0 [''s'']"
  by (rule role_sweep_unseen) simp

theorem resolved_scopes_exact_witness:
  "set (str_fields (ResolveRoleScopes (Some [(''a'', \<lparr>rd_scopes = [], rd_inherits = [''a'']\<rparr>)]) ''a'')) = {}"
proof -
  let ?rc = "[(''a'', \<lparr>rd_scopes = [], rd_inherits = [''a'']\<rparr>)]"
  have "declares ?rc m = {}" for m by (simp add: declares_def str_fields_def fields_acc.simps)
  then show ?thesis using resolved_scopes_exact [of ?rc "''a''"] by simp
qed

end
