(* ===== verification/Access_Modes.thy ===== *)
theory Access_Modes
  imports User_Roles
begin

text \<open>
  The access modes an app declares (\<^verbatim>\<open>access.go\<close>): the cascade from a table's rule to the implicit
  default, the coarse gate \<open>Allowed\<close>, the parsed form of a \<^verbatim>\<open>member-of:\<close> rule and which tables it
  fits, and the mode gates of \<^verbatim>\<open>role:\<close> and \<^verbatim>\<open>perm:\<close>. The app is a record of the parts these functions
  read: its tables and columns, the groups block, the rules, the roles and the foreign keys.
\<close>

section \<open>The app\<close>

record columnDef =
  c_name :: string
  c_type :: string

record tableDef =
  t_name :: string
  t_columns :: "columnDef list"

record groupBootstrap =
  OrgTable :: string
  FoundingRole :: string

record groupConfig =
  gr_table :: string
  gr_key :: string
  gr_userField :: string
  gr_roleField :: string
  gr_activeField :: string
  gr_bootstrap :: "groupBootstrap option"
  gr_shared :: "string list"

record accessConfig =
  rules :: "string \<rightharpoonup> (string \<rightharpoonup> string)"
  rolesDeclared :: bool

record foreignKey =
  fk_table :: string
  fk_column :: string

text \<open>\<open>JoinMap\<close> as the list a range over the map visits.\<close>

record appConfig =
  app_tables :: "tableDef list"
  app_group :: "groupConfig option"
  app_access :: "accessConfig option"
  app_roles :: "rolesConfig option"
  app_joins :: "(string \<times> (string \<times> foreignKey) list) list"

datatype accessOp = OpRead | OpWrite | OpUpdate | OpDelete

fun opName :: "accessOp \<Rightarrow> string" where
  "opName OpRead = ''read''"
| "opName OpWrite = ''write''"
| "opName OpUpdate = ''update''"
| "opName OpDelete = ''delete''"

section \<open>Names\<close>

text \<open>The fold maps ASCII letters only; names are valid UTF-8.\<close>

definition sqliteIdentifierFold :: "string \<Rightarrow> string" where
  "sqliteIdentifierFold name = map lowc name"

definition identIs :: "string \<Rightarrow> string \<Rightarrow> bool" where
  "identIs name want \<longleftrightarrow> want \<noteq> [] \<and> sqliteIdentifierFold name = sqliteIdentifierFold want"

definition safeIdent :: "string \<Rightarrow> bool" where
  "safeIdent s \<longleftrightarrow> s \<noteq> [] \<and> list_all (\<lambda>c. is_letter c \<or> is_digit c \<or> c = CHR ''_'') s"

definition hasColumn :: "appConfig \<Rightarrow> string \<Rightarrow> string \<Rightarrow> bool" where
  "hasColumn app table column =
     list_ex (\<lambda>t. sqliteIdentifierFold (t_name t) = sqliteIdentifierFold table \<and>
       list_ex (\<lambda>c. sqliteIdentifierFold (c_name c) = sqliteIdentifierFold column) (t_columns t)) (app_tables app)"

definition appHasTable :: "appConfig \<Rightarrow> string \<Rightarrow> bool" where
  "appHasTable app name = list_ex (\<lambda>t. t_name t = name) (app_tables app)"

definition groupKey :: "appConfig \<Rightarrow> string" where
  "groupKey app = (case app_group app of None \<Rightarrow> [] | Some g \<Rightarrow> gr_key g)"

text \<open>The test \<^verbatim>\<open>app.Group != nil && app.Group.Key != "" && hasColumn(app, table, app.Group.Key)\<close> that
  the functions repeat.\<close>

definition tableIsGrouped :: "appConfig \<Rightarrow> string \<Rightarrow> bool" where
  "tableIsGrouped app table \<longleftrightarrow> groupKey app \<noteq> [] \<and> hasColumn app table (groupKey app)"

definition hasUserColumn :: "appConfig \<Rightarrow> string \<Rightarrow> bool" where
  "hasUserColumn app table = hasColumn app table ''user_id''"

section \<open>The mode of a table and operation\<close>

definition implicitDefault :: "bool \<Rightarrow> bool \<Rightarrow> string" where
  "implicitDefault tableHasUserID tableHasGroupKey =
     (if tableHasUserID then ''self'' else if tableHasGroupKey then ''group'' else ''admin'')"

definition ruleMode :: "accessConfig \<Rightarrow> string \<Rightarrow> accessOp \<Rightarrow> string option" where
  "ruleMode a key op =
     (case rules a key of
        None \<Rightarrow> None
      | Some ops \<Rightarrow> (case ops (opName op) of Some m \<Rightarrow> Some m | None \<Rightarrow> ops ''all''))"

definition TableDeclaredModeFor :: "accessConfig option \<Rightarrow> string \<Rightarrow> accessOp \<Rightarrow> string option" where
  "TableDeclaredModeFor a table op = (case a of None \<Rightarrow> None | Some ac \<Rightarrow> ruleMode ac (to_lower table) op)"

definition DeclaredModeFor :: "accessConfig option \<Rightarrow> string \<Rightarrow> accessOp \<Rightarrow> string option" where
  "DeclaredModeFor a table op =
     (case a of
        None \<Rightarrow> None
      | Some ac \<Rightarrow>
          (case ruleMode ac (to_lower table) op of
             Some m \<Rightarrow> Some m
           | None \<Rightarrow> ruleMode ac ''default'' op))"

definition ModeFor :: "accessConfig option \<Rightarrow> string \<Rightarrow> accessOp \<Rightarrow> bool \<Rightarrow> bool \<Rightarrow> string" where
  "ModeFor a table op tableHasUserID tableHasGroupKey =
     (case DeclaredModeFor a table op of
        Some m \<Rightarrow> m
      | None \<Rightarrow> implicitDefault tableHasUserID tableHasGroupKey)"

definition HasExplicitRule :: "accessConfig option \<Rightarrow> string \<Rightarrow> accessOp \<Rightarrow> bool" where
  "HasExplicitRule a table op = (TableDeclaredModeFor a table op \<noteq> None)"

definition tableMode :: "appConfig \<Rightarrow> string \<Rightarrow> accessOp \<Rightarrow> string" where
  "tableMode app table op = ModeFor (app_access app) table op (hasUserColumn app table) (tableIsGrouped app table)"

definition explicitSelfFor :: "appConfig \<Rightarrow> string \<Rightarrow> accessOp \<Rightarrow> bool" where
  "explicitSelfFor app table op \<longleftrightarrow>
     app_access app \<noteq> None \<and> DeclaredModeFor (app_access app) table op = Some ''self'' \<and> hasUserColumn app table"

definition splitCommaList :: "string \<Rightarrow> string list" where
  "splitCommaList s = (if s = [] then [] else filter (\<lambda>t. t \<noteq> []) (map trim_space (split_at CHR '','' s)))"

text \<open>\<^verbatim>\<open>strings.Replace(want, ".", ":", 1)\<close>.\<close>

definition dotToColon :: "string \<Rightarrow> string" where
  "dotToColon w = (case cut_at CHR ''.'' w of None \<Rightarrow> w | Some (a, b) \<Rightarrow> a @ '':'' @ b)"

section \<open>Membership rules\<close>

record memberOfRule =
  mr_table :: string
  mr_join :: string
  mr_user :: string
  mr_parent :: bool

definition moStart :: "char \<Rightarrow> bool" where
  "moStart c \<longleftrightarrow> is_lower c \<or> c = CHR ''_''"

definition moByte :: "char \<Rightarrow> bool" where
  "moByte c \<longleftrightarrow> is_lower c \<or> is_digit c \<or> c = CHR ''_''"

definition moSpace :: "char \<Rightarrow> bool" where
  "moSpace c \<longleftrightarrow> c \<in> {CHR '' '', CHR 0x09, CHR 0x0A, CHR 0x0C, CHR 0x0D}"

definition moIdent :: "string \<Rightarrow> (string \<times> string) option" where
  "moIdent s = (if s \<noteq> [] \<and> moStart (hd s) then Some (takeWhile moByte s, dropWhile moByte s) else None)"

definition moExpect :: "char \<Rightarrow> string \<Rightarrow> string option" where
  "moExpect c s = (if s \<noteq> [] \<and> hd s = c then Some (tl s) else None)"

text \<open>The optional \<^verbatim>\<open>= id\<close> of the expression, present or not, and what follows it.\<close>

definition moParent :: "string \<Rightarrow> bool \<times> string" where
  "moParent s =
     (case moExpect CHR ''='' s of
        None \<Rightarrow> (False, s)
      | Some r \<Rightarrow>
          let r' = dropWhile moSpace r in
          if prefix ''id'' r' then (True, dropWhile moSpace (drop 2 r')) else (False, s))"

definition parseMemberOf :: "string \<Rightarrow> memberOfRule option" where
  "parseMemberOf mode =
     (let m = trim_space mode in
      if \<not> prefix ''member-of:'' m then None
      else case moIdent (drop 10 m) of None \<Rightarrow> None
      | Some (table, s1) \<Rightarrow>
        (case moExpect CHR ''('' s1 of None \<Rightarrow> None
         | Some s2 \<Rightarrow>
           (case moIdent (dropWhile moSpace s2) of None \<Rightarrow> None
            | Some (join_col, s3) \<Rightarrow>
              (case moParent (dropWhile moSpace s3) of (parent, s4) \<Rightarrow>
               (case moExpect CHR '','' s4 of None \<Rightarrow> None
                | Some s5 \<Rightarrow>
                  (case moIdent (dropWhile moSpace s5) of None \<Rightarrow> None
                   | Some (user_col, s6) \<Rightarrow>
                     if dropWhile moSpace s6 = '')''
                     then Some \<lparr>mr_table = table, mr_join = join_col, mr_user = user_col, mr_parent = parent\<rparr>
                     else None))))))"

definition memberOfJoinNamesTable :: "string \<Rightarrow> string \<Rightarrow> bool" where
  "memberOfJoinNamesTable joinCol table =
     (let j = sqliteIdentifierFold joinCol; stem = trim_suffix j ''_id''; t = sqliteIdentifierFold table in
      if \<not> suffix ''_id'' j \<or> stem = [] \<or> t = [] then False
      else if t = stem \<or> t = stem @ ''s'' \<or> t = stem @ ''es'' then True
      else suffix ''y'' stem \<and> t = trim_suffix stem ''y'' @ ''ies'')"

text \<open>The first foreign key, of the rule's join column, that the loop meets decides.\<close>

definition joinColumnKey :: "appConfig \<Rightarrow> memberOfRule \<Rightarrow> foreignKey option" where
  "joinColumnKey app rule =
     (case filter (\<lambda>(col, fk). identIs col (mr_join rule))
         (concat (map snd (filter (\<lambda>(mt, fks). identIs mt (mr_table rule)) (app_joins app)))) of
        [] \<Rightarrow> None
      | (col, fk) # _ \<Rightarrow> Some fk)"

definition bootstrapOrg :: "appConfig \<Rightarrow> string" where
  "bootstrapOrg app =
     (case app_group app of None \<Rightarrow> []
      | Some g \<Rightarrow> (case gr_bootstrap g of None \<Rightarrow> [] | Some b \<Rightarrow> OrgTable b))"

definition memberOfIsParent :: "appConfig \<Rightarrow> string \<Rightarrow> memberOfRule \<Rightarrow> bool" where
  "memberOfIsParent app table rule =
     (case joinColumnKey app rule of
        Some fk \<Rightarrow> identIs (fk_table fk) table \<and> (fk_column fk = [] \<or> identIs (fk_column fk) ''id'')
      | None \<Rightarrow>
          (case app_group app of
             Some g \<Rightarrow>
               if identIs (mr_table rule) (gr_table g) \<and> identIs (mr_join rule) (gr_key g) \<and> bootstrapOrg app \<noteq> []
               then identIs (bootstrapOrg app) table
               else memberOfJoinNamesTable (mr_join rule) table
           | None \<Rightarrow> memberOfJoinNamesTable (mr_join rule) table))"

definition joinTarget :: "appConfig \<Rightarrow> memberOfRule \<Rightarrow> string \<Rightarrow> string option" where
  "joinTarget app rule table =
     (if mr_parent rule then Some ''id''
      else if hasColumn app table (mr_join rule) then Some (mr_join rule)
      else if memberOfIsParent app table rule then Some ''id''
      else None)"

definition memberOfMisdeclared :: "appConfig \<Rightarrow> string \<Rightarrow> string \<Rightarrow> bool" where
  "memberOfMisdeclared app table mode =
     (case parseMemberOf mode of None \<Rightarrow> False | Some rule \<Rightarrow> joinTarget app rule table = None)"

definition memberOfFor :: "appConfig \<Rightarrow> string \<Rightarrow> accessOp \<Rightarrow> memberOfRule option" where
  "memberOfFor app table op =
     (if app_access app = None then None
      else let mode = tableMode app table op in
        if \<not> prefix ''member-of:'' mode then None else parseMemberOf mode)"

section \<open>The coarse gate\<close>

definition Allowed :: "accessConfig option \<Rightarrow> string \<Rightarrow> principal option \<Rightarrow> int \<Rightarrow> bool" where
  "Allowed a mode s targetUserID =
     (if mode = ''off'' then False
      else if mode = ''anon'' then True
      else if mode = ''everyone'' then s \<noteq> None
      else if mode = ''admin'' then IsAdmin s
      else if mode = ''self'' then
        (case s of None \<Rightarrow> False | Some p \<Rightarrow> targetUserID = 0 \<or> targetUserID = UserID p \<or> IsAdmin s)
      else if mode = ''group'' then IsAdmin s \<or> HasGroup s
      else if prefix ''role:'' mode then HasAnyRole s (splitCommaList (drop 5 mode))
      else if prefix ''perm:'' mode then
        (case a of None \<Rightarrow> False | Some ac \<Rightarrow> rolesDeclared ac \<and> HasPermission s (dotToColon (drop 5 mode)))
      else if prefix ''member-of:'' mode then parseMemberOf mode \<noteq> None \<and> s \<noteq> None
      else if prefix ''owner_or_role:'' mode then trim_space (drop 14 mode) \<noteq> [] \<and> s \<noteq> None
      else False)"

definition ownerOrRoleFor :: "appConfig \<Rightarrow> string \<Rightarrow> accessOp \<Rightarrow> string list option" where
  "ownerOrRoleFor app table op =
     (if app_access app = None then None
      else let mode = tableMode app table op in
        if \<not> prefix ''owner_or_role:'' mode then None
        else let rs = splitCommaList (drop 14 mode) in if rs = [] then None else Some rs)"

definition permGrantingRoles :: "appConfig \<Rightarrow> string \<Rightarrow> string list" where
  "permGrantingRoles app perm =
     (if app_roles app = None then []
      else case parseScope perm of (resource, action) \<Rightarrow>
        if resource = [] then []
        else filter (\<lambda>name. let scopes = ResolveRoleScopes (app_roles app) name in
               scopes \<noteq> [] \<and> hasScope (Some (credentialOnly scopes)) resource action) (KnownRoles (app_roles app)))"

definition gateRoles :: "appConfig \<Rightarrow> string \<Rightarrow> string list option" where
  "gateRoles app mode =
     (if prefix ''role:'' mode then Some (splitCommaList (drop 5 mode))
      else if prefix ''perm:'' mode then Some (permGrantingRoles app (dotToColon (drop 5 mode)))
      else None)"

definition columnScopedMode :: "string \<Rightarrow> bool" where
  "columnScopedMode mode \<longleftrightarrow> mode = ''self'' \<or> mode = ''group'' \<or> prefix ''member-of:'' mode \<or> prefix ''owner_or_role:'' mode"

definition tableHasScopeColumn :: "appConfig \<Rightarrow> string \<Rightarrow> bool" where
  "tableHasScopeColumn app table \<longleftrightarrow> hasUserColumn app table \<or> tableIsGrouped app table"

definition tenantRootTable :: "appConfig \<Rightarrow> string \<Rightarrow> bool" where
  "tenantRootTable app table \<longleftrightarrow> groupKey app \<noteq> [] \<and> bootstrapOrg app \<noteq> [] \<and>
     sqliteIdentifierFold (bootstrapOrg app) = sqliteIdentifierFold table \<and> \<not> hasColumn app table (groupKey app)"

definition groupSharedTable :: "appConfig \<Rightarrow> string \<Rightarrow> bool" where
  "groupSharedTable app table =
     (case app_group app of None \<Rightarrow> False
      | Some g \<Rightarrow> list_ex (\<lambda>t. sqliteIdentifierFold t = sqliteIdentifierFold table) (gr_shared g))"

definition AllowsAnon :: "string \<Rightarrow> bool" where
  "AllowsAnon mode \<longleftrightarrow> mode = ''anon''"

definition ReadAllowsBroaderRows :: "string \<Rightarrow> bool" where
  "ReadAllowsBroaderRows mode \<longleftrightarrow> mode = ''anon'' \<or> mode = ''everyone''"

text \<open>\<open>ws_rooms\<close>: the value a room's name carries for a pattern with one placeholder.\<close>

definition roomByte :: "char \<Rightarrow> bool" where
  "roomByte c \<longleftrightarrow> c = CHR ''_'' \<or> is_letter c \<or> is_digit c"

definition matchWSRoomPattern :: "string \<Rightarrow> string \<Rightarrow> string option" where
  "matchWSRoomPattern pattern room =
     (case cut_at CHR '':'' pattern of
        None \<Rightarrow> (if pattern = room then Some [] else None)
      | Some (pre, rest) \<Rightarrow>
          let post = dropWhile roomByte rest in
          if length room \<le> length pre + length post \<or> \<not> prefix pre room \<or> \<not> suffix post room then None
          else Some (take (length room - length post - length pre) (drop (length pre) room)))"

end
