(* ===== verification/Row_Scope.thy ===== *)
theory Row_Scope
  imports Access_Modes Role_Grants Sql_Params
begin

text \<open>
  Row scoping (\<open>rowScopeClause\<close> of \<^verbatim>\<open>access.go\<close> and what it is built from, \<open>aclFilter\<close> of
  \<^verbatim>\<open>permissions.go\<close>, \<open>membershipLiveConds\<close> of \<^verbatim>\<open>groups_membership.go\<close>). The code builds the text of a
  predicate and its arguments side by side; here a predicate is a tree, \<open>predText\<close> and \<open>predArgs\<close> are the
  text and the arguments, and \<open>holds\<close> is what it says of a row. How SQLite compares a column of a
  row with a bound value or another column, and how it reads a date, are parameters.
\<close>

section \<open>Predicates\<close>

datatype sqlArg = ArgInt int | ArgText string | ArgNull

datatype liveCond = LiveNever | LiveIf bool "string option"

datatype scopePred =
    PNever
  | POwner int
  | PTenant string string
  | PRowId string
  | PAll
  | PGlobalRole int "string list"
  | PAcl "string list" bool string string
  | PMember memberOfRule string string sqlArg liveCond
  | POr "scopePred list"
  | PAnd "scopePred list"

definition sqlLit :: "string \<Rightarrow> string" where
  "sqlLit w = [CHR 0x27] @ w @ [CHR 0x27]"

definition liveColumn :: "string \<Rightarrow> string \<Rightarrow> string" where
  "liveColumn qual c = (if qual = [] then c else quoteIdent qual @ ''.'' @ c)"

definition liveText :: "string \<Rightarrow> liveCond \<Rightarrow> string" where
  "liveText qual l =
     (case l of
        LiveNever \<Rightarrow> '' AND 0''
      | LiveIf deleted active \<Rightarrow>
          (if deleted then '' AND '' @ liveColumn qual ''deleted_at'' @ '' IS NULL'' else []) @
          (case active of None \<Rightarrow> []
           | Some f \<Rightarrow> '' AND COALESCE(LOWER(CAST('' @ liveColumn qual f @ '' AS TEXT)), '' @ sqlLit [] @ '') NOT IN ('' @
               join '', '' (map sqlLit [[], ''0'', ''false'', ''no'', ''off'']) @ '')''))"

definition permText :: "string list \<Rightarrow> bool \<Rightarrow> string" where
  "permText levels single =
     (if single then ''permission = '' @ concat (map sqlLit levels)
      else ''permission IN ('' @ join '','' (map sqlLit levels) @ '')'')"

definition notExpired :: string where
  "notExpired = ''(expires_at IS NULL OR datetime(expires_at) > datetime('' @ sqlLit ''now'' @ ''))''"

fun predText :: "scopePred \<Rightarrow> string" where
  "predText PNever = ''0''"
| "predText (POwner uid) = ''user_id = ?''"
| "predText (PTenant key grp) = quoteIdent key @ '' = ?''"
| "predText (PRowId grp) = ''id = ?''"
| "predText PAll = ''1=1''"
| "predText (PGlobalRole uid roles) =
     ''EXISTS (SELECT 1 FROM main._benmore_user_roles WHERE user_id = ? AND group_id IS NULL AND role IN ('' @
     join '', '' (replicate (length roles) ''?'') @ '') AND '' @ notExpired @ '')''"
| "predText (PAcl levels single table email) =
     ''id IN (SELECT resource_id FROM main._benmore_permissions WHERE resource_type = ? AND grant_type = '' @
     sqlLit ''user'' @ '' AND grantee_id = ? AND '' @ permText levels single @ '' AND '' @ notExpired @ '')''"
| "predText (PMember rule table local val live) =
     (let m = ''main.'' @ quoteIdent (mr_table rule); t = ''main.'' @ quoteIdent table in
      ''EXISTS (SELECT 1 FROM '' @ m @ '' WHERE '' @ m @ ''.'' @ quoteIdent (mr_join rule) @ '' = '' @ t @ ''.'' @ quoteIdent local @
      '' AND '' @ m @ ''.'' @ quoteIdent (mr_user rule) @ '' = ?'' @ liveText (mr_table rule) live @ '')'')"
| "predText (POr ps) = ''('' @ join '' OR '' (map predText ps) @ '')''"
| "predText (PAnd ps) = ''('' @ join '' AND '' (map predText ps) @ '')''"

fun predArgs :: "scopePred \<Rightarrow> sqlArg list" where
  "predArgs PNever = []"
| "predArgs (POwner uid) = [ArgInt uid]"
| "predArgs (PTenant key grp) = [ArgText grp]"
| "predArgs (PRowId grp) = [ArgText grp]"
| "predArgs PAll = []"
| "predArgs (PGlobalRole uid roles) = ArgInt uid # map ArgText roles"
| "predArgs (PAcl levels single table email) = [ArgText table, ArgText email]"
| "predArgs (PMember rule table local val live) = [val]"
| "predArgs (POr ps) = concat (map predArgs ps)"
| "predArgs (PAnd ps) = concat (map predArgs ps)"

section \<open>The tables a predicate reads\<close>

record permissionRow =
  pm_id :: int
  pm_type :: string
  pm_resource :: string
  pm_grantType :: string
  pm_grantee :: string
  pm_level :: string
  pm_by :: int
  pm_at :: int
  pm_expires :: "string option"

text \<open>SQLite's comparison of a column of a row of a table with a value, of columns of two rows, its test for
  null, the text of a column and the seconds of a date text.\<close>

record 'row sqlite =
  colIs :: "string \<Rightarrow> string \<Rightarrow> 'row \<Rightarrow> sqlArg \<Rightarrow> bool"
  colsEqual :: "string \<Rightarrow> string \<Rightarrow> 'row \<Rightarrow> string \<Rightarrow> string \<Rightarrow> 'row \<Rightarrow> bool"
  colNull :: "string \<Rightarrow> string \<Rightarrow> 'row \<Rightarrow> bool"
  colText :: "string \<Rightarrow> string \<Rightarrow> 'row \<Rightarrow> string"
  sqlDate :: "string \<Rightarrow> int option"

record 'row world =
  w_now :: int
  w_rows :: "string \<Rightarrow> 'row list"
  w_perms :: "permissionRow list"
  w_grants :: "grant list"

definition permLive :: "'row sqlite \<Rightarrow> 'row world \<Rightarrow> permissionRow \<Rightarrow> bool" where
  "permLive sq w p =
     (case pm_expires p of None \<Rightarrow> True
      | Some e \<Rightarrow> (case sqlDate sq e of None \<Rightarrow> False | Some t \<Rightarrow> secOf (w_now w) < t))"

definition rowLive :: "'row sqlite \<Rightarrow> string \<Rightarrow> liveCond \<Rightarrow> 'row \<Rightarrow> bool" where
  "rowLive sq table l row =
     (case l of LiveNever \<Rightarrow> False
      | LiveIf deleted active \<Rightarrow>
          (deleted \<longrightarrow> colNull sq table ''deleted_at'' row) \<and>
          (case active of None \<Rightarrow> True
           | Some f \<Rightarrow> (if colNull sq table f row then [] else map lowc (colText sq table f row))
               \<notin> {[], ''0'', ''false'', ''no'', ''off''}))"

definition holdsGlobally :: "'row world \<Rightarrow> int \<Rightarrow> string list \<Rightarrow> bool" where
  "holdsGlobally w uid roles =
     list_ex (\<lambda>g. g_user g = uid \<and> g_group g = None \<and> g_role g \<in> set roles \<and> unexpired (w_now w) g) (w_grants w)"

fun holds :: "'row sqlite \<Rightarrow> 'row world \<Rightarrow> string \<Rightarrow> scopePred \<Rightarrow> 'row \<Rightarrow> bool" where
  "holds sq w table PNever row = False"
| "holds sq w table (POwner uid) row = colIs sq table ''user_id'' row (ArgInt uid)"
| "holds sq w table (PTenant key grp) row = colIs sq table key row (ArgText grp)"
| "holds sq w table (PRowId grp) row = colIs sq table ''id'' row (ArgText grp)"
| "holds sq w table PAll row = True"
| "holds sq w table (PGlobalRole uid roles) row = holdsGlobally w uid roles"
| "holds sq w table (PAcl levels single tbl email) row =
     list_ex (\<lambda>p. pm_type p = tbl \<and> pm_grantType p = ''user'' \<and> pm_grantee p = email \<and> pm_level p \<in> set levels \<and>
        permLive sq w p \<and> colIs sq table ''id'' row (ArgText (pm_resource p))) (w_perms w)"
| "holds sq w table (PMember rule tbl local val live) row =
     list_ex (\<lambda>m. colsEqual sq (mr_table rule) (mr_join rule) m table local row \<and>
        colIs sq (mr_table rule) (mr_user rule) m val \<and> rowLive sq (mr_table rule) live m) (w_rows w (mr_table rule))"
| "holds sq w table (POr ps) row = list_ex (\<lambda>p. holds sq w table p row) ps"
| "holds sq w table (PAnd ps) row = list_all (\<lambda>p. holds sq w table p row) ps"

section \<open>Building them\<close>

definition aclFilter :: "string \<Rightarrow> string \<Rightarrow> string \<Rightarrow> scopePred" where
  "aclFilter table email minPermission =
     (if email = [] then PNever
      else if minPermission = ''view'' then PAcl [''view'', ''edit'', ''delete'', ''admin''] False table email
      else if minPermission = ''edit'' then PAcl [''edit'', ''admin''] False table email
      else if minPermission = ''delete'' then PAcl [''delete'', ''admin''] False table email
      else PAcl [''admin''] True table email)"

definition membershipIdent :: "string \<Rightarrow> bool" where
  "membershipIdent s \<longleftrightarrow> s \<noteq> [] \<and> (is_letter (hd s) \<or> hd s = CHR ''_'') \<and> list_all roomByte s"

definition membershipLiveConds :: "groupConfig option \<Rightarrow> string \<Rightarrow> (string \<Rightarrow> bool) \<Rightarrow> liveCond" where
  "membershipLiveConds grp table hasCol =
     (case grp of None \<Rightarrow> LiveIf (hasCol ''deleted_at'') None
      | Some g \<Rightarrow>
          if gr_activeField g \<noteq> [] \<and> equal_fold table (gr_table g) then
            (if \<not> membershipIdent (gr_activeField g) \<or> \<not> hasCol (gr_activeField g) then LiveNever
             else LiveIf (hasCol ''deleted_at'') (Some (gr_activeField g)))
          else LiveIf (hasCol ''deleted_at'') None)"

definition globalRoleTier :: "principal option \<Rightarrow> string list \<Rightarrow> scopePred option" where
  "globalRoleTier s roles =
     (case s of None \<Rightarrow> None
      | Some p \<Rightarrow>
          if \<not> HasAnyRole s roles then None
          else if IsAdmin s \<or> \<not> EffectiveHasGroup s then Some PAll
          else
            let wanted = filter (\<lambda>r. r \<noteq> []) (map trim_space roles) in
            if list_ex (\<lambda>r. r = Role p) wanted then Some PAll
            else if wanted = [] then None
            else Some (PGlobalRole (UserID p) wanted))"

definition sessionHoldsGlobalRole :: "'row world \<Rightarrow> principal option \<Rightarrow> string list \<Rightarrow> bool" where
  "sessionHoldsGlobalRole w s roles =
     (case globalRoleTier s roles of
        None \<Rightarrow> False
      | Some PAll \<Rightarrow> True
      | Some (PGlobalRole uid rs) \<Rightarrow> holdsGlobally w uid rs
      | Some _ \<Rightarrow> False)"

definition userValue :: "memberOfRule \<Rightarrow> principal option \<Rightarrow> sqlArg" where
  "userValue mr s =
     (if emailKeyedColumn (mr_user mr) then (if sessionGrantEmail s \<noteq> [] then ArgText (sessionGrantEmail s) else ArgNull)
      else (case s of None \<Rightarrow> ArgNull | Some p \<Rightarrow> ArgInt (UserID p)))"

definition opForACLAction :: "string \<Rightarrow> accessOp" where
  "opForACLAction aclAction = (if aclAction = ''edit'' then OpUpdate else if aclAction = ''delete'' then OpDelete else OpRead)"

definition tenantClause :: "appConfig \<Rightarrow> principal option \<Rightarrow> scopePred" where
  "tenantClause app s = PTenant (groupKey app) (EffectiveGroupID s)"

definition memberOfPredicate :: "appConfig \<Rightarrow> string \<Rightarrow> memberOfRule \<Rightarrow> principal option \<Rightarrow> string \<Rightarrow> scopePred" where
  "memberOfPredicate app table rule s aclAction =
     (case joinTarget app rule table of
        None \<Rightarrow> PNever
      | Some local \<Rightarrow>
          let pred = POr [PMember rule table local (userValue rule s)
                  (membershipLiveConds (app_group app) (mr_table rule) (hasColumn app (mr_table rule))),
                aclFilter table (sessionGrantEmail s) aclAction]
          in if tableIsGrouped app table \<and> EffectiveHasGroup s then PAnd [tenantClause app s, pred] else pred)"

definition tenantRootRoleScope :: "appConfig \<Rightarrow> string \<Rightarrow> principal option \<Rightarrow> accessOp \<Rightarrow> scopePred option" where
  "tenantRootRoleScope app table s op =
     (case s of None \<Rightarrow> None
      | Some p \<Rightarrow>
          if app_access app = None \<or> \<not> tenantRootTable app table then None
          else case gateRoles app (ModeFor (app_access app) table op (hasUserColumn app table) False) of
            None \<Rightarrow> None
          | Some roles \<Rightarrow>
              if ActingAsGroup p \<noteq> [] then Some (PRowId (EffectiveGroupID s))
              else case globalRoleTier s roles of
                None \<Rightarrow> None
              | Some PAll \<Rightarrow> Some PAll
              | Some tier \<Rightarrow> Some (POr [PRowId (EffectiveGroupID s), tier]))"

datatype rowScope = Bypass | Unscoped | Scoped scopePred

definition withTenant :: "appConfig \<Rightarrow> string \<Rightarrow> principal option \<Rightarrow> scopePred \<Rightarrow> rowScope" where
  "withTenant app table s pred =
     (if \<not> (tableIsGrouped app table \<and> EffectiveHasGroup s) then Scoped pred
      else Scoped (PAnd [tenantClause app s, pred]))"

definition ownerOrAcl :: "string \<Rightarrow> principal \<Rightarrow> string \<Rightarrow> scopePred" where
  "ownerOrAcl table p aclAction = POr [POwner (UserID p), aclFilter table (sessionGrantEmail (Some p)) aclAction]"

definition rowScopeClause :: "appConfig \<Rightarrow> string \<Rightarrow> principal option \<Rightarrow> string \<Rightarrow> rowScope" where
  "rowScopeClause app table s aclAction =
     (if IsAdminBypass s then Bypass
      else case s of None \<Rightarrow> Unscoped
      | Some p \<Rightarrow>
        (case memberOfFor app table (opForACLAction aclAction) of
           Some rule \<Rightarrow> Scoped (memberOfPredicate app table rule s aclAction)
         | None \<Rightarrow>
           let grouped = tableIsGrouped app table; tenant = (grouped \<and> EffectiveHasGroup s);
               acl = aclFilter table (sessionGrantEmail s) aclAction
           in case ownerOrRoleFor app table (opForACLAction aclAction) of
             Some roles \<Rightarrow>
               if tenant \<and> HasAnyRole s roles then Scoped (PAnd [tenantClause app s])
               else withTenant app table s
                 (POr ((if hasUserColumn app table then [POwner (UserID p)] else []) @
                       (if \<not> grouped then (case globalRoleTier s roles of None \<Rightarrow> [] | Some pred \<Rightarrow> [pred]) else []) @ [acl]))
           | None \<Rightarrow>
               if explicitSelfFor app table (opForACLAction aclAction) then withTenant app table s (ownerOrAcl table p aclAction)
               else if tenant then Scoped (PAnd [tenantClause app s])
               else case tenantRootRoleScope app table s (opForACLAction aclAction) of
                 Some pred \<Rightarrow> Scoped pred
               | None \<Rightarrow>
                   if hasUserColumn app table then Scoped (ownerOrAcl table p aclAction)
                   else if grouped then Scoped acl
                   else Unscoped))"

section \<open>The table gate and single rows\<close>

definition tableModeAllowed :: "'row world \<Rightarrow> appConfig \<Rightarrow> string \<Rightarrow> accessOp \<Rightarrow> string \<Rightarrow> principal option \<Rightarrow> int \<Rightarrow> bool" where
  "tableModeAllowed w app table op mode0 s targetUserID =
     (if columnScopedMode mode0 \<and> \<not> appHasTable app table \<and> \<not> IsAdminBypass s then False
      else if prefix ''member-of:'' mode0 \<and> memberOfMisdeclared app table mode0 \<and> \<not> IsAdminBypass s then False
      else if (mode0 = ''self'' \<or> mode0 = ''group'') \<and> \<not> tableHasScopeColumn app table \<and> \<not> IsAdminBypass s then False
      else
        let roles = trim_space (trim_prefix mode0 ''owner_or_role:'');
            mode = (if op = OpWrite \<and> roles \<noteq> [] \<and> prefix ''owner_or_role:'' mode0 \<and> \<not> hasUserColumn app table
                    then ''role:'' @ roles else mode0)
        in if \<not> Allowed (app_access app) mode s targetUserID then False
           else if s = None \<or> groupKey app = [] \<or> hasColumn app table (groupKey app) \<or> groupSharedTable app table then True
           else case gateRoles app mode of
               None \<Rightarrow> True
             | Some rs \<Rightarrow> sessionHoldsGlobalRole w s rs \<or> (op \<noteq> OpWrite \<and> EffectiveHasGroup s \<and> tenantRootTable app table))"

definition SessionCanAccessTable :: "'row world \<Rightarrow> appConfig \<Rightarrow> string \<Rightarrow> accessOp \<Rightarrow> principal option \<Rightarrow> bool" where
  "SessionCanAccessTable w app table op s =
     (if \<not> safeIdent table \<or> \<not> appHasTable app table then False
      else if \<not> tableModeAllowed w app table op (tableMode app table op) s 0 then False
      else s = None \<or> checkScope (scopeView s) table (if op \<noteq> OpRead then ''write'' else ''read'') = None)"

datatype crudGate = CrudPass | CrudNotFound | CrudLogin bool

definition EnforceCRUDAccess :: "'row world \<Rightarrow> appConfig \<Rightarrow> string \<Rightarrow> accessOp \<Rightarrow> principal option \<Rightarrow> int \<Rightarrow> crudGate" where
  "EnforceCRUDAccess w app table op s0 targetUserID =
     (let mode = tableMode app table op; s = (if mode \<noteq> ''anon'' then s0 else None) in
      if mode = ''off'' then CrudNotFound
      else if mode \<noteq> ''anon'' \<and> s = None then
        CrudLogin (op = OpRead \<and> hasUserColumn app table \<and> \<not> HasExplicitRule (app_access app) table op)
      else if \<not> tableModeAllowed w app table op mode s targetUserID then
        (if op = OpRead \<and> mode = ''group'' \<and> targetUserID = 0 \<and> s \<noteq> None \<and> \<not> EffectiveHasGroup s \<and> \<not> IsAdminBypass s \<and>
            (hasUserColumn app table \<or> tableIsGrouped app table)
         then CrudPass else CrudNotFound)
      else CrudPass)"

definition textAffinityType :: "string \<Rightarrow> bool" where
  "textAffinityType declared =
     (let t = to_upper declared in
      if contains ''INT'' t then False else contains ''CHAR'' t \<or> contains ''CLOB'' t \<or> contains ''TEXT'' t)"

text \<open>\<open>ParseFloat\<close> is a parameter: for a text it reads, whether the number is fractional and finite and is
  written back as the same text.\<close>

definition canonicalInt :: "string \<Rightarrow> bool" where
  "canonicalInt s \<longleftrightarrow>
     (let ds = (if prefix ''-'' s then tl s else s) in
      ds \<noteq> [] \<and> list_all is_digit ds \<and> (hd ds \<noteq> CHR ''0'' \<or> s = ''0'') \<and>
      (let n = foldl (\<lambda>acc c. acc * 10 + (byte c - 48)) 0 ds in
       if prefix ''-'' s then n \<le> 2 ^ 63 else n < 2 ^ 63))"

definition rowIDCanonical :: "(string \<Rightarrow> bool option) \<Rightarrow> appConfig \<Rightarrow> string \<Rightarrow> string \<Rightarrow> bool" where
  "rowIDCanonical parseFloat app table i =
     (if i = [] then False
      else if list_ex (\<lambda>t. identIs (t_name t) table \<and>
           list_ex (\<lambda>c. identIs (c_name c) ''id'' \<and> textAffinityType (c_type c)) (t_columns t)) (app_tables app) then True
      else case parseFloat (trim_space i) of
          None \<Rightarrow> True
        | Some exactFraction \<Rightarrow> canonicalInt i \<or> exactFraction \<and> trim_space i = i)"

definition canAccessRowScoped ::
    "'row sqlite \<Rightarrow> (string \<Rightarrow> bool option) \<Rightarrow> 'row world \<Rightarrow> appConfig \<Rightarrow> string \<Rightarrow> string \<Rightarrow> principal option \<Rightarrow> string \<Rightarrow> bool" where
  "canAccessRowScoped sq parseFloat w app table i s aclAction =
     (if \<not> rowIDCanonical parseFloat app table i then False
      else list_ex (\<lambda>row. colIs sq table ''id'' row (ArgText i) \<and>
          (hasColumn app table ''deleted_at'' \<longrightarrow> colNull sq table ''deleted_at'' row) \<and>
          (case rowScopeClause app table s aclAction of
             Bypass \<Rightarrow> True | Unscoped \<Rightarrow> True | Scoped pred \<Rightarrow> holds sq w table pred row)) (w_rows w table))"

section \<open>Placeholders and arguments\<close>

lemma piece_literal:
  assumes "CHR 0x27 \<notin> set w"
  shows "piece 0 (sqlLit w)"
proof -
  let ?m = "InQuote SqlInSingleQuote CHR 0x27"
  have "cls ?m (w @ CHR 0x27 # t) = map (\<lambda>c. (c, SqlInSingleQuote)) w @ (CHR 0x27, SqlInSingleQuote) # cls InCode t" for t
    using assms by (induction w) (auto simp: lex_step_def)
  then show ?thesis
    by (simp add: piece_def sqlLit_def lex_step_def qmarks_def filter_map comp_def)
qed

lemma piece_Nil: "piece 0 []" by (simp add: piece_def)

lemma piece_join:
  assumes "\<forall>(n, s) \<in> set xs. piece n s" "\<forall>c \<in> set sep. c \<notin> {CHR 0x27, CHR 0x22, CHR ''['', CHR 0x60, CHR ''-'', CHR ''/'', CHR ''?''}"
  shows "piece (sum_list (map fst xs)) (join sep (map snd xs))"
  using assms
proof (induction xs)
  case (Cons x xs)
  have sep: "piece 0 sep" using piece_plain [of sep] Cons.prems(2) by (force simp: filter_empty_conv)
  have x: "piece (fst x) (snd x)" using Cons.prems(1) by (cases x) auto
  show ?case
  proof (cases xs)
    case Nil
    then show ?thesis using x by simp
  next
    case (Cons y ys)
    then show ?thesis
      using piece_append [OF x piece_append [OF sep Cons.IH]] Cons.prems \<open>xs = y # ys\<close> by simp
  qed
qed (simp add: piece_Nil)

text \<open>The column of \<^verbatim>\<open>groups.active_field\<close> is the only name written without quotes.\<close>

definition liveOk :: "liveCond \<Rightarrow> bool" where
  "liveOk l \<longleftrightarrow> (case l of LiveIf _ (Some f) \<Rightarrow> membershipIdent f | _ \<Rightarrow> True)"

fun predOk :: "scopePred \<Rightarrow> bool" where
  "predOk (PMember rule table local val live) = liveOk live"
| "predOk (PAcl levels single table email) = (\<forall>l \<in> set levels. CHR 0x27 \<notin> set l)"
| "predOk (POr ps) = list_all predOk ps"
| "predOk (PAnd ps) = list_all predOk ps"
| "predOk _ = True"

lemma identByte_plain: "roomByte c \<Longrightarrow> c \<notin> {CHR 0x27, CHR 0x22, CHR ''['', CHR 0x60, CHR ''-'', CHR ''/'', CHR ''?''}"
  by (auto simp: roomByte_def is_letter_def is_lower_def is_upper_def is_digit_def byte_def)

lemma piece_words:
  "\<forall>c \<in> set p. c \<notin> {CHR 0x27, CHR 0x22, CHR ''['', CHR 0x60, CHR ''-'', CHR ''/'', CHR ''?''} \<Longrightarrow> piece 0 p"
  using piece_plain [of p] by (force simp: filter_empty_conv)

lemma piece0_append: "piece 0 a \<Longrightarrow> piece n b \<Longrightarrow> piece n (a @ b)" "piece n a \<Longrightarrow> piece 0 b \<Longrightarrow> piece n (a @ b)"
  using piece_append [of 0 a n b] piece_append [of n a 0 b] by simp_all

lemma piece_quoted_list:
  assumes "\<forall>w \<in> set ws. CHR 0x27 \<notin> set w" "sep = '', '' \<or> sep = '',''"
  shows "piece 0 (join sep (map sqlLit ws))"
proof -
  have "piece (sum_list (map fst (map (\<lambda>w. (0, sqlLit w)) ws))) (join sep (map snd (map (\<lambda>w. (0::nat, sqlLit w)) ws)))"
    using assms piece_literal by (intro piece_join) auto
  then show ?thesis by (simp add: comp_def)
qed

lemma piece_concat_quoted: "\<forall>w \<in> set ws. CHR 0x27 \<notin> set w \<Longrightarrow> piece 0 (concat (map sqlLit ws))"
  by (induction ws) (simp_all add: piece_Nil piece_literal piece0_append)

lemma piece_notExpired: "piece 0 notExpired"
  unfolding notExpired_def
  by (rule piece0_append(1) [OF piece_words piece0_append(1) [OF piece_literal piece_words]]) simp_all

lemma piece_permText:
  assumes "\<forall>l \<in> set levels. CHR 0x27 \<notin> set l"
  shows "piece 0 (permText levels single)"
proof (cases single)
  case True
  have "piece 0 (''permission = '' @ concat (map sqlLit levels))"
    by (rule piece0_append(1) [OF piece_words piece_concat_quoted [OF assms]]) simp
  with True show ?thesis by (simp add: permText_def)
next
  case False
  have "piece 0 (''permission IN ('' @ join '','' (map sqlLit levels) @ '')'')"
    by (rule piece0_append(1) [OF piece_words piece0_append(1) [OF piece_quoted_list [OF assms] piece_words]]) simp_all
  with False show ?thesis by (simp add: permText_def)
qed

lemma piece_liveColumn: "\<forall>x \<in> set c. roomByte x \<Longrightarrow> piece 0 (liveColumn qual c)"
proof -
  assume "\<forall>x \<in> set c. roomByte x"
  then have c: "piece 0 c" using identByte_plain by (intro piece_words) blast
  have "piece 0 (quoteIdent qual @ ''.'' @ c)"
    by (rule piece0_append(1) [OF piece_quoteIdent piece0_append(1) [OF piece_words c]]) simp
  with c show ?thesis by (simp add: liveColumn_def)
qed

lemma piece_liveText:
  assumes "liveOk l"
  shows "piece 0 (liveText qual l)"
proof (cases l)
  case LiveNever
  then show ?thesis by (simp add: liveText_def piece_words)
next
  case (LiveIf deleted active)
  have "\<forall>x \<in> set ''deleted_at''. roomByte x" by (simp add: roomByte_def is_letter_def is_lower_def byte_def)
  note col = piece_liveColumn [OF this, of qual]
  have "piece 0 ('' AND '' @ liveColumn qual ''deleted_at'' @ '' IS NULL'')"
    by (rule piece0_append(1) [OF piece_words piece0_append(1) [OF col piece_words]]) simp_all
  then have del: "piece 0 (if deleted then '' AND '' @ liveColumn qual ''deleted_at'' @ '' IS NULL'' else [])"
    by (simp only: piece_Nil if_split) simp
  have act: "piece 0 (case active of None \<Rightarrow> []
           | Some f \<Rightarrow> '' AND COALESCE(LOWER(CAST('' @ liveColumn qual f @ '' AS TEXT)), '' @ sqlLit [] @ '') NOT IN ('' @
               join '', '' (map sqlLit [[], ''0'', ''false'', ''no'', ''off'']) @ '')'')"
  proof (cases active)
    case (Some f)
    then have "\<forall>x \<in> set f. roomByte x" using assms LiveIf by (auto simp: liveOk_def membershipIdent_def list_all_iff)
    note f = piece_liveColumn [OF this, of qual]
    have ws: "piece 0 (join '', '' (map sqlLit [[], ''0'', ''false'', ''no'', ''off'']))"
      by (rule piece_quoted_list) auto
    show ?thesis unfolding Some option.case
      by (rule piece0_append(1) [OF piece_words piece0_append(1) [OF f piece0_append(1) [OF piece_words
            piece0_append(1) [OF piece_literal piece0_append(1) [OF piece_words piece0_append(1) [OF ws piece_words]]]]]]) simp_all
  qed (simp add: piece_Nil)
  from piece0_append(1) [OF del act] show ?thesis unfolding LiveIf liveText_def liveCond.case .
qed

lemma piece_questions: "piece n (join '', '' (replicate n ''?''))"
proof -
  have "piece 1 ''?''" using piece_plain [of "''?''"] by simp
  then have "piece (sum_list (map fst (replicate n (1::nat, ''?'')))) (join '', '' (map snd (replicate n (1::nat, ''?''))))"
    by (intro piece_join) auto
  then show ?thesis by (simp add: sum_list_replicate map_replicate)
qed

lemma piece_sep: "piece n (join sep (map f ps))"
  if "\<forall>p \<in> set ps. piece (g p) (f p)" "sep = '' OR '' \<or> sep = '' AND ''" "n = sum_list (map g ps)"
proof -
  have "piece (sum_list (map fst (map (\<lambda>p. (g p, f p)) ps))) (join sep (map snd (map (\<lambda>p. (g p, f p)) ps)))"
    using that(1,2) by (intro piece_join) auto
  then show ?thesis using that(3) by (simp add: comp_def)
qed

lemma piece_paren: "piece n s \<Longrightarrow> piece n (''('' @ s @ '')'')"
  by (rule piece0_append(1) [OF piece_words piece0_append(2) [OF _ piece_words]]) simp_all

lemma piece_pred: "predOk p \<Longrightarrow> piece (length (predArgs p)) (predText p)"
proof (induction p)
  case (POwner uid)
  show ?case using piece_plain [of "''user_id = ?''"] by simp
next
  case (PTenant key grp)
  show ?case using piece0_append(1) [OF piece_quoteIdent [of key] piece_plain [of "'' = ?''"]] by simp
next
  case (PRowId grp)
  show ?case using piece_plain [of "''id = ?''"] by simp
next
  case (PGlobalRole uid roles)
  have a: "piece 1 ''EXISTS (SELECT 1 FROM main._benmore_user_roles WHERE user_id = ? AND group_id IS NULL AND role IN (''"
    using piece_plain [of "''EXISTS (SELECT 1 FROM main._benmore_user_roles WHERE user_id = ? AND group_id IS NULL AND role IN (''"] by simp
  have c: "piece 0 ('') AND '' @ notExpired @ '')'')"
    by (rule piece0_append(1) [OF piece_words piece0_append(2) [OF piece_notExpired piece_words]]) simp_all
  show ?case using piece_append [OF a piece0_append(2) [OF piece_questions c]] by simp
next
  case (PAcl levels single tbl email)
  let ?a = "''id IN (SELECT resource_id FROM main._benmore_permissions WHERE resource_type = ? AND grant_type = ''"
  let ?b = "'' AND grantee_id = ? AND ''"
  have a: "piece 1 ?a" and b: "piece 1 ?b" using piece_plain [of ?a] piece_plain [of ?b] by simp_all
  have c: "piece 0 (permText levels single @ '' AND '' @ notExpired @ '')'')"
    by (rule piece0_append(1) [OF piece_permText piece0_append(1) [OF piece_words piece0_append(2) [OF piece_notExpired piece_words]]])
      (use PAcl in simp_all)
  have u: "piece 0 (sqlLit ''user'')" by (rule piece_literal) simp
  show ?case using piece_append [OF a piece0_append(1) [OF u piece0_append(2) [OF b c]]] by (simp add: numeral_2_eq_2)
next
  case (PMember rule tbl local val live)
  let ?m = "''main.'' @ quoteIdent (mr_table rule)" and ?t = "''main.'' @ quoteIdent tbl"
  have m: "piece 0 ?m" "piece 0 ?t" by (rule piece0_append(1) [OF piece_words piece_quoteIdent]; simp)+
  have l: "piece 0 (liveText (mr_table rule) live)" using PMember by (intro piece_liveText) simp
  have q: "piece 1 '' = ?''" using piece_plain [of "'' = ?''"] by simp
  have "piece 1 (''EXISTS (SELECT 1 FROM '' @ ?m @ '' WHERE '' @ ?m @ ''.'' @ quoteIdent (mr_join rule) @ '' = '' @ ?t @ ''.'' @
      quoteIdent local @ '' AND '' @ ?m @ ''.'' @ quoteIdent (mr_user rule) @ '' = ?'' @ liveText (mr_table rule) live @ '')'')"
    by (rule piece0_append(1) [OF piece_words piece0_append(1) [OF m(1) piece0_append(1) [OF piece_words piece0_append(1) [OF m(1)
         piece0_append(1) [OF piece_words piece0_append(1) [OF piece_quoteIdent piece0_append(1) [OF piece_words
         piece0_append(1) [OF m(2) piece0_append(1) [OF piece_words piece0_append(1) [OF piece_quoteIdent piece0_append(1) [OF piece_words
         piece0_append(1) [OF m(1) piece0_append(1) [OF piece_words piece0_append(1) [OF piece_quoteIdent
         piece0_append(2) [OF q piece0_append(1) [OF l piece_words]]]]]]]]]]]]]]]]) simp_all
  then show ?case by (simp only: predText.simps predArgs.simps Let_def list.size One_nat_def add_0)
next
  case (POr ps)
  have "piece (length (predArgs (POr ps))) (''('' @ join '' OR '' (map predText ps) @ '')'')"
    by (rule piece_paren, rule piece_sep [where g = "\<lambda>p. length (predArgs p)"])
      (use POr in \<open>auto simp: list_all_iff length_concat comp_def\<close>)
  then show ?case by (simp only: predText.simps)
next
  case (PAnd ps)
  have "piece (length (predArgs (PAnd ps))) (''('' @ join '' AND '' (map predText ps) @ '')'')"
    by (rule piece_paren, rule piece_sep [where g = "\<lambda>p. length (predArgs p)"])
      (use PAnd in \<open>auto simp: list_all_iff length_concat comp_def\<close>)
  then show ?case by (simp only: predText.simps)
qed (simp_all add: piece_words)

lemma predOk_acl [simp]: "predOk (aclFilter table email lvl)"
  by (simp add: aclFilter_def)

lemma predOk_tier: "globalRoleTier s roles = Some q \<Longrightarrow> predOk q"
  by (auto simp: globalRoleTier_def Let_def split: option.splits if_splits)

lemma liveOk_conds [simp]: "liveOk (membershipLiveConds g t h)"
  by (simp add: membershipLiveConds_def liveOk_def split: option.split)

abbreviation tenantBound :: "appConfig \<Rightarrow> string \<Rightarrow> principal option \<Rightarrow> bool" where
  "tenantBound app table s \<equiv> tableIsGrouped app table \<and> EffectiveHasGroup s"

definition rolePred :: "appConfig \<Rightarrow> string \<Rightarrow> principal \<Rightarrow> string \<Rightarrow> string list \<Rightarrow> scopePred" where
  "rolePred app table p act roles =
     POr ((if hasUserColumn app table then [POwner (UserID p)] else []) @
          (if \<not> tableIsGrouped app table then (case globalRoleTier (Some p) roles of None \<Rightarrow> [] | Some pred \<Rightarrow> [pred]) else []) @
          [aclFilter table (sessionGrantEmail (Some p)) act])"

lemma rowScope_cases:
  assumes "rowScopeClause app table s act = Scoped q"
  obtains (member) p rule where "s = Some p" "memberOfFor app table (opForACLAction act) = Some rule"
      "q = memberOfPredicate app table rule s act"
  | (tenant) p where "s = Some p" "tenantBound app table s" "q = PAnd [tenantClause app s]"
  | (roles) p roles where "s = Some p" "ownerOrRoleFor app table (opForACLAction act) = Some roles"
      "withTenant app table s (rolePred app table p act roles) = Scoped q"
  | (self) p where "s = Some p" "explicitSelfFor app table (opForACLAction act)"
      "withTenant app table s (ownerOrAcl table p act) = Scoped q"
  | (root) p where "s = Some p" "\<not> tenantBound app table s" "tenantRootRoleScope app table s (opForACLAction act) = Some q"
  | (owner) p where "s = Some p" "\<not> tenantBound app table s" "q = ownerOrAcl table p act"
  | (acl) p where "s = Some p" "\<not> tenantBound app table s" "q = aclFilter table (sessionGrantEmail s) act"
proof -
  have nb: "\<not> IsAdminBypass s" using assms unfolding rowScopeClause_def by (cases "IsAdminBypass s") simp_all
  then obtain p where s: "s = Some p" using assms unfolding rowScopeClause_def by (cases s) simp_all
  note run = assms [unfolded rowScopeClause_def Let_def if_not_P [OF nb], unfolded s option.case, folded s]
  show ?thesis
  proof (cases "memberOfFor app table (opForACLAction act)")
    case (Some rule)
    then show ?thesis using run by (intro member [OF s Some]) simp
  next
    case None
    note run = run [unfolded None option.case]
    show ?thesis
    proof (cases "ownerOrRoleFor app table (opForACLAction act)")
      case (Some rs)
      show ?thesis
      proof (cases "tenantBound app table s \<and> HasAnyRole s rs")
        case True
        then show ?thesis using run Some s by (intro tenant [OF s]) simp_all
      next
        case False
        note run = run [unfolded Some option.case if_not_P [OF False]]
        show ?thesis by (rule roles [OF s Some]) (use run in \<open>simp only: rolePred_def s\<close>)
      qed
    next
      case no_roles: None
      note run = run [unfolded no_roles option.case]
      show ?thesis
      proof (cases "explicitSelfFor app table (opForACLAction act)")
        case True
        show ?thesis by (rule self [OF s True]) (use run True in simp)
      next
        case False
        note run = run [unfolded if_not_P [OF False]]
        show ?thesis
        proof (cases "tenantBound app table s")
          case True
          then show ?thesis using run by (intro tenant [OF s]) simp_all
        next
          case nt: False
          note run = run [unfolded if_not_P [OF nt]]
          show ?thesis
          proof (cases "tenantRootRoleScope app table s (opForACLAction act)")
            case (Some pred)
            then show ?thesis using run by (intro root [OF s nt]) simp
          next
            case no_root: None
            then show ?thesis using run owner [OF s nt] acl [OF s nt] by (simp split: if_split_asm)
          qed
        qed
      qed
    qed
  qed
qed

lemma predOk_rolePred: "predOk (rolePred app table p act roles)"
  by (auto simp: rolePred_def dest: predOk_tier split: option.split)

lemma predOk_rootScope: "tenantRootRoleScope app table s op = Some q \<Longrightarrow> predOk q"
  by (auto simp: tenantRootRoleScope_def dest: predOk_tier split: option.splits if_splits scopePred.splits)

lemma predOk_scope:
  assumes "rowScopeClause app table s act = Scoped q"
  shows "predOk q"
  using assms
proof (cases rule: rowScope_cases)
  case (member p rule)
  then show ?thesis by (simp add: memberOfPredicate_def Let_def tenantClause_def split: option.split)
next
  case (roles p roles)
  then show ?thesis using predOk_rolePred by (auto simp: withTenant_def tenantClause_def split: if_splits)
next
  case (self p)
  then show ?thesis by (auto simp: withTenant_def tenantClause_def ownerOrAcl_def split: if_splits)
next
  case (root p)
  then show ?thesis using predOk_rootScope by blast
qed (simp_all add: tenantClause_def ownerOrAcl_def)

lemma tenant_bounds:
  assumes "rowScopeClause app table s act = Scoped q" "tenantBound app table s" "holds sq w table q row"
  shows "colIs sq table (groupKey app) row (ArgText (EffectiveGroupID s))"
  using assms(1)
proof (cases rule: rowScope_cases)
  case (member p rule)
  then show ?thesis using assms(2,3) by (auto simp: memberOfPredicate_def Let_def tenantClause_def split: option.splits)
next
  case (tenant p)
  then show ?thesis using assms(3) by (simp add: tenantClause_def)
qed (use assms(2,3) in \<open>auto simp: withTenant_def tenantClause_def\<close>)

lemma unscoped_iff:
  "rowScopeClause app table (Some p) act = Unscoped \<Longrightarrow>
   \<not> hasUserColumn app table \<and> \<not> tableIsGrouped app table \<and> \<not> IsAdminBypass (Some p) \<and>
   memberOfFor app table (opForACLAction act) = None \<and> ownerOrRoleFor app table (opForACLAction act) = None"
  unfolding rowScopeClause_def Let_def withTenant_def
  by (simp split: if_split_asm option.split_asm)

section \<open>Properties\<close>

text \<open>C1: Tenant isolation. On a table with the tenant key, a session that acts in a tenant reaches rows of
  that tenant only, through whatever rule governs the table: owner, role tier, membership or
  share. Row scoping is passed by none but a global administrator who has stepped into no
  tenant, and a table with an owner or tenant column is never left unscoped.\<close>

theorem tenant_isolation:
  "case rowScopeClause app table s act of
     Bypass \<Rightarrow> IsAdmin s \<and> \<not> (\<exists>p. s = Some p \<and> ActingAsGroup p \<noteq> [])
   | Unscoped \<Rightarrow> s = None \<or> \<not> hasUserColumn app table \<and> \<not> tableIsGrouped app table
   | Scoped q \<Rightarrow> \<forall>row. holds sq w table q row \<and> tableIsGrouped app table \<and> EffectiveHasGroup s \<longrightarrow>
       colIs sq table (groupKey app) row (ArgText (EffectiveGroupID s))"
proof (cases "rowScopeClause app table s act")
  case Bypass
  then have "IsAdminBypass s"
    by (cases "IsAdminBypass s")
      (simp_all add: rowScopeClause_def Let_def withTenant_def split: option.split_asm if_split_asm)
  then show ?thesis using Bypass by (auto simp: IsAdminBypass_def split: option.splits)
next
  case Unscoped
  then show ?thesis using unscoped_iff by (cases s) auto
next
  case (Scoped q)
  show ?thesis unfolding Scoped rowScope.case by (intro allI impI, elim conjE, rule tenant_bounds [OF Scoped]) simp_all
qed

text \<open>The text of a scope has exactly as many placeholders as it has arguments, whatever the names of the
  tables and columns.\<close>

theorem scope_args_match:
  assumes "rowScopeClause app table s act = Scoped q"
  shows "qmarks (classify (predText q)) = length (predArgs q)"
  using piece_pred [OF predOk_scope [OF assms]]
  by (auto simp: piece_def classify_def qmarks_def dest: spec [of _ "[]"])

text \<open>C3: A declared \<^verbatim>\<open>self\<close> is the owner's: a row in scope is the session user's own or shared with the
  session's proven address for the action, and in the session's tenant where the table has one.\<close>

theorem self_mode_owner_only:
  assumes "explicitSelfFor app table (opForACLAction act)" "rowScopeClause app table (Some p) act = Scoped q"
    "holds sq w table q row"
  shows "colIs sq table ''user_id'' row (ArgInt (UserID p)) \<or>
    holds sq w table (aclFilter table (sessionGrantEmail (Some p)) act) row"
proof -
  have mode: "tableMode app table (opForACLAction act) = ''self''"
    using assms(1) by (auto simp: explicitSelfFor_def tableMode_def ModeFor_def)
  have "memberOfFor app table (opForACLAction act) = None" "ownerOrRoleFor app table (opForACLAction act) = None"
    by (simp_all add: memberOfFor_def ownerOrRoleFor_def mode Let_def)
  with assms show ?thesis
    by (auto simp: rowScopeClause_def withTenant_def ownerOrAcl_def split: if_split_asm)
qed


section \<open>Witnesses\<close>

definition exTable :: "string \<Rightarrow> string list \<Rightarrow> tableDef" where
  "exTable n cs = \<lparr>t_name = n, t_columns = map (\<lambda>c. \<lparr>c_name = c, c_type = ''INTEGER''\<rparr>) cs\<rparr>"

definition exGroup :: groupConfig where
  "exGroup = \<lparr>gr_table = ''members'', gr_key = ''company_id'', gr_userField = ''user_id'', gr_roleField = [], gr_activeField = [],
     gr_bootstrap = None, gr_shared = []\<rparr>"

definition exApp :: "accessConfig option \<Rightarrow> appConfig" where
  "exApp a = \<lparr>app_tables = [exTable ''notes'' [''id'', ''user_id'', ''company_id''], exTable ''items'' [''id'']],
     app_group = Some exGroup, app_access = a, app_roles = None, app_joins = []\<rparr>"

definition exMember :: principal where
  "exMember = \<lparr>Scopes = [], CredentialScopes = [], accessTables = (\<lambda>_. False), SessionID = ''s'', UserID = 3, Email = ''m@x.org'',
     GroupID = ''7'', Role = ''user'', HeldRoles = [''user''], Verified = True, EmailGrandfathered = False, ActingAsGroup = [],
     GlobalAdmin = False, connectorGrant = False\<rparr>"

definition exSqlite :: "(string \<Rightarrow> sqlArg) sqlite" where
  "exSqlite = \<lparr>colIs = (\<lambda>t c row v. row c = v), colsEqual = (\<lambda>t c r t' c' r'. r c = r' c'), colNull = (\<lambda>t c r. r c = ArgNull),
     colText = (\<lambda>t c r. case r c of ArgText x \<Rightarrow> x | _ \<Rightarrow> []), sqlDate = (\<lambda>_. None)\<rparr>"

definition exWorld :: "authDB \<Rightarrow> (string \<Rightarrow> sqlArg) world" where
  "exWorld db = \<lparr>w_now = 0, w_rows = (\<lambda>_. []), w_perms = [], w_grants = grants db\<rparr>"

lemmas ex_defs = exApp_def exTable_def exGroup_def exMember_def exSqlite_def exWorld_def

lemma ex_session: "\<not> IsAdminBypass (Some exMember)" "EffectiveHasGroup (Some exMember)" "EffectiveGroupID (Some exMember) = ''7''"
  "UserID exMember = 3"
  by (simp_all add: principal_defs exMember_def)

lemma ex_columns: "groupKey (exApp a) = ''company_id''" "hasUserColumn (exApp a) ''notes''" "tableIsGrouped (exApp a) ''notes''"
  "\<not> hasColumn (exApp a) ''items'' ''company_id''" "app_access (exApp a) = a"
  by (simp_all add: groupKey_def hasUserColumn_def tableIsGrouped_def hasColumn_def sqliteIdentifierFold_def ex_defs go_eval)

lemma ex_scope:
  "rowScopeClause (exApp None) ''notes'' (Some exMember) ''view'' = Scoped (PAnd [PTenant ''company_id'' ''7''])"
  by (simp add: rowScopeClause_def ex_session ex_columns memberOfFor_def ownerOrRoleFor_def explicitSelfFor_def tenantClause_def
      opForACLAction_def)

theorem tenant_isolation_witness:
  "\<not> holds exSqlite (exWorld (rootDB [] [])) ''notes'' (PAnd [PTenant ''company_id'' ''7'']) (\<lambda>_. ArgText ''8'')"
  using tenant_isolation [where app = "exApp None" and table = "''notes''" and s = "Some exMember" and act = "''view''" and sq = exSqlite
      and w = "exWorld (rootDB [] [])"]
  by (simp add: ex_scope ex_columns ex_session exSqlite_def)

theorem scope_args_match_witness:
  "qmarks (classify (predText (PAnd [PTenant ''company_id'' ''7'']))) = 1"
  using scope_args_match [OF ex_scope] by simp

definition exSelf :: "accessConfig option" where
  "exSelf = Some \<lparr>rules = [''notes'' \<mapsto> [''all'' \<mapsto> ''self'']], rolesDeclared = False\<rparr>"

lemma ex_lower: "to_lower ''notes'' = ''notes''"
  by (simp add: go_eval)

lemma ex_self: "explicitSelfFor (exApp exSelf) ''notes'' OpRead"
  by (simp add: explicitSelfFor_def ex_columns DeclaredModeFor_def ruleMode_def exSelf_def ex_lower)

lemma ex_self_scope:
  "rowScopeClause (exApp exSelf) ''notes'' (Some exMember) ''view'' =
     Scoped (PAnd [PTenant ''company_id'' ''7'', POr [POwner 3, PAcl [''view'', ''edit'', ''delete'', ''admin''] False ''notes'' ''m@x.org'']])"
proof -
  have mode: "tableMode (exApp exSelf) ''notes'' OpRead = ''self''"
    using ex_self by (auto simp: explicitSelfFor_def tableMode_def ModeFor_def)
  have email: "sessionGrantEmail (Some exMember) = ''m@x.org''" by (simp add: sessionGrantEmail_def exMember_def)
  have declared: "exSelf \<noteq> None" by (simp add: exSelf_def)
  show ?thesis
    by (simp add: rowScopeClause_def ex_session ex_columns memberOfFor_def ownerOrRoleFor_def mode tenantClause_def
        opForACLAction_def ex_self withTenant_def ownerOrAcl_def aclFilter_def email declared)
qed

theorem self_mode_owner_only_witness:
  "\<exists>row. holds exSqlite (exWorld (rootDB [] [])) ''notes''
      (PAnd [PTenant ''company_id'' ''7'', POr [POwner 3, PAcl [''view'', ''edit'', ''delete'', ''admin''] False ''notes'' ''m@x.org'']]) row
    \<and> (row ''user_id'' = ArgInt 3)"
proof -
  define row where "row = (\<lambda>c. if c = ''user_id'' then ArgInt 3 else ArgText ''7'')"
  let ?q = "PAnd [PTenant ''company_id'' ''7'', POr [POwner 3, PAcl [''view'', ''edit'', ''delete'', ''admin''] False ''notes'' ''m@x.org'']]"
  have h: "holds exSqlite (exWorld (rootDB [] [])) ''notes'' ?q row" by (simp add: exSqlite_def row_def)
  have email: "sessionGrantEmail (Some exMember) = ''m@x.org''" by (simp add: sessionGrantEmail_def exMember_def)
  have "explicitSelfFor (exApp exSelf) ''notes'' (opForACLAction ''view'')" using ex_self by (simp add: opForACLAction_def)
  from self_mode_owner_only [OF this ex_self_scope h] h show ?thesis
    by (auto simp: exSqlite_def exWorld_def aclFilter_def email ex_session)
qed


end
