(* ===== verification/Membership_Manage.thy ===== *)
theory Membership_Manage
  imports Row_Scope
begin

text \<open>
  Who may manage the rows of the groups membership table (\<^verbatim>\<open>groups_membership_manage.go\<close>, and the value a
  membership is looked up by in \<^verbatim>\<open>groups_membership.go\<close>). A row read back is the list of its columns in the order a
  range over the map visits them, a value the text \<^verbatim>\<open>fmt.Sprint\<close> gives it, none for nil. \<open>tenantText\<close> is that
  text for the key column of a row still in the database.
\<close>

definition membershipManageGated :: "appConfig \<Rightarrow> string \<Rightarrow> accessOp \<Rightarrow> bool" where
  "membershipManageGated app table op =
     (case app_group app of None \<Rightarrow> False
      | Some g \<Rightarrow>
          if gr_table g = [] \<or> gr_key g = [] \<or> gr_userField g = [] \<or> \<not> identIs table (gr_table g) then False
          else TableDeclaredModeFor (app_access app) table op = None)"

fun firstOrg :: "string \<Rightarrow> (string \<times> foreignKey) list \<Rightarrow> string option" where
  "firstOrg key [] = None"
| "firstOrg key ((col, fk) # r) =
     (if identIs col key \<and> (fk_column fk = [] \<or> identIs (fk_column fk) ''id'') then Some (fk_table fk) else firstOrg key r)"

fun orgOf :: "groupConfig \<Rightarrow> (string \<times> (string \<times> foreignKey) list) list \<Rightarrow> string" where
  "orgOf g [] = []"
| "orgOf g ((table, fks) # r) =
     (if \<not> identIs table (gr_table g) then orgOf g r
      else case firstOrg (gr_key g) fks of Some t \<Rightarrow> t | None \<Rightarrow> orgOf g r)"

definition membershipOrgTable :: "appConfig \<Rightarrow> groupConfig \<Rightarrow> string" where
  "membershipOrgTable app g =
     (case gr_bootstrap g of
        Some b \<Rightarrow> if OrgTable b \<noteq> [] then OrgTable b else orgOf g (app_joins app)
      | None \<Rightarrow> orgOf g (app_joins app))"

definition membershipTenantAdmin ::
    "'row sqlite \<Rightarrow> 'row world \<Rightarrow> appConfig \<Rightarrow> groupConfig \<Rightarrow> principal option \<Rightarrow> string \<Rightarrow> bool" where
  "membershipTenantAdmin sq w app g s tenant =
     (case s of None \<Rightarrow> False
      | Some p \<Rightarrow>
          if IsAdminBypass s then True
          else if tenant = [] \<or> tenant = ''0'' \<or> \<not> EffectiveHasGroup s \<or> EffectiveGroupID s \<noteq> tenant then False
          else
            let founding = (if gr_roleField g \<noteq> [] then (case gr_bootstrap g of None \<Rightarrow> [] | Some b \<Rightarrow> trim_space (FoundingRole b)) else []);
                roles = (if founding \<noteq> [] then [''admin'', founding] else [''admin''])
            in if HasAnyRole s roles then True
               else if founding \<noteq> [] then False
               else let org = membershipOrgTable app g in
                 if org = [] \<or> \<not> safeIdent org \<or> \<not> hasColumn app org ''user_id'' then False
                 else list_ex (\<lambda>row. colIs sq org ''id'' row (ArgText tenant) \<and> colIs sq org ''user_id'' row (ArgInt (UserID p)) \<and>
                     (hasColumn app org ''deleted_at'' \<longrightarrow> colNull sq org ''deleted_at'' row)) (w_rows w org))"

definition groupMemberValue :: "groupConfig \<Rightarrow> principal \<Rightarrow> sqlArg option" where
  "groupMemberValue g p =
     (if emailKeyedColumn (gr_userField g) then
        (let e = sessionGrantEmail (Some p) in if e \<noteq> [] then Some (ArgText e) else None)
      else Some (ArgInt (UserID p)))"

text \<open>\<open>hasCol\<close> is the live schema's answer.\<close>

definition groupMembershipLive ::
    "'row sqlite \<Rightarrow> (string \<Rightarrow> bool) \<Rightarrow> 'row world \<Rightarrow> groupConfig option \<Rightarrow> principal \<Rightarrow> string \<Rightarrow> bool" where
  "groupMembershipLive sq hasCol w grp p groupID =
     (case grp of None \<Rightarrow> False
      | Some g \<Rightarrow>
          if gr_table g = [] \<or> gr_key g = [] \<or> gr_userField g = [] \<or> groupID = [] then False
          else case groupMemberValue g p of None \<Rightarrow> False
          | Some member \<Rightarrow>
              list_ex (\<lambda>row. colIs sq (gr_table g) (gr_key g) row (ArgText groupID) \<and>
                  colIs sq (gr_table g) (gr_userField g) row member \<and>
                  rowLive sq (gr_table g) (membershipLiveConds grp (gr_table g) hasCol) row) (w_rows w (gr_table g)))"

definition membershipOwnRow :: "'row sqlite \<Rightarrow> 'row world \<Rightarrow> groupConfig \<Rightarrow> principal option \<Rightarrow> sqlArg \<Rightarrow> bool" where
  "membershipOwnRow sq w g s i =
     (case s of None \<Rightarrow> False
      | Some p \<Rightarrow>
          if i = ArgNull \<or> \<not> membershipIdent (gr_userField g) \<or> \<not> safeIdent (gr_table g) then False
          else case groupMemberValue g p of None \<Rightarrow> False
          | Some member \<Rightarrow>
              list_ex (\<lambda>row. colIs sq (gr_table g) ''id'' row i \<and> colIs sq (gr_table g) (gr_userField g) row member) (w_rows w (gr_table g)))"

fun membershipRowTenant :: "groupConfig \<Rightarrow> (string \<times> string option) list \<Rightarrow> string" where
  "membershipRowTenant g [] = []"
| "membershipRowTenant g ((col, v) # r) =
     (case v of Some t \<Rightarrow> if identIs col (gr_key g) then t else membershipRowTenant g r | None \<Rightarrow> membershipRowTenant g r)"

definition membershipInactiveValue :: "string option \<Rightarrow> bool" where
  "membershipInactiveValue v =
     (case v of None \<Rightarrow> True | Some t \<Rightarrow> to_lower t \<in> {[], ''0'', ''false'', ''no'', ''off''})"

text \<open>The denials; \<open>i\<close> is the row's \<^verbatim>\<open>id\<close>.\<close>

definition membershipCreateDenial :: "'row sqlite \<Rightarrow> 'row world \<Rightarrow> appConfig \<Rightarrow> string \<Rightarrow> principal option \<Rightarrow> bool" where
  "membershipCreateDenial sq w app table s =
     (if \<not> membershipManageGated app table OpWrite then False
      else \<not> membershipTenantAdmin sq w app (the (app_group app)) s (EffectiveGroupID s))"

definition membershipUpdateDenial ::
    "'row sqlite \<Rightarrow> 'row world \<Rightarrow> appConfig \<Rightarrow> string \<Rightarrow> principal option \<Rightarrow> (string \<times> string option) list \<Rightarrow> sqlArg \<Rightarrow>
     (string \<times> string option) list \<Rightarrow> bool" where
  "membershipUpdateDenial sq w app table s row i changed =
     (if \<not> membershipManageGated app table OpUpdate then False
      else let g = the (app_group app) in
        if membershipTenantAdmin sq w app g s (membershipRowTenant g row) then False
        else let leaving = (changed \<noteq> [] \<and> gr_activeField g \<noteq> [] \<and>
               list_all (\<lambda>(col, v). identIs col (gr_activeField g) \<and> membershipInactiveValue v) changed)
          in \<not> (leaving \<and> membershipOwnRow sq w g s i))"

definition membershipDeleteDenial ::
    "'row sqlite \<Rightarrow> 'row world \<Rightarrow> appConfig \<Rightarrow> string \<Rightarrow> principal option \<Rightarrow> (string \<times> string option) list \<Rightarrow> sqlArg \<Rightarrow> bool" where
  "membershipDeleteDenial sq w app table s row i =
     (if \<not> membershipManageGated app table OpDelete then False
      else let g = the (app_group app) in
        \<not> (membershipTenantAdmin sq w app g s (membershipRowTenant g row) \<or> membershipOwnRow sq w g s i))"

definition membershipRowControlDenied ::
    "'row sqlite \<Rightarrow> ('row \<Rightarrow> string) \<Rightarrow> 'row world \<Rightarrow> appConfig \<Rightarrow> string \<Rightarrow> string \<Rightarrow> principal option \<Rightarrow> bool" where
  "membershipRowControlDenied sq tenantText w app table i s =
     (if \<not> membershipManageGated app table OpUpdate then False
      else let g = the (app_group app) in
        if \<not> membershipIdent (gr_key g) \<or> \<not> safeIdent (gr_table g) then True
        else case find (\<lambda>row. colIs sq (gr_table g) ''id'' row (ArgText i)) (w_rows w (gr_table g)) of
            None \<Rightarrow> True
          | Some row \<Rightarrow> \<not> membershipTenantAdmin sq w app g s (tenantText row))"

section \<open>What a member can do\<close>

lemma tenant_admin_inside:
  "membershipTenantAdmin sq w app g s tenant \<Longrightarrow> \<not> IsAdminBypass s \<Longrightarrow> EffectiveGroupID s = tenant \<and> tenant \<noteq> [] \<and> tenant \<noteq> ''0''"
  by (auto simp: membershipTenantAdmin_def split: option.splits if_splits)


section \<open>Witness\<close>

definition exMembership :: "string \<Rightarrow> sqlArg" where
  "exMembership c = (if c = ''id'' then ArgInt 5 else if c = ''user_id'' then ArgInt 3 else ArgText ''8'')"

definition exMembers :: "(string \<Rightarrow> sqlArg) world" where
  "exMembers = (exWorld (rootDB [] []))\<lparr>w_rows := (\<lambda>t. [exMembership])\<rparr>"

lemma ex_gated: "membershipManageGated (exApp None) ''members'' op"
  by (simp add: membershipManageGated_def exApp_def exGroup_def identIs_def TableDeclaredModeFor_def)

lemma ex_own: "membershipOwnRow exSqlite exMembers exGroup (Some exMember) (ArgInt 5)"
  by (simp add: membershipOwnRow_def groupMemberValue_def exGroup_def membershipIdent_def safeIdent_def emailKeyedColumn_def
      exMembers_def exSqlite_def exMembership_def exMember_def is_letter_def is_lower_def is_upper_def is_digit_def byte_Char roomByte_def
      go_eval)


section \<open>A member and a record of theirs\<close>

definition exRow :: "string \<Rightarrow> sqlArg" where
  "exRow c = (if c = ''id'' then ArgText ''5'' else if c = ''user_id'' then ArgInt 3 else ArgText ''7'')"

definition exOwn :: "(string \<Rightarrow> sqlArg) world" where
  "exOwn = (exWorld (rootDB [] []))\<lparr>w_rows := (\<lambda>_. [exRow])\<rparr>"

lemma ex_table: "appHasTable (exApp a) ''notes''" "safeIdent ''notes''" "\<not> hasColumn (exApp a) ''notes'' ''deleted_at''"
  by (simp_all add: appHasTable_def safeIdent_def hasColumn_def sqliteIdentifierFold_def ex_defs is_letter_def is_lower_def is_upper_def
      byte_Char go_eval)

lemma ex_mode: "tableModeAllowed w (exApp None) ''notes'' op (tableMode (exApp None) ''notes'' op) (Some exMember) 0"
  by (simp add: tableMode_def ModeFor_def DeclaredModeFor_def implicitDefault_def ex_columns tableModeAllowed_def ex_table
      columnScopedMode_def tableHasScopeColumn_def Allowed_def Let_def)
    (simp add: hasColumn_def sqliteIdentifierFold_def ex_defs go_eval)

lemma ex_no_scope: "checkScope (scopeView (Some exMember)) t act = None" "checkScope (Some (session.truncate exMember)) t act = None"
  by (simp_all add: checkScope_def scopeView_def exMember_def session.defs hasScope_def scopesAllow_def)

lemma ex_scope_any: "rowScopeClause (exApp None) ''notes'' (Some exMember) act = Scoped (PAnd [PTenant ''company_id'' ''7''])"
  by (simp add: rowScopeClause_def ex_session ex_columns memberOfFor_def ownerOrRoleFor_def explicitSelfFor_def tenantClause_def
      Let_def)

lemma ex_row: "canAccessRowScoped exSqlite (\<lambda>_. None) exOwn (exApp None) ''notes'' ''5'' (Some exMember) act"
  by (simp add: canAccessRowScoped_def ex_scope_any ex_table rowIDCanonical_def exOwn_def exSqlite_def exRow_def)

lemma ex_not_gated: "\<not> membershipRowControlDenied sq tn w (exApp None) ''notes'' i s"
proof -
  have "\<not> membershipManageGated (exApp None) ''notes'' OpUpdate"
    by (simp add: membershipManageGated_def exApp_def exGroup_def identIs_def sqliteIdentifierFold_def go_eval)
  then show ?thesis by (simp add: membershipRowControlDenied_def)
qed

end
