(* ===== verification/Row_Locks.thy ===== *)
theory Row_Locks
  imports Membership_Manage
begin

text \<open>
  Record locks (\<^verbatim>\<open>locks.go\<close>). The table holds one row per record; every statement on it is one step. Times
  are nanoseconds, the table keeps seconds and a lock is expired when its second is past. The session, the
  CSRF check and the database are what the handlers are given; the gates on the record are those of
  the access rules.
\<close>

section \<open>The table and its statements\<close>

record lockRow =
  lk_table :: string
  lk_row :: string
  lk_user :: int
  lk_email :: string
  lk_at :: int
  lk_expires :: int

definition lockTTL :: int where "lockTTL = 30 * 1000000000"

definition onRecord :: "string \<Rightarrow> string \<Rightarrow> lockRow \<Rightarrow> bool" where
  "onRecord t i l \<longleftrightarrow> lk_table l = t \<and> lk_row l = i"

definition lockExpired :: "int \<Rightarrow> lockRow \<Rightarrow> bool" where
  "lockExpired now l \<longleftrightarrow> lk_expires l < secOf now"

definition purgeRecord :: "string \<Rightarrow> string \<Rightarrow> int \<Rightarrow> lockRow list \<Rightarrow> lockRow list" where
  "purgeRecord t i now ls = filter (\<lambda>l. \<not> (onRecord t i l \<and> lockExpired now l)) ls"

definition lookupLock :: "string \<Rightarrow> string \<Rightarrow> lockRow list \<Rightarrow> lockRow option" where
  "lookupLock t i ls = find (onRecord t i) ls"

definition renewLock :: "string \<Rightarrow> string \<Rightarrow> int \<Rightarrow> int \<Rightarrow> lockRow list \<Rightarrow> lockRow list" where
  "renewLock t i expires now ls = map (\<lambda>l. if onRecord t i l then l\<lparr>lk_expires := expires, lk_at := secOf now\<rparr> else l) ls"

text \<open>Refused by the unique constraint when the record has a row.\<close>

definition insertLock :: "lockRow \<Rightarrow> lockRow list \<Rightarrow> lockRow list option" where
  "insertLock l ls = (if list_ex (onRecord (lk_table l) (lk_row l)) ls then None else Some (ls @ [l]))"

definition removeLock :: "string \<Rightarrow> string \<Rightarrow> lockRow list \<Rightarrow> lockRow list" where
  "removeLock t i ls = filter (\<lambda>l. \<not> onRecord t i l) ls"

section \<open>The handlers\<close>

record 'row lockServer =
  ls_sql :: "'row sqlite"
  ls_float :: "string \<Rightarrow> bool option"
  ls_tenant :: "'row \<Rightarrow> string"
  ls_world :: "'row world"
  ls_app :: appConfig

record lockRequest =
  lq_table :: string
  lq_id :: string
  lq_session :: "principal option"
  lq_csrf :: bool

datatype lockAnswer = MissingId | BadCsrf | NotSignedIn | ScopeDenied | LockNotFound | AccessDenied
  | Locked int | LockedByOther "(string \<times> int) option" | NoActiveLock | NotOwner | Unlocked | StatusFree | StatusLocked string int int

definition lockRowReadable :: "'row lockServer \<Rightarrow> string \<Rightarrow> string \<Rightarrow> principal option \<Rightarrow> bool" where
  "lockRowReadable sv table i s \<longleftrightarrow>
     SessionCanAccessTable (ls_world sv) (ls_app sv) table OpRead s \<and>
     canAccessRowScoped (ls_sql sv) (ls_float sv) (ls_world sv) (ls_app sv) table i s ''view''"

definition lockRowEditable :: "'row lockServer \<Rightarrow> string \<Rightarrow> string \<Rightarrow> principal option \<Rightarrow> bool" where
  "lockRowEditable sv table i s \<longleftrightarrow>
     SessionCanAccessTable (ls_world sv) (ls_app sv) table OpUpdate s \<and>
     canAccessRowScoped (ls_sql sv) (ls_float sv) (ls_world sv) (ls_app sv) table i s ''edit'' \<and>
     \<not> membershipRowControlDenied (ls_sql sv) (ls_tenant sv) (ls_world sv) (ls_app sv) table i s"

text \<open>The checks before the table is touched: the answer, or the caller.\<close>

definition acquireGate :: "'row lockServer \<Rightarrow> lockRequest \<Rightarrow> lockAnswer + principal" where
  "acquireGate sv q =
     (if lq_id q = [] then Inl MissingId
      else if \<not> lq_csrf q then Inl BadCsrf
      else case lq_session q of None \<Rightarrow> Inl NotSignedIn
      | Some p \<Rightarrow>
          if checkScope (scopeView (Some p)) (lq_table q) ''write'' \<noteq> None then Inl ScopeDenied
          else if \<not> lockRowReadable sv (lq_table q) (lq_id q) (Some p) then Inl LockNotFound
          else if \<not> lockRowEditable sv (lq_table q) (lq_id q) (Some p) then Inl AccessDenied
          else Inr p)"

text \<open>What the caller does once it has read the table.\<close>

datatype acquireStep = Renew | Conflict string int | Insert

definition acquirePlan :: "principal \<Rightarrow> lockRow option \<Rightarrow> acquireStep" where
  "acquirePlan p found =
     (case found of None \<Rightarrow> Insert
      | Some l \<Rightarrow> if lk_user l = UserID p then Renew else Conflict (lk_email l) (lk_expires l))"

definition lockExpiry :: "int \<Rightarrow> int" where
  "lockExpiry now = secOf (now + lockTTL)"

definition acquireWrite :: "acquireStep \<Rightarrow> principal \<Rightarrow> string \<Rightarrow> string \<Rightarrow> int \<Rightarrow> lockRow list \<Rightarrow> lockAnswer \<times> lockRow list" where
  "acquireWrite plan p t i now ls =
     (case plan of
        Renew \<Rightarrow> (Locked (lockExpiry now), renewLock t i (lockExpiry now) now ls)
      | Conflict email expires \<Rightarrow> (LockedByOther (Some (email, expires)), ls)
      | Insert \<Rightarrow>
          (case insertLock \<lparr>lk_table = t, lk_row = i, lk_user = UserID p, lk_email = Email p, lk_at = secOf now,
                lk_expires = lockExpiry now\<rparr> ls of
             None \<Rightarrow> (LockedByOther None, ls)
           | Some ls' \<Rightarrow> (Locked (lockExpiry now), ls')))"

definition handleLockAcquire :: "'row lockServer \<Rightarrow> lockRequest \<Rightarrow> int \<Rightarrow> lockRow list \<Rightarrow> lockAnswer \<times> lockRow list" where
  "handleLockAcquire sv q now ls =
     (case acquireGate sv q of Inl a \<Rightarrow> (a, ls)
      | Inr p \<Rightarrow>
          let ls' = purgeRecord (lq_table q) (lq_id q) now ls in
          acquireWrite (acquirePlan p (lookupLock (lq_table q) (lq_id q) ls')) p (lq_table q) (lq_id q) now ls')"

definition handleLockRelease :: "'row lockServer \<Rightarrow> lockRequest \<Rightarrow> lockRow list \<Rightarrow> lockAnswer \<times> lockRow list" where
  "handleLockRelease sv q ls =
     (if lq_id q = [] then (MissingId, ls)
      else if \<not> lq_csrf q then (BadCsrf, ls)
      else case lq_session q of None \<Rightarrow> (NotSignedIn, ls)
      | Some p \<Rightarrow>
          if \<not> lockRowReadable sv (lq_table q) (lq_id q) (Some p) then (LockNotFound, ls)
          else case lookupLock (lq_table q) (lq_id q) ls of None \<Rightarrow> (NoActiveLock, ls)
          | Some l \<Rightarrow>
              if lk_user l \<noteq> UserID p \<and> \<not> IsAdmin (Some p) then (NotOwner, ls)
              else (Unlocked, removeLock (lq_table q) (lq_id q) ls))"

definition handleLockStatus :: "'row lockServer \<Rightarrow> lockRequest \<Rightarrow> int \<Rightarrow> lockRow list \<Rightarrow> lockAnswer \<times> lockRow list" where
  "handleLockStatus sv q now ls =
     (if lq_id q = [] then (MissingId, ls)
      else if \<not> lockRowReadable sv (lq_table q) (lq_id q) (lq_session q) then (LockNotFound, ls)
      else let ls' = purgeRecord (lq_table q) (lq_id q) now ls in
        case lookupLock (lq_table q) (lq_id q) ls' of None \<Rightarrow> (StatusFree, ls')
        | Some l \<Rightarrow> (StatusLocked (lk_email l) (lk_at l) (lk_expires l), ls'))"

text \<open>\<open>CheckLock\<close>: the holder's address when somebody else holds the record.\<close>

definition CheckLock :: "string \<Rightarrow> string \<Rightarrow> int \<Rightarrow> int \<Rightarrow> lockRow list \<Rightarrow> string option \<times> lockRow list" where
  "CheckLock table rowID userID now ls =
     (let ls' = purgeRecord table rowID now ls in
      case lookupLock table rowID ls' of None \<Rightarrow> (None, ls')
      | Some l \<Rightarrow> if lk_user l = userID then (None, ls') else (Some (lk_email l), ls'))"

definition cleanupExpiredLocks :: "int \<Rightarrow> lockRow list \<Rightarrow> lockRow list" where
  "cleanupExpiredLocks now ls =
     (if \<not> list_ex (lockExpired now) ls then ls else filter (\<lambda>l. \<not> lockExpired now l) ls)"

section \<open>Statements in any order\<close>

text \<open>The statements of any number of requests, interleaved.\<close>

datatype lockStatement = Purge string string | RenewAt string string int | InsertRow lockRow | Remove string string | PurgeAll

fun runStatement :: "int \<times> lockStatement \<Rightarrow> lockRow list \<Rightarrow> lockRow list" where
  "runStatement (now, Purge t i) ls = purgeRecord t i now ls"
| "runStatement (now, RenewAt t i e) ls = renewLock t i e now ls"
| "runStatement (now, InsertRow l) ls = (case insertLock l ls of None \<Rightarrow> ls | Some ls' \<Rightarrow> ls')"
| "runStatement (now, Remove t i) ls = removeLock t i ls"
| "runStatement (now, PurgeAll) ls = cleanupExpiredLocks now ls"

definition recordOf :: "lockRow \<Rightarrow> string \<times> string" where
  "recordOf l = (lk_table l, lk_row l)"

definition oneLock :: "lockRow list \<Rightarrow> bool" where
  "oneLock ls \<longleftrightarrow> distinct (map recordOf ls)"

lemma onRecord_iff: "onRecord t i l \<longleftrightarrow> recordOf l = (t, i)"
  by (auto simp: onRecord_def recordOf_def)

lemma renewLock_records: "map recordOf (renewLock t i e now ls) = map recordOf ls"
  by (simp add: renewLock_def recordOf_def)

lemma oneLock_filter: "oneLock ls \<Longrightarrow> oneLock (filter P ls)"
  by (simp add: oneLock_def distinct_map_filter)

lemma oneLock_insert: "oneLock ls \<Longrightarrow> insertLock l ls = Some ls' \<Longrightarrow> oneLock ls'"
  by (fastforce simp: oneLock_def insertLock_def list_ex_iff onRecord_iff recordOf_def split: if_splits)

lemma oneLock_statement: "oneLock ls \<Longrightarrow> oneLock (runStatement st ls)"
  by (cases "(st, ls)" rule: runStatement.cases)
    (auto simp: purgeRecord_def removeLock_def cleanupExpiredLocks_def oneLock_filter oneLock_insert renewLock_records oneLock_def [of "renewLock _ _ _ _ _"]
      simp flip: oneLock_def split: option.splits)

text \<open>Whatever statements run in whatever order, a record has one lock at most.\<close>

theorem one_lock_per_record: "oneLock ls \<Longrightarrow> oneLock (fold runStatement sts ls)"
  by (induction sts arbitrary: ls) (auto intro: oneLock_statement)

section \<open>Whole requests\<close>

datatype 'row lockOp =
    OpAcquire "'row lockServer" lockRequest
  | OpRelease "'row lockServer" lockRequest
  | OpStatus "'row lockServer" lockRequest
  | OpCheck string string int
  | OpCleanup

fun runLockOp :: "int \<times> 'row lockOp \<Rightarrow> lockRow list \<Rightarrow> lockRow list" where
  "runLockOp (now, OpAcquire sv q) ls = snd (handleLockAcquire sv q now ls)"
| "runLockOp (now, OpRelease sv q) ls = snd (handleLockRelease sv q ls)"
| "runLockOp (now, OpStatus sv q) ls = snd (handleLockStatus sv q now ls)"
| "runLockOp (now, OpCheck t i u) ls = snd (CheckLock t i u now ls)"
| "runLockOp (now, OpCleanup) ls = cleanupExpiredLocks now ls"

text \<open>A release the holder or an administrator asks for.\<close>

fun frees :: "string \<Rightarrow> string \<Rightarrow> int \<Rightarrow> 'row lockOp \<Rightarrow> bool" where
  "frees t i u (OpRelease sv q) \<longleftrightarrow> lq_table q = t \<and> lq_id q = i \<and>
     (case lq_session q of None \<Rightarrow> False | Some p \<Rightarrow> UserID p = u \<or> IsAdmin (Some p))"
| "frees t i u _ \<longleftrightarrow> False"

definition holdsUntil :: "string \<Rightarrow> string \<Rightarrow> int \<Rightarrow> int \<Rightarrow> lockRow list \<Rightarrow> bool" where
  "holdsUntil t i u e ls \<longleftrightarrow> (\<exists>l. lookupLock t i ls = Some l \<and> lk_user l = u \<and> e \<le> lk_expires l)"

lemma find_filter: "find P ls = Some l \<Longrightarrow> Q l \<Longrightarrow> find P (filter Q ls) = Some l"
  by (induction ls) (auto split: if_splits)

lemma find_map: "(\<And>l. P (g l) = P l) \<Longrightarrow> find P (map g ls) = map_option g (find P ls)"
  by (induction ls) auto

lemma find_onRecord: "lookupLock t i ls = Some l \<Longrightarrow> onRecord t i l \<and> l \<in> set ls"
  by (auto simp: lookupLock_def find_Some_iff)

lemma lookup_append: "lookupLock t i (ls @ [l]) = (case lookupLock t i ls of None \<Rightarrow> if onRecord t i l then Some l else None | Some k \<Rightarrow> Some k)"
  unfolding lookupLock_def by (induction ls) auto

lemma holds_filter: "holdsUntil t i u e ls \<Longrightarrow> (\<And>l. onRecord t i l \<Longrightarrow> e \<le> lk_expires l \<Longrightarrow> P l) \<Longrightarrow> holdsUntil t i u e (filter P ls)"
  unfolding holdsUntil_def lookupLock_def by (metis find_filter find_onRecord lookupLock_def)

lemma holds_purge: "holdsUntil t i u e ls \<Longrightarrow> secOf now \<le> e \<Longrightarrow> holdsUntil t i u e (purgeRecord t' i' now ls)"
  unfolding purgeRecord_def by (rule holds_filter) (auto simp: lockExpired_def)

lemma holds_cleanup: "holdsUntil t i u e ls \<Longrightarrow> secOf now \<le> e \<Longrightarrow> holdsUntil t i u e (cleanupExpiredLocks now ls)"
  unfolding cleanupExpiredLocks_def by (auto simp: lockExpired_def intro!: holds_filter)

lemma lookup_renew: "lookupLock t i (renewLock t' i' e now ls) = map_option (\<lambda>l. if onRecord t' i' l then l\<lparr>lk_expires := e, lk_at := secOf now\<rparr> else l) (lookupLock t i ls)"
  unfolding lookupLock_def renewLock_def by (rule find_map) (simp add: onRecord_def)

lemma insertLock_Some: "insertLock l ls = Some ls' \<Longrightarrow> ls' = ls @ [l]"
  by (simp add: insertLock_def split: if_splits)

lemma holds_acquire:
  assumes "holdsUntil t i u e ls" "secOf now \<le> e" "e \<le> lockExpiry now"
  shows "holdsUntil t i u e (snd (handleLockAcquire sv q now ls))"
proof (cases "acquireGate sv q")
  case (Inr p)
  let ?ls = "purgeRecord (lq_table q) (lq_id q) now ls"
  from holds_purge [OF assms(1,2)] obtain l where l: "lookupLock t i ?ls = Some l" "lk_user l = u" "e \<le> lk_expires l"
    unfolding holdsUntil_def by blast
  show ?thesis
  proof (cases "acquirePlan p (lookupLock (lq_table q) (lq_id q) ?ls)")
    case Renew
    with l assms(3) Inr show ?thesis
      by (simp add: handleLockAcquire_def Let_def acquireWrite_def holdsUntil_def lookup_renew)
  next
    case (Conflict email expires)
    with l Inr show ?thesis by (auto simp: handleLockAcquire_def Let_def acquireWrite_def holdsUntil_def)
  next
    case Insert
    with l Inr show ?thesis
      by (auto simp: handleLockAcquire_def Let_def acquireWrite_def holdsUntil_def lookup_append dest!: insertLock_Some split: option.splits)
  qed
qed (use assms in \<open>simp add: handleLockAcquire_def\<close>)

lemma holds_release:
  assumes "holdsUntil t i u e ls" "\<not> frees t i u (OpRelease sv q)"
  shows "holdsUntil t i u e (snd (handleLockRelease sv q ls))"
proof (cases "snd (handleLockRelease sv q ls) = ls")
  case False
  then obtain p l where run: "lq_session q = Some p" "lookupLock (lq_table q) (lq_id q) ls = Some l" "lk_user l = UserID p \<or> IsAdmin (Some p)"
    "snd (handleLockRelease sv q ls) = removeLock (lq_table q) (lq_id q) ls"
    by (auto simp: handleLockRelease_def split: if_splits option.splits)
  have "(lq_table q, lq_id q) \<noteq> (t, i)" using assms run(1-3) by (auto simp: holdsUntil_def)
  then show ?thesis
    unfolding run(4) removeLock_def using assms(1) by (intro holds_filter) (auto simp: onRecord_def)
qed (use assms in simp)

lemma holds_op:
  assumes "holdsUntil t i u e ls" "secOf now \<le> e" "e \<le> lockExpiry now" "\<not> frees t i u op"
  shows "holdsUntil t i u e (runLockOp (now, op) ls)"
proof (cases op)
  case (OpStatus sv q)
  with holds_purge [OF assms(1,2)] assms(1) show ?thesis by (auto simp: handleLockStatus_def Let_def split: option.splits)
next
  case (OpCheck t' i' v)
  with holds_purge [OF assms(1,2)] show ?thesis by (auto simp: CheckLock_def Let_def split: option.splits)
qed (use assms in \<open>auto simp: holds_acquire holds_release holds_cleanup simp del: frees.simps\<close>)

lemma acquired:
  assumes "handleLockAcquire sv q now ls = (Locked e, ls')"
  obtains p where "acquireGate sv q = Inr p" "e = lockExpiry now" "holdsUntil (lq_table q) (lq_id q) (UserID p) e ls'"
proof -
  let ?t = "lq_table q" and ?i = "lq_id q"
  let ?ls = "purgeRecord ?t ?i now ls"
  have gate_answers: "acquireGate sv q \<noteq> Inl (Locked e)"
    by (simp add: acquireGate_def split: option.splits)
  then obtain p where p: "acquireGate sv q = Inr p" using assms by (cases "acquireGate sv q") (auto simp: handleLockAcquire_def)
  have written: "acquireWrite (acquirePlan p (lookupLock ?t ?i ?ls)) p ?t ?i now ?ls = (Locked e, ls')"
    using assms p by (simp add: handleLockAcquire_def Let_def)
  show ?thesis
  proof (cases "lookupLock ?t ?i ?ls")
    case None
    then have "e = lockExpiry now" "holdsUntil ?t ?i (UserID p) e ls'"
      using written by (auto simp: acquirePlan_def acquireWrite_def holdsUntil_def lookup_append onRecord_def dest!: insertLock_Some split: option.splits)
    with p show ?thesis by (rule that)
  next
    case (Some l)
    with written have "e = lockExpiry now" "ls' = renewLock ?t ?i e now ?ls" "lk_user l = UserID p"
      by (auto simp: acquirePlan_def acquireWrite_def split: if_splits)
    moreover from this have "holdsUntil ?t ?i (UserID p) e ls'"
      using Some find_onRecord [OF Some] by (simp add: holdsUntil_def lookup_renew)
    ultimately show ?thesis using p that by blast
  qed
qed

lemma holds_run:
  "holdsUntil t i u (lockExpiry now) ls \<Longrightarrow>
   (\<forall>(at, op) \<in> set ops. now \<le> at \<and> secOf at \<le> lockExpiry now \<and> \<not> frees t i u op) \<Longrightarrow>
   holdsUntil t i u (lockExpiry now) (fold runLockOp ops ls)"
proof (induction ops arbitrary: ls)
  case (Cons x ops)
  obtain tm op where x: "x = (tm, op)" by (cases x)
  then have "lockExpiry now \<le> lockExpiry tm" using Cons.prems(2) by (simp add: lockExpiry_def secOf_def zdiv_mono1)
  then have "holdsUntil t i u (lockExpiry now) (runLockOp x ls)"
    using Cons.prems x holds_op [of t i u "lockExpiry now" ls tm op] by auto
  with Cons show ?case by simp
qed simp


text \<open>C34: No lock outlives its holder: 31 seconds after a record's lock was last renewed, whoever may
  edit the record gets it.\<close>

theorem abandoned_lock_obtainable:
  assumes "acquireGate sv q = Inr p"
    and "\<forall>l \<in> set ls. onRecord (lq_table q) (lq_id q) l \<longrightarrow> (\<exists>r. lk_expires l = lockExpiry r \<and> r + 31 * 1000000000 \<le> now)"
  shows "fst (handleLockAcquire sv q now ls) = Locked (lockExpiry now) \<and>
    fst (CheckLock (lq_table q) (lq_id q) (UserID p) now (snd (handleLockAcquire sv q now ls))) = None"
proof -
  let ?t = "lq_table q" and ?i = "lq_id q"
  have "lockExpired now l" if mine: "l \<in> set ls" "onRecord ?t ?i l" for l
  proof -
    obtain r where "lk_expires l = lockExpiry r" "r + 31 * 1000000000 \<le> now" using assms(2) mine by blast
    moreover from this have "(r + 31 * 1000000000) div 1000000000 \<le> now div 1000000000" by (intro zdiv_mono1) auto
    ultimately show ?thesis by (simp add: lockExpired_def lockExpiry_def secOf_def lockTTL_def)
  qed
  then have none: "\<forall>l \<in> set (purgeRecord ?t ?i now ls). \<not> onRecord ?t ?i l" by (auto simp: purgeRecord_def)
  then have lookup: "lookupLock ?t ?i (purgeRecord ?t ?i now ls) = None" by (simp add: lookupLock_def find_None_iff)
  let ?l = "\<lparr>lk_table = ?t, lk_row = ?i, lk_user = UserID p, lk_email = Email p, lk_at = secOf now, lk_expires = lockExpiry now\<rparr>"
  have run: "handleLockAcquire sv q now ls = (Locked (lockExpiry now), purgeRecord ?t ?i now ls @ [?l])"
    using none by (auto simp: handleLockAcquire_def assms(1) Let_def lookup acquirePlan_def acquireWrite_def insertLock_def list_ex_iff)
  have "secOf now \<le> lockExpiry now" by (simp add: lockExpiry_def secOf_def lockTTL_def zdiv_mono1)
  then have "purgeRecord ?t ?i now (purgeRecord ?t ?i now ls @ [?l]) = purgeRecord ?t ?i now ls @ [?l]"
    by (simp add: purgeRecord_def lockExpired_def)
  then show ?thesis unfolding run
    by (simp add: CheckLock_def lookup_append lookup onRecord_def)
qed

text \<open>The locks are no oracle for records the caller cannot read: every endpoint answers as if the table
  were empty, and changes nothing.\<close>

theorem unreadable_record_answers:
  assumes "\<not> lockRowReadable sv (lq_table q) (lq_id q) (lq_session q)"
  shows "handleLockStatus sv q now ls = (fst (handleLockStatus sv q now []), ls) \<and>
    handleLockRelease sv q ls = (fst (handleLockRelease sv q []), ls) \<and>
    handleLockAcquire sv q now ls = (fst (handleLockAcquire sv q now []), ls) \<and>
    (\<nexists>e. fst (handleLockAcquire sv q now ls) = Locked e)"
proof -
  have "acquireGate sv q \<noteq> Inr p" "acquireGate sv q \<noteq> Inl (Locked e)" for p e
    using assms by (auto simp: acquireGate_def split: option.splits)
  then obtain a where "acquireGate sv q = Inl a" "\<nexists>e. a = Locked e" by (metis sum.exhaust)
  then show ?thesis using assms
    by (auto simp: handleLockStatus_def handleLockRelease_def handleLockAcquire_def split: option.splits)
qed

section \<open>Expired rows\<close>

definition live :: "int \<Rightarrow> lockRow list \<Rightarrow> lockRow list" where
  "live now ls = filter (\<lambda>l. \<not> lockExpired now l) ls"

lemma lookup_purged: "lookupLock t i (purgeRecord t i now ls) = lookupLock t i (live now ls)"
  unfolding lookupLock_def purgeRecord_def live_def by (induction ls) auto

lemma live_purge: "live now (purgeRecord t i now ls) = live now ls"
  unfolding live_def purgeRecord_def filter_filter by (rule filter_cong) auto

lemma live_live [simp]: "live now (live now ls) = live now ls"
  by (simp add: live_def)

lemma live_later: "s \<le> t \<Longrightarrow> live t (live s ls) = live t ls"
  using zdiv_mono1 [of s t 1000000000] by (auto simp: live_def lockExpired_def secOf_def intro: filter_cong)

lemma purge_live: "purgeRecord t i now (live now ls) = live now ls"
  unfolding live_def purgeRecord_def filter_filter by (rule filter_cong) auto

lemma live_cleanup: "live now (cleanupExpiredLocks now ls) = live now ls"
  by (auto simp: cleanupExpiredLocks_def live_def)

lemma expiry_later: "secOf now \<le> lockExpiry now"
  by (simp add: lockExpiry_def secOf_def lockTTL_def zdiv_mono1)

lemma live_renew: "live now (renewLock t i (lockExpiry now) now (purgeRecord t i now ls)) = renewLock t i (lockExpiry now) now (live now ls)"
  using expiry_later [of now]
  by (induction ls) (auto simp: live_def renewLock_def purgeRecord_def lockExpired_def)

lemma insert_purged: "lookupLock t i ls = None \<Longrightarrow> lk_table l = t \<Longrightarrow> lk_row l = i \<Longrightarrow> insertLock l ls = Some (ls @ [l])"
  by (auto simp: insertLock_def lookupLock_def find_None_iff list_ex_iff)

text \<open>The handlers that purge first see and keep the live rows only.\<close>

lemma acquire_live:
  "fst (handleLockAcquire sv q now ls) = fst (handleLockAcquire sv q now (live now ls)) \<and>
   live now (snd (handleLockAcquire sv q now ls)) = snd (handleLockAcquire sv q now (live now ls))"
proof (cases "acquireGate sv q")
  case (Inr p)
  let ?t = "lq_table q" and ?i = "lq_id q"
  let ?ls = "purgeRecord ?t ?i now ls"
  have look: "lookupLock ?t ?i ?ls = lookupLock ?t ?i (live now ls)" by (rule lookup_purged)
  show ?thesis
  proof (cases "lookupLock ?t ?i (live now ls)")
    case None
    with look expiry_later [of now] show ?thesis
      by (simp add: handleLockAcquire_def Inr Let_def purge_live acquirePlan_def acquireWrite_def insert_purged)
        (simp add: live_def lockExpired_def, simp add: live_def [symmetric] live_purge flip: lockExpired_def)
  next
    case (Some l)
    with look show ?thesis
      by (simp add: handleLockAcquire_def Inr Let_def purge_live acquirePlan_def acquireWrite_def live_renew live_purge)
  qed
qed (simp add: handleLockAcquire_def)

lemma status_live:
  "fst (handleLockStatus sv q now ls) = fst (handleLockStatus sv q now (live now ls)) \<and>
   live now (snd (handleLockStatus sv q now ls)) = snd (handleLockStatus sv q now (live now ls))"
  by (simp add: handleLockStatus_def Let_def lookup_purged purge_live live_purge split: option.split)

lemma check_live:
  "fst (CheckLock t i u now ls) = fst (CheckLock t i u now (live now ls)) \<and>
   live now (snd (CheckLock t i u now ls)) = snd (CheckLock t i u now (live now ls))"
  by (simp add: CheckLock_def Let_def lookup_purged purge_live live_purge split: option.split)

section \<open>The cleanup worker\<close>

datatype opAnswer = LockSays lockAnswer | CheckSays "string option"

text \<open>The answers of a run of requests that purge before they look, with cleanups in between.\<close>

fun purging :: "'row lockOp \<Rightarrow> bool" where
  "purging (OpRelease _ _) = False"
| "purging _ = True"

fun lockAnswers :: "(int \<times> 'row lockOp) list \<Rightarrow> lockRow list \<Rightarrow> opAnswer list" where
  "lockAnswers [] ls = []"
| "lockAnswers ((now, OpAcquire sv q) # r) ls =
     LockSays (fst (handleLockAcquire sv q now ls)) # lockAnswers r (snd (handleLockAcquire sv q now ls))"
| "lockAnswers ((now, OpRelease sv q) # r) ls =
     LockSays (fst (handleLockRelease sv q ls)) # lockAnswers r (snd (handleLockRelease sv q ls))"
| "lockAnswers ((now, OpStatus sv q) # r) ls =
     LockSays (fst (handleLockStatus sv q now ls)) # lockAnswers r (snd (handleLockStatus sv q now ls))"
| "lockAnswers ((now, OpCheck t i u) # r) ls = CheckSays (fst (CheckLock t i u now ls)) # lockAnswers r (snd (CheckLock t i u now ls))"
| "lockAnswers ((now, OpCleanup) # r) ls = lockAnswers r (cleanupExpiredLocks now ls)"

lemma answers_live:
  "sorted (map fst ops) \<Longrightarrow> (\<forall>(t, op) \<in> set ops. s \<le> t \<and> purging op) \<Longrightarrow> live s ls = live s ls' \<Longrightarrow> lockAnswers ops ls = lockAnswers ops ls'"
proof (induction ops arbitrary: s ls ls')
  case (Cons x ops)
  obtain t op where x: "x = (t, op)" by (cases x)
  then have t: "s \<le> t" "purging op" and rest: "sorted (map fst ops)" "\<forall>(u, op) \<in> set ops. t \<le> u \<and> purging op"
    using Cons.prems(1,2) by auto
  have same: "live t ls = live t ls'" using Cons.prems(3) live_later [OF t(1)] by metis
  note IH = Cons.IH [OF rest]
  show ?case
  proof (cases op)
    case (OpAcquire sv q)
    have st: "live t (snd (handleLockAcquire sv q t ls)) = live t (snd (handleLockAcquire sv q t ls'))"
      and ans: "fst (handleLockAcquire sv q t ls) = fst (handleLockAcquire sv q t ls')" using acquire_live [of sv q t ls, unfolded same] acquire_live [of sv q t ls'] by argo+
    show ?thesis by (simp add: x OpAcquire ans IH [OF st])
  next
    case (OpStatus sv q)
    have st: "live t (snd (handleLockStatus sv q t ls)) = live t (snd (handleLockStatus sv q t ls'))"
      and ans: "fst (handleLockStatus sv q t ls) = fst (handleLockStatus sv q t ls')" using status_live [of sv q t ls, unfolded same] status_live [of sv q t ls'] by argo+
    show ?thesis by (simp add: x OpStatus ans IH [OF st])
  next
    case (OpCheck tb i u)
    have st: "live t (snd (CheckLock tb i u t ls)) = live t (snd (CheckLock tb i u t ls'))"
      and ans: "fst (CheckLock tb i u t ls) = fst (CheckLock tb i u t ls')" using check_live [of tb i u t ls, unfolded same] check_live [of tb i u t ls'] by argo+
    show ?thesis by (simp add: x OpCheck ans IH [OF st])
  next
    case OpCleanup
    have st: "live t (cleanupExpiredLocks t ls) = live t (cleanupExpiredLocks t ls')" by (simp add: live_cleanup same)
    show ?thesis by (simp add: x OpCleanup IH [OF st])
  qed (use t in simp)
qed simp

text \<open>The cleanup worker is unseen: acquiring, status and the check of a write answer as if it never ran.\<close>

theorem cleanup_unseen:
  assumes "sorted (map fst ops)" "\<forall>(t, op) \<in> set ops. purging op"
  shows "lockAnswers ops ls = lockAnswers (filter (\<lambda>(t, op). op \<noteq> OpCleanup) ops) ls"
  using assms
proof (induction ops arbitrary: ls)
  case (Cons x ops)
  obtain t op where x: "x = (t, op)" by (cases x)
  have rest: "sorted (map fst ops)" "\<forall>(u, op) \<in> set ops. t \<le> u \<and> purging op" using Cons.prems x by auto
  have skip: "lockAnswers ops (cleanupExpiredLocks t ls) = lockAnswers ops ls"
    using answers_live [OF rest, of "cleanupExpiredLocks t ls" ls] by (simp add: live_cleanup)
  have IH: "lockAnswers ops ls' = lockAnswers (filter (\<lambda>(t, op). op \<noteq> OpCleanup) ops) ls'" for ls'
    by (rule Cons.IH [OF rest(1)]) (use rest(2) in blast)
  show ?case
  proof (cases op)
    case OpCleanup
    then show ?thesis using skip IH by (simp add: x)
  qed (simp_all add: x IH)
qed simp

section \<open>Two gaps\<close>

text \<open>A release does not purge first: after a lock has run out the status says the record is free, yet another
  user's release is refused as the holder's, until the worker has come by.\<close>

theorem release_sees_expired:
  assumes "lockRowReadable sv t i (Some p)" "\<not> IsAdmin (Some p)" "lk_user l \<noteq> UserID p" "onRecord t i l" "lockExpired now l" "i \<noteq> []"
  shows "fst (handleLockStatus sv \<lparr>lq_table = t, lq_id = i, lq_session = Some p, lq_csrf = True\<rparr> now [l]) = StatusFree \<and>
    handleLockRelease sv \<lparr>lq_table = t, lq_id = i, lq_session = Some p, lq_csrf = True\<rparr> [l] = (NotOwner, [l]) \<and>
    fst (handleLockRelease sv \<lparr>lq_table = t, lq_id = i, lq_session = Some p, lq_csrf = True\<rparr> (cleanupExpiredLocks now [l])) = NoActiveLock"
  using assms
  by (simp add: handleLockStatus_def handleLockRelease_def purgeRecord_def lookupLock_def cleanupExpiredLocks_def)

text \<open>Renewing does not name the holder: when the lock runs out between a holder's look and its update, and
  another user takes it in between, both are told the record is theirs.\<close>

definition lockedBy :: "int \<Rightarrow> lockRow" where
  "lockedBy u = \<lparr>lk_table = ''t'', lk_row = ''1'', lk_user = u, lk_email = [], lk_at = 0, lk_expires = 30\<rparr>"

theorem renewal_race:
  "let seen = lookupLock ''t'' ''1'' (purgeRecord ''t'' ''1'' 30900000000 [lockedBy (UserID p)]);
       purged = purgeRecord ''t'' ''1'' 31000000000 [lockedBy (UserID p)];
       (answer2, ls2) = acquireWrite (acquirePlan p2 (lookupLock ''t'' ''1'' purged)) p2 ''t'' ''1'' 31000000000 purged;
       (answer1, ls1) = acquireWrite (acquirePlan p seen) p ''t'' ''1'' 31100000000 ls2
   in answer2 = Locked 61 \<and> answer1 = Locked 61 \<and> map lk_user ls1 = [UserID p2]"
  by (simp add: lockedBy_def purgeRecord_def onRecord_def lockExpired_def secOf_def lookupLock_def acquirePlan_def acquireWrite_def
      insertLock_def renewLock_def lockExpiry_def lockTTL_def)

section \<open>Witnesses\<close>

definition exServer :: "(string \<Rightarrow> sqlArg) lockServer" where
  "exServer = \<lparr>ls_sql = exSqlite, ls_float = (\<lambda>_. None), ls_tenant = (\<lambda>_. ''7''),
     ls_world = exOwn, ls_app = exApp None\<rparr>"

lemma ex_readable: "lockRowReadable exServer ''notes'' ''5'' (Some exMember)"
  using ex_row by (simp add: lockRowReadable_def SessionCanAccessTable_def ex_table ex_mode ex_no_scope exServer_def)

lemma ex_editable: "lockRowEditable exServer ''notes'' ''5'' (Some exMember)"
  using ex_row by (simp add: lockRowEditable_def SessionCanAccessTable_def ex_table ex_mode ex_no_scope exServer_def ex_not_gated)

definition exAsk :: "principal option \<Rightarrow> lockRequest" where
  "exAsk s = \<lparr>lq_table = ''notes'', lq_id = ''5'', lq_session = s, lq_csrf = True\<rparr>"

lemma ex_gate: "acquireGate exServer (exAsk (Some exMember)) = Inr exMember"
  by (simp add: acquireGate_def exAsk_def ex_no_scope ex_readable ex_editable)

lemma ex_acquire: "handleLockAcquire exServer (exAsk (Some exMember)) 0 [] =
    (Locked 30, [\<lparr>lk_table = ''notes'', lk_row = ''5'', lk_user = 3, lk_email = ''m@x.org'', lk_at = 0, lk_expires = 30\<rparr>])"
  by (simp add: handleLockAcquire_def ex_gate purgeRecord_def lookupLock_def acquirePlan_def acquireWrite_def insertLock_def
      lockExpiry_def lockTTL_def secOf_def) (simp add: exAsk_def exMember_def)

theorem one_lock_per_record_witness: "oneLock (fold runStatement [(0, InsertRow (lockedBy 1)), (0, InsertRow (lockedBy 2))] [])"
  by (rule one_lock_per_record) (simp add: oneLock_def)


theorem abandoned_lock_obtainable_witness:
  "fst (handleLockAcquire exServer (exAsk (Some exMember)) (31 * 1000000000)
     [\<lparr>lk_table = ''notes'', lk_row = ''5'', lk_user = 9, lk_email = [], lk_at = 0, lk_expires = 30\<rparr>]) = Locked 61"
proof -
  have "lockExpiry 0 = 30" by (simp add: lockExpiry_def lockTTL_def secOf_def)
  then have "\<forall>l \<in> set [\<lparr>lk_table = ''notes'', lk_row = ''5'', lk_user = 9, lk_email = [], lk_at = 0, lk_expires = 30\<rparr>].
      onRecord (lq_table (exAsk (Some exMember))) (lq_id (exAsk (Some exMember))) l \<longrightarrow>
      (\<exists>r. lk_expires l = lockExpiry r \<and> r + 31 * 1000000000 \<le> 31 * 1000000000)"
    by (auto intro: exI [of _ 0])
  from abandoned_lock_obtainable [OF ex_gate this] show ?thesis by (simp add: lockExpiry_def lockTTL_def secOf_def)
qed

theorem unreadable_record_answers_witness:
  "fst (handleLockStatus exServer \<lparr>lq_table = ''gone'', lq_id = ''5'', lq_session = None, lq_csrf = True\<rparr> 0 [lockedBy 1]) = LockNotFound"
proof -
  have no: "\<not> lockRowReadable exServer ''gone'' ''5'' None"
    by (simp add: lockRowReadable_def SessionCanAccessTable_def exServer_def appHasTable_def sqliteIdentifierFold_def ex_defs go_eval)
  have "handleLockStatus exServer \<lparr>lq_table = ''gone'', lq_id = ''5'', lq_session = None, lq_csrf = True\<rparr> 0 [lockedBy 1] =
      (fst (handleLockStatus exServer \<lparr>lq_table = ''gone'', lq_id = ''5'', lq_session = None, lq_csrf = True\<rparr> 0 []), [lockedBy 1])"
    using unreadable_record_answers [of exServer "\<lparr>lq_table = ''gone'', lq_id = ''5'', lq_session = None, lq_csrf = True\<rparr>" 0 "[lockedBy 1]"] no
    by simp
  then show ?thesis using no by (simp add: handleLockStatus_def)
qed

theorem cleanup_unseen_witness:
  "lockAnswers [(0, OpAcquire exServer (exAsk (Some exMember))), (60000000000, OpCleanup), (60000000000, OpCheck ''notes'' ''5'' 4)] [] =
   lockAnswers [(0, OpAcquire exServer (exAsk (Some exMember))), (60000000000, OpCheck ''notes'' ''5'' 4)] []"
  using cleanup_unseen [of "[(0, OpAcquire exServer (exAsk (Some exMember))), (60000000000, OpCleanup), (60000000000, OpCheck ''notes'' ''5'' 4)]" "[]"]
  by simp

theorem release_sees_expired_witness:
  "handleLockRelease exServer (exAsk (Some exMember)) [\<lparr>lk_table = ''notes'', lk_row = ''5'', lk_user = 9, lk_email = [], lk_at = 0, lk_expires = 30\<rparr>] =
     (NotOwner, [\<lparr>lk_table = ''notes'', lk_row = ''5'', lk_user = 9, lk_email = [], lk_at = 0, lk_expires = 30\<rparr>])"
proof -
  have "\<not> IsAdmin (Some exMember)" by (simp add: IsAdmin_def exMember_def)
  from release_sees_expired [OF ex_readable this,
      of "\<lparr>lk_table = ''notes'', lk_row = ''5'', lk_user = 9, lk_email = [], lk_at = 0, lk_expires = 30\<rparr>" "60000000000"]
  show ?thesis by (simp add: exAsk_def ex_session onRecord_def lockExpired_def secOf_def)
qed

end
