(* ===== verification/Sharing.thy ===== *)
theory Sharing
  imports Membership_Manage Login_Lockout
begin

text \<open>
  Sharing single records (\<^verbatim>\<open>permissions.go\<close>): who may share one, the ledger of grants the share and revoke endpoints
  write, and the recipient an address stands for. The ledger is the permission table of the world the row
  predicates read. A server is the app with its database's comparisons; a request what its handler
  decodes.
\<close>

section \<open>Levels and authority\<close>

definition permissionLevel :: "string \<Rightarrow> nat option" where
  "permissionLevel p =
     (if p = ''view'' then Some 1 else if p = ''edit'' then Some 2 else if p = ''delete'' then Some 3
      else if p = ''admin'' then Some 4 else None)"

definition shareKey :: "string \<Rightarrow> string \<Rightarrow> string \<Rightarrow> permissionRow \<Rightarrow> bool" where
  "shareKey table i email p \<longleftrightarrow>
     pm_type p = table \<and> pm_resource p = i \<and> pm_grantType p = ''user'' \<and> pm_grantee p = email"

definition hasPermission :: "'row sqlite \<Rightarrow> 'row world \<Rightarrow> string \<Rightarrow> string \<Rightarrow> string \<Rightarrow> string \<Rightarrow> bool" where
  "hasPermission sq w resourceType resourceID email required =
     (case permissionLevel required of None \<Rightarrow> False
      | Some need \<Rightarrow>
          if email = [] then False
          else case find (\<lambda>p. shareKey resourceType resourceID email p \<and> permLive sq w p) (w_perms w) of
              None \<Rightarrow> False
            | Some p \<Rightarrow> (case permissionLevel (pm_level p) of None \<Rightarrow> False | Some have_level \<Rightarrow> need \<le> have_level))"

text \<open>\<open>ss_owner\<close> is the number scanned from a row's \<^verbatim>\<open>user_id\<close>, \<open>ss_ledgerId\<close> SQLite's comparison of a grant's number with
  a text.\<close>

record 'row shareServer =
  ss_sql :: "'row sqlite"
  ss_float :: "string \<Rightarrow> bool option"
  ss_tenant :: "'row \<Rightarrow> string"
  ss_owner :: "'row \<Rightarrow> int option"
  ss_ledgerId :: "int \<Rightarrow> string \<Rightarrow> bool"
  ss_app :: appConfig

definition ownsRow :: "'row shareServer \<Rightarrow> 'row world \<Rightarrow> string \<Rightarrow> string \<Rightarrow> principal \<Rightarrow> bool" where
  "ownsRow sv w table i p \<longleftrightarrow> hasColumn (ss_app sv) table ''user_id'' \<and>
     (case find (\<lambda>row. colIs (ss_sql sv) table ''id'' row (ArgText i)) (w_rows w table) of
        None \<Rightarrow> False | Some row \<Rightarrow> ss_owner sv row = Some (UserID p))"

definition canShareResource :: "'row shareServer \<Rightarrow> 'row world \<Rightarrow> string \<Rightarrow> string \<Rightarrow> principal option \<Rightarrow> bool" where
  "canShareResource sv w table i s =
     (case s of None \<Rightarrow> False
      | Some p \<Rightarrow>
          if \<not> rowIDCanonical (ss_float sv) (ss_app sv) table i then False
          else if IsAdminBypass s then True
          else if \<not> SessionCanAccessTable w (ss_app sv) table OpUpdate s \<or>
                  \<not> canAccessRowScoped (ss_sql sv) (ss_float sv) w (ss_app sv) table i s ''edit'' \<or>
                  membershipRowControlDenied (ss_sql sv) (ss_tenant sv) w (ss_app sv) table i s then False
          else if ownsRow sv w table i p then True
          else hasPermission (ss_sql sv) w table i (sessionGrantEmail s) ''admin'')"

section \<open>The endpoints\<close>

record 'row shareDB =
  sd_world :: "'row world"
  sd_accounts :: "account list"
  sd_seq :: int

definition nocaseEq :: "string \<Rightarrow> string \<Rightarrow> bool" where
  "nocaseEq a b \<longleftrightarrow> map lowc a = map lowc b"

text \<open>The address a share goes to, and whether two accounts spell it.\<close>

definition resolveShareRecipient :: "account list \<Rightarrow> string \<Rightarrow> string \<times> bool" where
  "resolveShareRecipient us email =
     (let found = take 2 (filter (\<lambda>u. nocaseEq (u_email u) (normalizeEmail email)) us) in
      if found = [] then (email, False) else (u_email (last found), 1 < length found))"

record shareRequest =
  sh_table :: string
  sh_id :: string
  sh_session :: "principal option"
  sh_csrf :: bool
  sh_body :: "(string \<times> string \<times> string) option"
  sh_permissionId :: string
  sh_email :: string

datatype shareAnswer = ShareSignIn | ShareScope string | ShareCsrf | ShareForbidden | ShareBadRequest | ShareRequired | ShareBadLevel
  | ShareAmbiguous | ShareBadExpiry | Shared string string | ShareNotFound | ShareRevoked | ShareListed "permissionRow list"

definition upsertShare :: "permissionRow \<Rightarrow> permissionRow list \<Rightarrow> permissionRow list" where
  "upsertShare n ps =
     (if list_ex (shareKey (pm_type n) (pm_resource n) (pm_grantee n)) ps
      then map (\<lambda>p. if shareKey (pm_type n) (pm_resource n) (pm_grantee n) p
             then p\<lparr>pm_level := pm_level n, pm_by := pm_by n, pm_at := pm_at n, pm_expires := pm_expires n\<rparr> else p) ps
      else ps @ [n])"

definition setPerms :: "permissionRow list \<Rightarrow> 'row shareDB \<Rightarrow> 'row shareDB" where
  "setPerms ps db = db\<lparr>sd_world := (sd_world db)\<lparr>w_perms := ps\<rparr>\<rparr>"

definition shareGuard :: "'row shareServer \<Rightarrow> shareRequest \<Rightarrow> string \<Rightarrow> 'row shareDB \<Rightarrow> shareAnswer + principal" where
  "shareGuard sv q action db =
     (case sh_session q of None \<Rightarrow> Inl ShareSignIn
      | Some p \<Rightarrow>
          (case checkScope (scopeView (Some p)) (sh_table q) action of Some _ \<Rightarrow> Inl (ShareScope action)
           | None \<Rightarrow>
               if action = ''write'' \<and> \<not> sh_csrf q then Inl ShareCsrf
               else if \<not> canShareResource sv (sd_world db) (sh_table q) (sh_id q) (Some p) then Inl ShareForbidden
               else Inr p))"

definition newShare :: "'row shareDB \<Rightarrow> shareRequest \<Rightarrow> principal \<Rightarrow> string \<Rightarrow> string \<Rightarrow> string \<Rightarrow> permissionRow" where
  "newShare db q p recipient permission expiry =
     \<lparr>pm_id = sd_seq db + 1, pm_type = sh_table q, pm_resource = sh_id q, pm_grantType = ''user'', pm_grantee = recipient,
      pm_level = permission, pm_by = UserID p, pm_at = secOf (w_now (sd_world db)),
      pm_expires = (if expiry = [] then None else Some expiry)\<rparr>"

definition storeShare :: "permissionRow \<Rightarrow> 'row shareDB \<Rightarrow> 'row shareDB" where
  "storeShare n db =
     (let old = w_perms (sd_world db); ps = upsertShare n old
      in (setPerms ps db)\<lparr>sd_seq := sd_seq db + (if length ps = length old then 0 else 1)\<rparr>)"

definition handleShare :: "'row shareServer \<Rightarrow> shareRequest \<Rightarrow> 'row shareDB \<Rightarrow> shareAnswer \<times> 'row shareDB" where
  "handleShare sv q db =
     (case shareGuard sv q ''write'' db of Inl a \<Rightarrow> (a, db)
      | Inr p \<Rightarrow>
        (case sh_body q of None \<Rightarrow> (ShareBadRequest, db)
         | Some (email, permission, expiry) \<Rightarrow>
            if normalizeEmail email = [] \<or> permission = [] then (ShareRequired, db)
            else if permissionLevel permission = None then (ShareBadLevel, db)
            else case resolveShareRecipient (sd_accounts db) email of (recipient, ambiguous) \<Rightarrow>
              if ambiguous then (ShareAmbiguous, db)
              else if expiry \<noteq> [] \<and> sqlDate (ss_sql sv) expiry = None then (ShareBadExpiry, db)
              else (Shared recipient permission, storeShare (newShare db q p recipient permission expiry) db)))"

definition handleListPermissions :: "'row shareServer \<Rightarrow> shareRequest \<Rightarrow> 'row shareDB \<Rightarrow> shareAnswer" where
  "handleListPermissions sv q db =
     (case shareGuard sv q ''read'' db of Inl a \<Rightarrow> a
      | Inr p \<Rightarrow> ShareListed (sort_key (\<lambda>p. - pm_at p)
          (filter (\<lambda>p. pm_type p = sh_table q \<and> pm_resource p = sh_id q) (w_perms (sd_world db)))))"

definition revokes :: "'row shareServer \<Rightarrow> shareRequest \<Rightarrow> permissionRow \<Rightarrow> bool" where
  "revokes sv q p \<longleftrightarrow> pm_type p = sh_table q \<and> pm_resource p = sh_id q \<and>
     (if sh_email q \<noteq> [] then nocaseEq (pm_grantee p) (trim_space (sh_email q)) \<and> pm_grantType p = ''user''
      else ss_ledgerId sv (pm_id p) (sh_permissionId q))"

definition handleRevokePermission :: "'row shareServer \<Rightarrow> shareRequest \<Rightarrow> 'row shareDB \<Rightarrow> shareAnswer \<times> 'row shareDB" where
  "handleRevokePermission sv q db =
     (case shareGuard sv q ''write'' db of Inl a \<Rightarrow> (a, db)
      | Inr p \<Rightarrow>
          if \<not> list_ex (revokes sv q) (w_perms (sd_world db)) then (ShareNotFound, db)
          else (ShareRevoked, setPerms (filter (\<lambda>p. \<not> revokes sv q p) (w_perms (sd_world db))) db))"

section \<open>What a share gives\<close>

text \<open>The actions a level permits: \<^verbatim>\<open>edit\<close> and \<^verbatim>\<open>delete\<close> each include viewing, neither the other.\<close>

definition permits :: "string \<Rightarrow> string \<Rightarrow> bool" where
  "permits level action \<longleftrightarrow>
     (if action = ''view'' then level \<in> {''view'', ''edit'', ''delete'', ''admin''}
      else if action = ''edit'' then level \<in> {''edit'', ''admin''}
      else if action = ''delete'' then level \<in> {''delete'', ''admin''}
      else level = ''admin'')"

definition allowsRow :: "'row sqlite \<Rightarrow> 'row world \<Rightarrow> string \<Rightarrow> string \<Rightarrow> string \<Rightarrow> 'row \<Rightarrow> permissionRow \<Rightarrow> bool" where
  "allowsRow sq w table email action row p \<longleftrightarrow> pm_type p = table \<and> pm_grantType p = ''user'' \<and> pm_grantee p = email \<and>
     permits (pm_level p) action \<and> permLive sq w p \<and> colIs sq table ''id'' row (ArgText (pm_resource p))"

lemma acl_holds:
  "holds sq w table (aclFilter table email action) row \<longleftrightarrow>
     email \<noteq> [] \<and> (\<exists>p \<in> set (w_perms w). allowsRow sq w table email action row p)"
  by (auto simp: aclFilter_def list_ex_iff permits_def allowsRow_def)

lemma upsert_set:
  "p \<in> set (upsertShare n ps) \<Longrightarrow> \<not> shareKey (pm_type n) (pm_resource n) (pm_grantee n) p \<Longrightarrow> pm_grantType n = ''user'' \<Longrightarrow> p \<in> set ps"
  by (auto simp: upsertShare_def shareKey_def split: if_splits)

lemma upsert_keeps: "p \<in> set ps \<Longrightarrow> \<not> shareKey (pm_type n) (pm_resource n) (pm_grantee n) p \<Longrightarrow> p \<in> set (upsertShare n ps)"
  by (auto simp: upsertShare_def)

lemma upsert_new: "pm_grantType n = ''user'' \<Longrightarrow> \<exists>p \<in> set (upsertShare n ps). shareKey (pm_type n) (pm_resource n) (pm_grantee n) p"
proof (cases "list_ex (shareKey (pm_type n) (pm_resource n) (pm_grantee n)) ps")
  case True
  then obtain p where p: "p \<in> set ps" "shareKey (pm_type n) (pm_resource n) (pm_grantee n) p" by (auto simp: list_ex_iff)
  let ?p = "p\<lparr>pm_level := pm_level n, pm_by := pm_by n, pm_at := pm_at n, pm_expires := pm_expires n\<rparr>"
  have "?p \<in> set (upsertShare n ps)" "shareKey (pm_type n) (pm_resource n) (pm_grantee n) ?p"
    using p True by (auto simp: upsertShare_def) (simp add: shareKey_def)
  then show ?thesis by blast
qed (auto simp: upsertShare_def shareKey_def)

lemma upsert_level:
  "p \<in> set (upsertShare n ps) \<Longrightarrow> shareKey (pm_type n) (pm_resource n) (pm_grantee n) p \<Longrightarrow>
    pm_level p = pm_level n \<and> pm_expires p = pm_expires n"
  by (auto simp: upsertShare_def list_ex_iff shareKey_def split: if_splits)

lemma shareGuard_answers: "shareGuard sv q act db \<noteq> Inl (Shared e l)" "shareGuard sv q act db \<noteq> Inl ShareRevoked"
  by (simp_all add: shareGuard_def split: option.split)

lemma handleShare_Shared:
  assumes "handleShare sv q db = (Shared e level, db')"
  obtains p email ex where "shareGuard sv q ''write'' db = Inr p" "sh_body q = Some (email, level, ex)"
    "resolveShareRecipient (sd_accounts db) email = (e, False)" "db' = storeShare (newShare db q p e level ex) db"
proof (cases "shareGuard sv q ''write'' db")
  case (Inl a)
  with assms shareGuard_answers(1) [of sv q "''write''" db e level] show ?thesis by (simp add: handleShare_def)
next
  case (Inr p)
  note run = assms [unfolded handleShare_def, unfolded Inr, simplified]
  show ?thesis
  proof (cases "sh_body q")
    case (Some b)
    obtain email perm ex where b: "b = (email, perm, ex)" by (metis prod_cases3)
    obtain r am where r: "resolveShareRecipient (sd_accounts db) email = (r, am)" by (metis surj_pair)
    have "r = e" "perm = level" "\<not> am" "db' = storeShare (newShare db q p r perm ex) db"
      using run by (auto simp: Some b r split: if_splits)
    with Inr Some b r show ?thesis by (intro that [of p email ex]) simp_all
  qed (use run in simp)
qed

lemma storeShare_world:
  "sd_world (storeShare n db) = (sd_world db)\<lparr>w_perms := upsertShare n (w_perms (sd_world db))\<rparr>"
  by (simp add: storeShare_def Let_def setPerms_def)

lemma upserted_allows:
  assumes "pm_grantType n = ''user''" "\<And>j. colIs sq (pm_type n) ''id'' row (ArgText j) \<longleftrightarrow> j = pm_resource n"
  shows "(\<exists>y \<in> set (upsertShare n ps). allowsRow sq (w\<lparr>w_perms := qs\<rparr>) (pm_type n) (pm_grantee n) action row y) \<longleftrightarrow>
    permits (pm_level n) action \<and> permLive sq w n"
proof -
  have only: "y \<in> set (upsertShare n ps) \<Longrightarrow> shareKey (pm_type n) (pm_resource n) (pm_grantee n) y \<Longrightarrow>
      pm_level y = pm_level n \<and> pm_expires y = pm_expires n" for y
    using upsert_level [of y n] assms(1) by simp
  have live: "permLive sq (w\<lparr>w_perms := qs\<rparr>) y = permLive sq w n" if "pm_expires y = pm_expires n" for y
    using that by (simp add: permLive_def split: option.split)
  have keyed: "allowsRow sq (w\<lparr>w_perms := qs\<rparr>) (pm_type n) (pm_grantee n) action row y \<longleftrightarrow>
      shareKey (pm_type n) (pm_resource n) (pm_grantee n) y \<and> permits (pm_level n) action \<and> permLive sq w n"
    if "y \<in> set (upsertShare n ps)" for y
  proof (cases "shareKey (pm_type n) (pm_resource n) (pm_grantee n) y")
    case True
    with only [OF that] live show ?thesis using assms(2) by (simp add: allowsRow_def shareKey_def)
  qed (use assms(2) in \<open>auto simp: allowsRow_def shareKey_def\<close>)
  from upsert_new [OF assms(1), of ps] keyed show ?thesis by blast
qed

lemma upserted_others:
  assumes "table \<noteq> pm_type n \<or> e \<noteq> pm_grantee n" "pm_grantType n = ''user''"
  shows "holds sq (w\<lparr>w_perms := upsertShare n (w_perms w)\<rparr>) table (aclFilter table e action) r =
    holds sq w table (aclFilter table e action) r"
proof -
  let ?w = "w\<lparr>w_perms := upsertShare n (w_perms w)\<rparr>"
  have "x \<in> set (upsertShare n (w_perms w)) \<longleftrightarrow> x \<in> set (w_perms w)"
    if "\<not> shareKey (pm_type n) (pm_resource n) (pm_grantee n) x" for x
    using upsert_set [of x n "w_perms w"] upsert_keeps [of x "w_perms w" n] that assms(2) by (auto simp: shareKey_def)
  moreover have "allowsRow sq v table e action r x \<Longrightarrow> \<not> shareKey (pm_type n) (pm_resource n) (pm_grantee n) x" for v x
    using assms(1) by (auto simp: allowsRow_def shareKey_def)
  moreover have "allowsRow sq ?w table e action r x = allowsRow sq w table e action r x" for x
    by (simp add: allowsRow_def permLive_def split: option.split)
  ultimately show ?thesis unfolding acl_holds by fastforce
qed


section \<open>Who may share\<close>

lemma find_member: "find P xs = Some x \<Longrightarrow> x \<in> set xs \<and> P x"
  by (auto simp: find_Some_iff)


section \<open>Revoking\<close>

lemma handleRevoke_Revoked:
  "handleRevokePermission sv q db = (ShareRevoked, db') \<Longrightarrow>
    db' = setPerms (filter (\<lambda>p. \<not> revokes sv q p) (w_perms (sd_world db))) db"
  using shareGuard_answers(2) [of sv q "''write''" db]
  by (auto simp: handleRevokePermission_def split: sum.splits if_splits)


section \<open>Recipients without an account\<close>

text \<open>A share to an address nobody has signed up with keeps the spelling of the request. Sign-up stores the
  normalized address, so a share spelled otherwise never takes effect for the account; and one spelled with
  outer spaces cannot be revoked by address either.\<close>

theorem unregistered_spelling_lost:
  assumes "handleShare sv q db = (Shared e level, db')" "sh_body q = Some (email, level, ex)" "email \<noteq> normalizeEmail email"
    and "\<forall>u \<in> set (sd_accounts db). \<not> nocaseEq (u_email u) (normalizeEmail email)"
  shows "e = email \<and>
    holds (ss_sql sv) (sd_world db') (sh_table q) (aclFilter (sh_table q) (normalizeEmail email) action) row =
      holds (ss_sql sv) (sd_world db) (sh_table q) (aclFilter (sh_table q) (normalizeEmail email) action) row \<and>
    (length (trim_space email) < length email \<longrightarrow> sh_email q' \<noteq> [] \<longrightarrow> trim_space (sh_email q') = trim_space email \<longrightarrow>
      (\<forall>g. pm_grantee g = email \<longrightarrow> \<not> revokes sv q' g))"
proof -
  obtain p email' ex' where run: "sh_body q = Some (email', level, ex')"
    "resolveShareRecipient (sd_accounts db) email' = (e, False)" "db' = storeShare (newShare db q p e level ex') db"
    using handleShare_Shared [OF assms(1)] by blast
  have "filter (\<lambda>u. nocaseEq (u_email u) (normalizeEmail email)) (sd_accounts db) = []"
    using assms(4) by (simp add: filter_empty_conv)
  then have e: "e = email" using run assms(2) by (simp add: resolveShareRecipient_def)
  let ?n = "newShare db q p email level ex'"
  have n: "pm_type ?n = sh_table q" "pm_resource ?n = sh_id q" "pm_grantType ?n = ''user''" "pm_grantee ?n = email" by (simp_all add: newShare_def)
  have perms: "w_perms (sd_world db') = upsertShare ?n (w_perms (sd_world db))" "w_now (sd_world db') = w_now (sd_world db)"
    by (simp_all add: run(3) storeShare_world e)
  have "x \<in> set (w_perms (sd_world db')) \<longleftrightarrow> x \<in> set (w_perms (sd_world db))" if "pm_grantee x \<noteq> email" for x
    using upsert_set [of x ?n "w_perms (sd_world db)"] upsert_keeps [of x "w_perms (sd_world db)" ?n] that n by (auto simp: perms shareKey_def)
  moreover have "allowsRow (ss_sql sv) (sd_world db') (sh_table q) (normalizeEmail email) action row x =
      allowsRow (ss_sql sv) (sd_world db) (sh_table q) (normalizeEmail email) action row x" for x
    by (simp add: allowsRow_def permLive_def perms split: option.split)
  moreover have "allowsRow (ss_sql sv) w (sh_table q) (normalizeEmail email) action row x \<Longrightarrow> pm_grantee x \<noteq> email" for w x
    using assms(3) by (auto simp: allowsRow_def)
  ultimately have "holds (ss_sql sv) (sd_world db') (sh_table q) (aclFilter (sh_table q) (normalizeEmail email) action) row =
      holds (ss_sql sv) (sd_world db) (sh_table q) (aclFilter (sh_table q) (normalizeEmail email) action) row"
    unfolding acl_holds by blast
  moreover have "\<not> revokes sv q' g" if "length (trim_space email) < length email" "sh_email q' \<noteq> []" "trim_space (sh_email q') = trim_space email"
      "pm_grantee g = email" for g
    using that by (auto simp: revokes_def nocaseEq_def dest: arg_cong [where f = length])
  ultimately show ?thesis using e by blast
qed

section \<open>Witnesses\<close>

definition exShare :: "(string \<Rightarrow> sqlArg) shareServer" where
  "exShare = \<lparr>ss_sql = exSqlite, ss_float = (\<lambda>_. None), ss_tenant = (\<lambda>_. ''7''), ss_owner = (\<lambda>_. Some 3),
     ss_ledgerId = (\<lambda>_ _. False), ss_app = exApp None\<rparr>"

definition exLedger :: "(string \<Rightarrow> sqlArg) shareDB" where
  "exLedger = \<lparr>sd_world = exOwn, sd_accounts = [], sd_seq = 0\<rparr>"

definition exAskShare :: "string \<Rightarrow> shareRequest" where
  "exAskShare email = \<lparr>sh_table = ''notes'', sh_id = ''5'', sh_session = Some exMember, sh_csrf = True,
     sh_body = Some (email, ''view'', []), sh_permissionId = [], sh_email = email\<rparr>"

lemma ex_ask: "sh_table (exAskShare e) = ''notes''" "sh_id (exAskShare e) = ''5''" "sh_session (exAskShare e) = Some exMember"
  "sh_csrf (exAskShare e)" "sh_body (exAskShare e) = Some (e, ''view'', [])" "sh_email (exAskShare e) = e"
  by (simp_all add: exAskShare_def)

lemma ex_row_any: "w_rows w = (\<lambda>_. [exRow]) \<Longrightarrow>
    canAccessRowScoped exSqlite (\<lambda>_. None) w (exApp None) ''notes'' ''5'' (Some exMember) act"
  by (simp add: canAccessRowScoped_def ex_scope_any ex_table rowIDCanonical_def exSqlite_def exRow_def)

lemma ex_guard:
  assumes "w_rows (sd_world db) = (\<lambda>_. [exRow])"
  shows "shareGuard exShare (exAskShare e) ''write'' db = Inr exMember"
proof -
  have own: "ownsRow exShare (sd_world db) ''notes'' ''5'' exMember"
    using ex_columns(2) by (simp add: ownsRow_def exShare_def assms exSqlite_def exRow_def ex_session hasUserColumn_def)
  have "rowIDCanonical (\<lambda>_. None) (exApp None) ''notes'' ''5''" by (simp add: rowIDCanonical_def)
  with own ex_row_any [OF assms] have "canShareResource exShare (sd_world db) ''notes'' ''5'' (Some exMember)"
    by (simp add: canShareResource_def ex_session SessionCanAccessTable_def ex_table ex_mode ex_no_scope ex_not_gated exShare_def)
  then show ?thesis by (simp add: shareGuard_def ex_ask ex_no_scope)
qed

lemma ex_shared: "normalizeEmail e \<noteq> [] \<Longrightarrow>
    handleShare exShare (exAskShare e) exLedger = (Shared e ''view'', storeShare (newShare exLedger (exAskShare e) exMember e ''view'' []) exLedger)"
  using ex_guard [of exLedger e]
  by (simp add: handleShare_def exLedger_def exOwn_def ex_ask permissionLevel_def resolveShareRecipient_def)

lemma ex_spelled: "colIs exSqlite t ''id'' exRow (ArgText j) \<longleftrightarrow> j = ''5''"
  by (auto simp: exSqlite_def exRow_def)

lemma ex_bob: "normalizeEmail ''bob@x.org'' = ''bob@x.org''" "normalizeEmail '' Bob@x.org'' = ''bob@x.org''"
  "trim_space ''bob@x.org'' = ''bob@x.org''" "trim_space '' Bob@x.org'' = ''Bob@x.org''"
  by (simp_all add: normalizeEmail_def go_eval)



definition exGranted :: "(string \<Rightarrow> sqlArg) shareDB" where
  "exGranted = \<lparr>sd_world = exOwn\<lparr>w_perms := [\<lparr>pm_id = 1, pm_type = ''notes'', pm_resource = ''5'', pm_grantType = ''user'',
     pm_grantee = ''bob@x.org'', pm_level = ''edit'', pm_by = 3, pm_at = 0, pm_expires = None\<rparr>]\<rparr>, sd_accounts = [], sd_seq = 1\<rparr>"


theorem unregistered_spelling_lost_witness:
  "\<not> holds exSqlite (sd_world (storeShare (newShare exLedger (exAskShare '' Bob@x.org'') exMember '' Bob@x.org'' ''view'' []) exLedger))
     ''notes'' (aclFilter ''notes'' ''bob@x.org'' ''view'') exRow"
proof -
  have "normalizeEmail '' Bob@x.org'' \<noteq> []" by (simp add: ex_bob)
  from unregistered_spelling_lost [OF ex_shared [OF this] ex_ask(5), where action = "''view''" and row = exRow]
  have "holds exSqlite (sd_world (storeShare (newShare exLedger (exAskShare '' Bob@x.org'') exMember '' Bob@x.org'' ''view'' []) exLedger))
      ''notes'' (aclFilter ''notes'' ''bob@x.org'' ''view'') exRow =
    holds exSqlite (sd_world exLedger) ''notes'' (aclFilter ''notes'' ''bob@x.org'' ''view'') exRow"
    by (simp add: ex_ask(1) ex_bob) (simp add: exShare_def exLedger_def)
  then show ?thesis by (simp add: acl_holds) (simp add: exLedger_def exOwn_def exWorld_def)
qed

end
