(* ===== verification/Go_Strconv.thy ===== *)
theory Go_Strconv
  imports Go_Base Go_Time
begin

text \<open>
  \<open>strconv.Atoi\<close> on a 64-bit platform and \<open>time.ParseDuration\<close>. A duration is a number of nanoseconds in
  a signed 64-bit integer. The fraction of a duration goes through a float in the library: \<open>fracNs\<close> is
  that product, given the digits kept, the power of ten of their number and the unit.
\<close>

section \<open>Atoi\<close>

definition atoi :: "string \<Rightarrow> int option" where
  "atoi s =
     (let neg = prefix ''-'' s; ds = (if neg \<or> prefix ''+'' s then tl s else s) in
      if ds = [] \<or> \<not> list_all is_digit ds then None
      else let n = (if neg then - number ds else number ds) in
        if n < - (2 ^ 63) \<or> 2 ^ 63 \<le> n then None else Some n)"

lemma number_append: "number (a @ [c]) = 10 * number a + digitVal c"
  by (simp add: number_def)

lemma number_nonneg: "list_all is_digit ds \<Longrightarrow> 0 \<le> number ds"
proof (induction ds rule: rev_induct)
  case (snoc c ds)
  then show ?case by (simp add: number_append digitVal_def is_digit_def)
qed (simp add: number_def)

lemma atoi_range: "atoi s = Some n \<Longrightarrow> - (2 ^ 63) \<le> n \<and> n < 2 ^ 63"
  by (simp add: atoi_def Let_def split: if_splits)

lemma atoi_no_sep:
  assumes "atoi s = Some n" "c \<in> set s" "\<not> is_digit c"
  shows "s \<noteq> [] \<and> (hd s = CHR ''-'' \<or> hd s = CHR ''+'') \<and> c = hd s"
proof (cases s)
  case (Cons a r)
  have "a \<noteq> CHR ''-'' \<Longrightarrow> a \<noteq> CHR ''+'' \<Longrightarrow> list_all is_digit (a # r)" "list_all is_digit r"
    using assms(1) Cons by (auto simp: atoi_def Let_def split: if_splits)
  then show ?thesis using assms(2,3) Cons by (auto simp: list_all_iff)
qed (use assms in simp)

section \<open>Durations\<close>

text \<open>\<open>leadingInt\<close>: the digits ahead, refused when they pass \<open>2 ^ 63\<close>; \<open>leadingFraction\<close> drops digits instead.\<close>

fun leadingInt :: "string \<Rightarrow> int \<Rightarrow> (int \<times> string) option" where
  "leadingInt [] x = Some (x, [])"
| "leadingInt (c # s) x =
     (if \<not> is_digit c then Some (x, c # s)
      else if 2 ^ 63 div 10 < x then None
      else let y = x * 10 + digitVal c in if 2 ^ 63 < y then None else leadingInt s y)"

fun leadingFraction :: "string \<Rightarrow> int \<Rightarrow> nat \<Rightarrow> bool \<Rightarrow> int \<times> nat \<times> string" where
  "leadingFraction [] x scale over = (x, scale, [])"
| "leadingFraction (c # s) x scale over =
     (if \<not> is_digit c then (x, scale, c # s)
      else if over \<or> (2 ^ 63 - 1) div 10 < x then leadingFraction s x scale True
      else let y = x * 10 + digitVal c in
        if 2 ^ 63 < y then leadingFraction s x scale True else leadingFraction s y (Suc scale) False)"

definition microSigns :: "string list" where
  "microSigns = [[CHR 0xC2, CHR 0xB5, CHR ''s''], [CHR 0xCE, CHR 0xBC, CHR ''s'']]"

definition unitNs :: "string \<Rightarrow> int option" where
  "unitNs u =
     (if u = ''ns'' then Some 1
      else if u = ''us'' \<or> u \<in> set microSigns then Some 1000
      else if u = ''ms'' then Some 1000000
      else if u = ''s'' then Some nsPerSecond
      else if u = ''m'' then Some (60 * nsPerSecond)
      else if u = ''h'' then Some nsPerHour
      else None)"

definition unitByte :: "char \<Rightarrow> bool" where
  "unitByte c \<longleftrightarrow> c \<noteq> CHR ''.'' \<and> \<not> is_digit c"

lemma leadingInt_shorter: "leadingInt s x = Some (y, r) \<Longrightarrow> length r \<le> length s"
  by (induction s x rule: leadingInt.induct) (force simp: Let_def split: if_splits)+

lemma leadingFraction_shorter: "leadingFraction s x k b = (y, n, r) \<Longrightarrow> length r \<le> length s"
  by (induction s x k b rule: leadingFraction.induct) (force simp: Let_def split: if_splits)+

text \<open>One number with its unit after another; \<open>d\<close> is the sum so far.\<close>

definition durationPart :: "(int \<Rightarrow> nat \<Rightarrow> int \<Rightarrow> int) \<Rightarrow> string \<Rightarrow> int \<Rightarrow> (int \<times> string) option" where
  "durationPart fracNs s d =
     (if \<not> (s \<noteq> [] \<and> (hd s = CHR ''.'' \<or> is_digit (hd s))) then None
      else case leadingInt s 0 of None \<Rightarrow> None
      | Some (v, s1) \<Rightarrow>
        let pre = s1 \<noteq> s;
            (f, scale, s2) = (if prefix ''.'' s1 then leadingFraction (tl s1) 0 0 False else (0, 0, s1));
            post = prefix ''.'' s1 \<and> s2 \<noteq> tl s1
        in if \<not> pre \<and> \<not> post then None
           else let u = takeWhile unitByte s2; s3 = dropWhile unitByte s2 in
             if u = [] then None
             else case unitNs u of None \<Rightarrow> None
             | Some unit \<Rightarrow>
               if 2 ^ 63 div unit < v then None
               else let v1 = v * unit; v2 = (if 0 < f then v1 + fracNs f scale unit else v1) in
                 if 2 ^ 63 < v2 then None
                 else if 2 ^ 63 < d + v2 then None
                 else Some (d + v2, s3))"

lemma durationPart_shorter: "durationPart fr s d = Some (d', r) \<Longrightarrow> length r < length s"
proof -
  assume run: "durationPart fr s d = Some (d', r)"
  then obtain v s1 where a: "leadingInt s 0 = Some (v, s1)"
    by (auto simp: durationPart_def split: if_splits option.splits)
  obtain f k s2 where b: "(if prefix ''.'' s1 then leadingFraction (tl s1) 0 0 False else (0, 0, s1)) = (f, k, s2)"
    by (metis prod_cases3)
  have le: "length s2 \<le> length s"
    using leadingInt_shorter [OF a] b leadingFraction_shorter [of "tl s1" 0 0 False f k s2] by (auto split: if_splits)
  have "r = dropWhile unitByte s2" "takeWhile unitByte s2 \<noteq> []"
    using run by (auto simp: durationPart_def a b Let_def split: if_splits option.splits)
  moreover have "length s2 = length (takeWhile unitByte s2) + length (dropWhile unitByte s2)"
    by (metis length_append takeWhile_dropWhile_id)
  ultimately show ?thesis using le by (cases "takeWhile unitByte s2") auto
qed

function durationParts :: "(int \<Rightarrow> nat \<Rightarrow> int \<Rightarrow> int) \<Rightarrow> string \<Rightarrow> int \<Rightarrow> int option" where
  "durationParts fr s d =
     (if s = [] then Some d
      else case durationPart fr s d of None \<Rightarrow> None | Some (d', r) \<Rightarrow> durationParts fr r d')"
  by pat_completeness auto
termination
  by (relation "measure (\<lambda>(fr, s, d). length s)") (auto dest: durationPart_shorter)

declare durationParts.simps [simp del]

definition parseDuration :: "(int \<Rightarrow> nat \<Rightarrow> int \<Rightarrow> int) \<Rightarrow> string \<Rightarrow> int option" where
  "parseDuration fr s0 =
     (let neg = prefix ''-'' s0; s = (if neg \<or> prefix ''+'' s0 then tl s0 else s0) in
      if s = ''0'' then Some 0
      else if s = [] then None
      else case durationParts fr s 0 of None \<Rightarrow> None
      | Some d \<Rightarrow> if neg then Some (- d) else if 2 ^ 63 - 1 < d then None else Some d)"

lemma parseDuration_minutes: "parseDuration fr ''15m'' = Some (15 * 60 * nsPerSecond)"
  by (simp add: parseDuration_def durationParts.simps durationPart_def is_digit_def byte_Char digitVal_def unitByte_def unitNs_def
      nsPerSecond_def Let_def microSigns_def)

end
