(* ===== verification/Go_Scan.thy ===== *)
theory Go_Scan
  imports Go_Strconv
begin

text \<open>
  The library functions the token checks call: \<open>hex.EncodeToString\<close>, the verb \<^verbatim>\<open>%d\<close> of \<open>Sprintf\<close> and of
  \<open>Sscanf\<close>, and \<open>SplitN\<close> with three parts. \<open>Sscanf\<close> reads a number at the front of its text and says nothing
  of what follows it.
\<close>

section \<open>Hexadecimal text\<close>

definition hexChars :: string where "hexChars = ''0123456789abcdef''"

definition hexEncode :: "string \<Rightarrow> string" where
  "hexEncode bs = concat (map (\<lambda>c. [hexChars ! (byte c div 16), hexChars ! (byte c mod 16)]) bs)"

lemma byte_bound: "byte c < 256"
  by (cases c) (simp add: byte_Char)

lemma hexChars_set: "set hexChars = set digitChars \<union> set ''abcdef''"
  by (auto simp: hexChars_def digitChars_def)

lemma hexEncode_set: "set (hexEncode bs) \<subseteq> set hexChars"
proof -
  have "n < 16 \<Longrightarrow> hexChars ! n \<in> set hexChars" for n
    by (rule nth_mem) (simp add: hexChars_def)
  moreover have "byte c div 16 < 16" for c using byte_bound [of c] by (simp add: less_mult_imp_div_less)
  ultimately show ?thesis by (auto simp: hexEncode_def)
qed

lemma hexChars_digit: "c \<in> set hexChars \<Longrightarrow> c \<noteq> CHR ''|'' \<and> c \<noteq> CHR ''.'' \<and> byte c \<noteq> 0 \<and> byte c \<noteq> 10"
  by (auto simp: hexChars_def byte_def)

lemma hexEncode_Nil [simp]: "hexEncode bs = [] \<longleftrightarrow> bs = []"
  by (cases bs) (simp_all add: hexEncode_def)

lemma hexEncode_inj: "hexEncode bs = hexEncode cs \<Longrightarrow> bs = cs"
proof (induction bs arbitrary: cs)
  case (Cons b bs)
  obtain c cs' where cs: "cs = c # cs'" using Cons.prems by (cases cs) (simp_all add: hexEncode_def)
  have nth: "i < 16 \<Longrightarrow> j < 16 \<Longrightarrow> hexChars ! i = hexChars ! j \<longleftrightarrow> i = j" for i j
    by (rule nth_eq_iff_index_eq) (simp_all add: hexChars_def)
  have small: "byte x div 16 < 16" for x using byte_bound [of x] by (simp add: less_mult_imp_div_less)
  have "byte b div 16 = byte c div 16 \<and> byte b mod 16 = byte c mod 16" and tl: "hexEncode bs = hexEncode cs'"
    using Cons.prems nth small by (simp_all add: cs hexEncode_def)
  then have "byte b = byte c" by (metis div_mult_mod_eq)
  then show ?case using Cons.IH [OF tl] by (simp add: cs byte_eq_iff)
qed (metis hexEncode_Nil)

section \<open>Decimal numbers\<close>

definition formatInt :: "int \<Rightarrow> string" where
  "formatInt n = (if n < 0 then CHR ''-'' # decimal (nat (- n)) else decimal (nat n))"

lemma digitChars_is_digit: "c \<in> set digitChars \<Longrightarrow> is_digit c"
  by (auto simp: digitChars_def is_digit_def byte_def)

lemma decimal_all_digits: "list_all is_digit (decimal n)"
  using decimal_digits [of n] digitChars_is_digit by (auto simp: list_all_iff)

lemma decimal_nonempty [simp]: "decimal n \<noteq> []"
  by (subst decimal.simps) simp

lemma digitVal_nth: "n < 10 \<Longrightarrow> digitVal (digitChars ! n) = int n"
proof -
  assume "n < 10"
  then have "n = 0 \<or> n = 1 \<or> n = 2 \<or> n = 3 \<or> n = 4 \<or> n = 5 \<or> n = 6 \<or> n = 7 \<or> n = 8 \<or> n = 9" by presburger
  then show ?thesis by (elim disjE) (simp_all add: digitChars_def digitVal_def byte_def)
qed

lemma number_decimal [simp]: "number (decimal n) = int n"
proof (induction n rule: decimal.induct)
  case (1 n)
  show ?case
  proof (cases "n < 10")
    case True
    then show ?thesis by (subst decimal.simps) (simp add: number_def digitVal_nth)
  next
    case False
    then show ?thesis
      by (subst decimal.simps) (simp add: 1 number_append digitVal_nth zdiv_int zmod_int)
  qed
qed

lemma decimal_no_prefix:
  assumes "\<not> is_digit c"
  shows "\<not> prefix [c] (decimal n)"
proof
  assume "prefix [c] (decimal n)"
  then obtain r where "decimal n = c # r" by (auto elim: prefixE)
  with decimal_all_digits [of n] assms show False by simp
qed

lemma sign_not_digit: "\<not> is_digit CHR ''-''" "\<not> is_digit CHR ''+''"
  by (simp_all add: is_digit_def byte_def)

lemmas decimal_unsigned = decimal_no_prefix [OF sign_not_digit(1)] decimal_no_prefix [OF sign_not_digit(2)]

lemma prefix_formatInt: "prefix ''-'' (formatInt k) \<longleftrightarrow> k < 0" "\<not> prefix ''+'' (formatInt k)"
  using decimal_unsigned by (auto simp: formatInt_def)

lemma formatInt_tail: "(if k < 0 \<or> False then tl (formatInt k) else formatInt k) = decimal (nat \<bar>k\<bar>)"
  by (simp add: formatInt_def)

lemma atoi_formatInt:
  assumes "- (2 ^ 63) \<le> n" "n < 2 ^ 63"
  shows "atoi (formatInt n) = Some n"
proof -
  let ?v = "if n < 0 then - int (nat \<bar>n\<bar>) else int (nat \<bar>n\<bar>)"
  have plus: "prefix ''+'' (formatInt n) \<longleftrightarrow> False" using prefix_formatInt(2) by simp
  have "atoi (formatInt n) = (if ?v < - (2 ^ 63) \<or> 2 ^ 63 \<le> ?v then None else Some ?v)"
    unfolding atoi_def Let_def prefix_formatInt(1) plus formatInt_tail
    by (simp only: decimal_nonempty decimal_all_digits number_decimal simp_thms if_False)
  moreover have "?v = n" by simp
  ultimately show ?thesis using assms by simp
qed

lemma formatInt_inj:
  assumes "formatInt m = formatInt n"
  shows "m = n"
proof -
  have s: "m < 0 \<longleftrightarrow> n < 0" using prefix_formatInt(1) [of m] prefix_formatInt(1) [of n] assms by simp
  then have "decimal (nat \<bar>m\<bar>) = decimal (nat \<bar>n\<bar>)"
    using formatInt_tail [of m, unfolded assms s] formatInt_tail [of n] by metis
  from arg_cong [OF this, where f = number] have "\<bar>m\<bar> = \<bar>n\<bar>" unfolding number_decimal by simp
  with s show ?thesis by linarith
qed

section \<open>Sscanf with a number\<close>

text \<open>\<open>SkipSpace\<close>: a newline in the text is an error, any other white space is passed over.\<close>

function scanSkip :: "string \<Rightarrow> string option" where
  "scanSkip s =
     (if s = [] then Some []
      else if hd s = CHR ''\<newline>'' then None
      else if space_len wide_spaces s = 0 then Some s
      else scanSkip (drop (space_len wide_spaces s) s))"
  by pat_completeness auto
termination by (relation "measure length") auto

declare scanSkip.simps [simp del]

definition sscanfInt :: "string \<Rightarrow> int option" where
  "sscanfInt s =
     (case scanSkip s of None \<Rightarrow> None
      | Some r \<Rightarrow>
        let neg = prefix ''-'' r; ds = takeWhile is_digit (if neg \<or> prefix ''+'' r then tl r else r);
            n = (if neg then - number ds else number ds) in
        if ds = [] \<or> n < - (2 ^ 63) \<or> 2 ^ 63 \<le> n then None else Some n)"

lemma digit_not_space: "is_digit c \<Longrightarrow> space_len wide_spaces (c # r) = 0"
  unfolding space_len_0
  by (auto simp: is_digit_def ascii_space_def wide_spaces_def byte_def)

lemma takeWhile_digits:
  assumes "list_all is_digit ds" and "r = [] \<or> \<not> is_digit (hd r)"
  shows "takeWhile is_digit (ds @ r) = ds"
  using assms by (cases r) (auto simp: list_all_iff takeWhile_append)

lemma sscanfInt_digits:
  assumes "list_all is_digit ds" "ds \<noteq> []" "number ds < 2 ^ 63" and r: "r = [] \<or> \<not> is_digit (hd r)"
  shows "sscanfInt (ds @ r) = Some (number ds)"
proof -
  obtain c ds' where ds: "ds = c # ds'" using assms(2) by (cases ds) auto
  have c: "is_digit c" using assms(1) ds by simp
  then have ne: "c \<noteq> CHR ''\<newline>''" "c \<noteq> CHR ''-''" "c \<noteq> CHR ''+''" by (auto simp: is_digit_def byte_def)
  have "scanSkip (ds @ r) = Some (ds @ r)"
    by (subst scanSkip.simps) (use ds ne c digit_not_space [OF c] in simp)
  moreover have "takeWhile is_digit (ds @ r) = ds" by (rule takeWhile_digits [OF assms(1) r])
  moreover have "0 \<le> number ds" by (rule number_nonneg [OF assms(1)])
  ultimately show ?thesis using assms(3) ne ds by (simp add: sscanfInt_def Let_def)
qed

lemma sscanfInt_formatInt:
  assumes "0 \<le> n" "n < 2 ^ 63" "r = [] \<or> \<not> is_digit (hd r)"
  shows "sscanfInt (formatInt n @ r) = Some n"
  using sscanfInt_digits [OF decimal_all_digits decimal_nonempty, of "nat n" r] assms
  by (simp add: formatInt_def)

section \<open>SplitN with three parts\<close>

definition splitN3 :: "char \<Rightarrow> string \<Rightarrow> (string \<times> string \<times> string) option" where
  "splitN3 d s = (case cut_at d s of None \<Rightarrow> None
     | Some (a, r) \<Rightarrow> (case cut_at d r of None \<Rightarrow> None | Some (b, c) \<Rightarrow> Some (a, b, c)))"

lemma splitN3_Some: "splitN3 d s = Some (a, b, c) \<longleftrightarrow> s = a @ d # b @ d # c \<and> d \<notin> set a \<and> d \<notin> set b"
proof
  show "splitN3 d s = Some (a, b, c) \<Longrightarrow> s = a @ d # b @ d # c \<and> d \<notin> set a \<and> d \<notin> set b"
    by (auto simp: splitN3_def cut_at_Some split: option.splits)
  assume "s = a @ d # b @ d # c \<and> d \<notin> set a \<and> d \<notin> set b"
  then have "cut_at d s = Some (a, b @ d # c)" "cut_at d (b @ d # c) = Some (b, c)" by (simp_all add: cut_at_Some)
  then show "splitN3 d s = Some (a, b, c)" by (simp add: splitN3_def)
qed

lemma formatInt_no: "c \<noteq> CHR ''-'' \<Longrightarrow> \<not> is_digit c \<Longrightarrow> c \<notin> set (formatInt n)"
  using decimal_all_digits by (auto simp: formatInt_def list_all_iff)

section \<open>Form and query values\<close>

text \<open>\<open>Get\<close> of \<open>url.Values\<close>: the first value of a name, empty when there is none.\<close>

definition queryGet :: "(string \<times> string) list \<Rightarrow> string \<Rightarrow> string" where
  "queryGet q name = (case map_of q name of None \<Rightarrow> [] | Some v \<Rightarrow> v)"

section \<open>Cutting at a separator\<close>

lemma cut_unique: "a @ d # b = a' @ (d :: char) # b' \<Longrightarrow> d \<notin> set a \<Longrightarrow> d \<notin> set a' \<Longrightarrow> a = a' \<and> b = b'"
  using cut_at_Some [of d "a @ d # b" a b] cut_at_Some [of d "a @ d # b" a' b'] by simp

lemma cut_unique_last:
  assumes "a @ (d :: char) # b = a' @ d # b'" "d \<notin> set b" "d \<notin> set b'"
  shows "a = a' \<and> b = b'"
proof -
  have "rev b @ d # rev a = rev b' @ d # rev a'" using arg_cong [OF assms(1), of rev] by simp
  from cut_unique [OF this] assms(2,3) show ?thesis by simp
qed

end
