(* ===== verification/Csrf.thy ===== *)
theory Csrf
  imports Go_Scan
begin

text \<open>
  The request-forgery gate of \<^verbatim>\<open>auth_csrf.go\<close>, with the session cookie of \<^verbatim>\<open>auth_sessions.go\<close> and the scheme
  of \<^verbatim>\<open>platform_shims.go\<close>: minting a token, the origin gate, the check of a presented token, and the
  field injected into the forms of a page.

  \<open>mac secret text\<close> is HMAC-SHA256 and a parameter throughout, as is \<open>hostOf\<close>, the host of a text parsed by
  package \<^verbatim>\<open>url\<close> (\<open>None\<close> when it does not parse). The clock is in seconds. Nothing is assumed of \<open>mac\<close>: what
  is proved of the gate holds for every function in its place.
\<close>

section \<open>The request\<close>

record browserRequest =
  br_host :: string
  br_tls :: bool
  br_headers :: "(string \<times> string) list"
  br_cookies :: "(string \<times> string) list"
  br_csrfField :: string

definition headerGet :: "browserRequest \<Rightarrow> string \<Rightarrow> string" where
  "headerGet r name = (case map_of (br_headers r) name of None \<Rightarrow> [] | Some v \<Rightarrow> v)"

definition protoOf :: "browserRequest \<Rightarrow> string" where
  "protoOf r =
     (if br_tls r then ''https''
      else let v = headerGet r ''X-Forwarded-Proto'' in if v \<noteq> [] then v else ''http'')"

definition sessionCookieName :: string where "sessionCookieName = ''__Host-benmore_session''"

definition devSessionCookieName :: string where "devSessionCookieName = ''_benmore_session''"

definition sessionCookieNameFor :: "bool \<Rightarrow> string" where
  "sessionCookieNameFor secure = (if secure then sessionCookieName else devSessionCookieName)"

definition requestSessionCookie :: "browserRequest \<Rightarrow> string option" where
  "requestSessionCookie r =
     (case map_of (br_cookies r) sessionCookieName of
        Some v \<Rightarrow> if v \<noteq> [] then Some v
                  else if protoOf r \<noteq> ''https'' then map_of (br_cookies r) devSessionCookieName else None
      | None \<Rightarrow> if protoOf r \<noteq> ''https'' then map_of (br_cookies r) devSessionCookieName else None)"

definition isPersistentAPIToken :: "string \<Rightarrow> bool" where
  "isPersistentAPIToken tok \<longleftrightarrow> prefix ''bmr_'' tok \<or> prefix ''bma_'' tok"

definition authRawSessionID :: "browserRequest \<Rightarrow> string" where
  "authRawSessionID r =
     (let auth = headerGet r ''Authorization''; tok = trim_prefix auth ''Bearer '';
          bearer = (if prefix ''Bearer '' auth \<and> \<not> isPersistentAPIToken tok then tok else []) in
      case requestSessionCookie r of Some v \<Rightarrow> if v \<noteq> [] then v else bearer | None \<Rightarrow> bearer)"

definition isBearerAuth :: "browserRequest \<Rightarrow> bool" where
  "isBearerAuth r \<longleftrightarrow> prefix ''Bearer '' (headerGet r ''Authorization'') \<and>
     (case requestSessionCookie r of Some v \<Rightarrow> v = [] | None \<Rightarrow> True)"

section \<open>The origin gate\<close>

definition isSameOriginRequest :: "(string \<Rightarrow> string option) \<Rightarrow> browserRequest \<Rightarrow> bool" where
  "isSameOriginRequest hostOf r =
     (let origin = headerGet r ''Origin'' in
      if origin = [] then True
      else case hostOf origin of None \<Rightarrow> False | Some h \<Rightarrow> equal_fold h (br_host r))"

text \<open>Why a request was refused; \<open>None\<close> is a request that passes.\<close>

datatype csrfReason =
    Missing
  | Malformed
  | OriginNull
  | OriginMismatch
  | SecFetch string
  | HmacMismatch
  | TsUnparseable
  | ExpiredAge int

definition csrfOriginReason :: "(string \<Rightarrow> string option) \<Rightarrow> browserRequest \<Rightarrow> csrfReason option" where
  "csrfOriginReason hostOf r =
     (let origin = headerGet r ''Origin''; sfs = headerGet r ''Sec-Fetch-Site'' in
      if origin = ''null'' then (if sfs \<noteq> ''same-origin'' then Some OriginNull else None)
      else if origin \<noteq> [] then
        (case hostOf origin of
           None \<Rightarrow> Some OriginMismatch
         | Some h \<Rightarrow> if \<not> equal_fold h (br_host r) then Some OriginMismatch else None)
      else if sfs = ''cross-site'' \<or> sfs = ''same-site'' then Some (SecFetch sfs)
      else None)"

section \<open>Tokens\<close>

definition sidSeparator :: string where "sidSeparator = CHR 0x00 # ''sid'' @ [CHR 0x00]"

definition authCSRFSignWithSecret ::
    "(string \<Rightarrow> string \<Rightarrow> string) \<Rightarrow> string \<Rightarrow> string \<Rightarrow> string \<Rightarrow> string" where
  "authCSRFSignWithSecret mac payload sid secret =
     hexEncode (mac secret (payload @ (if sid \<noteq> [] then sidSeparator @ sid else [])))"

definition authMintCSRFTokenWithSecret ::
    "(string \<Rightarrow> string \<Rightarrow> string) \<Rightarrow> string \<Rightarrow> int \<Rightarrow> string \<Rightarrow> string \<Rightarrow> string" where
  "authMintCSRFTokenWithSecret mac rnd now sid secret =
     (let payload = hexEncode rnd @ ''|'' @ formatInt now in
      payload @ ''|'' @ authCSRFSignWithSecret mac payload sid secret)"

definition generateCSRFToken :: "(string \<Rightarrow> string \<Rightarrow> string) \<Rightarrow> string \<Rightarrow> string \<Rightarrow> int \<Rightarrow> string" where
  "generateCSRFToken mac secret rnd now = authMintCSRFTokenWithSecret mac rnd now [] secret"

definition csrfTokenReason ::
    "(string \<Rightarrow> string \<Rightarrow> string) \<Rightarrow> string \<Rightarrow> (string \<Rightarrow> string option) \<Rightarrow> int \<Rightarrow> browserRequest \<Rightarrow> string \<Rightarrow> csrfReason option" where
  "csrfTokenReason mac secret hostOf now r token =
     (if token = [] then Some Missing
      else case splitN3 CHR ''|'' token of
        None \<Rightarrow> Some Malformed
      | Some (nonce, tsStr, providedSig) \<Rightarrow>
        (case csrfOriginReason hostOf r of
           Some reason \<Rightarrow> Some reason
         | None \<Rightarrow>
           let payload = nonce @ ''|'' @ tsStr; sid = authRawSessionID r in
           if providedSig \<noteq> authCSRFSignWithSecret mac payload sid secret \<and>
              providedSig \<noteq> authCSRFSignWithSecret mac payload [] secret then Some HmacMismatch
           else case sscanfInt tsStr of
             None \<Rightarrow> Some TsUnparseable
           | Some ts \<Rightarrow>
             if ts = 0 then Some TsUnparseable
             else let age = wrap64 (now - ts) in
               if 86400 < age then Some (ExpiredAge age) else None))"

definition validateCSRFReason ::
    "(string \<Rightarrow> string \<Rightarrow> string) \<Rightarrow> string \<Rightarrow> (string \<Rightarrow> string option) \<Rightarrow> int \<Rightarrow> browserRequest \<Rightarrow> csrfReason option" where
  "validateCSRFReason mac secret hostOf now r =
     csrfTokenReason mac secret hostOf now r
       (if br_csrfField r = [] then headerGet r ''X-CSRF-Token'' else br_csrfField r)"

definition requireCSRF ::
    "(string \<Rightarrow> string \<Rightarrow> string) \<Rightarrow> string \<Rightarrow> (string \<Rightarrow> string option) \<Rightarrow> int \<Rightarrow> browserRequest \<Rightarrow> bool" where
  "requireCSRF mac secret hostOf now r \<longleftrightarrow>
     isBearerAuth r \<or> validateCSRFReason mac secret hostOf now r = None"

section \<open>The field injected into forms\<close>

definition csrfField :: "string \<Rightarrow> string" where
  "csrfField token = concat [''<input type='', [CHR 0x22], ''hidden'', [CHR 0x22], '' name='', [CHR 0x22], ''_csrf'',
     [CHR 0x22], '' value='', [CHR 0x22], token, [CHR 0x22], ''>'']"

text \<open>\<open>strings.Index\<close>.\<close>

fun strIndex :: "string \<Rightarrow> string \<Rightarrow> nat option" where
  "strIndex sub s =
     (if prefix sub s then Some 0
      else case s of [] \<Rightarrow> None | c # r \<Rightarrow> map_option Suc (strIndex sub r))"

declare strIndex.simps [simp del]

lemma strIndex_Some: "strIndex sub s = Some i \<Longrightarrow> i + length sub \<le> length s"
proof (induction s arbitrary: i)
  case Nil
  then show ?case by (subst (asm) strIndex.simps) (auto split: if_splits)
next
  case (Cons c r)
  from Cons.prems show ?case
    by (subst (asm) strIndex.simps) (auto dest: Cons.IH prefix_length_le split: if_splits)
qed

text \<open>
  The loop works on byte positions of the page and of its lower-case copy alike. \<open>None\<close> is the panic of a slice
  that starts behind the end of its text.
\<close>

function injectLoop :: "string \<Rightarrow> string \<Rightarrow> string \<Rightarrow> nat \<Rightarrow> string \<Rightarrow> string option" where
  "injectLoop field content lower i acc =
     (if length lower < i \<or> length content < i then None
      else case strIndex ''<form'' (drop i lower) of
        None \<Rightarrow> Some (acc @ drop i content)
      | Some idx \<Rightarrow>
        let pos = i + idx in
        if length content < pos then None
        else case strIndex ''>'' (drop pos content) of
          None \<Rightarrow> Some (acc @ drop i content)
        | Some closeIdx \<Rightarrow>
          let stop = pos + closeIdx + 1 in
          injectLoop field content lower stop (acc @ take (stop - i) (drop i content) @ field))"
  by pat_completeness auto
termination
  by (relation "measure (\<lambda>(f, content, lower, i, acc). Suc (length content) - i)") auto

declare injectLoop.simps [simp del]

definition InjectCSRF :: "string \<Rightarrow> string \<Rightarrow> string option" where
  "InjectCSRF token content = injectLoop (csrfField token) content (to_lower content) 0 []"


section \<open>What the token check decides\<close>

lemma csrfTokenReason_None:
  "csrfTokenReason mac secret hostOf now r token = None \<longleftrightarrow>
     csrfOriginReason hostOf r = None \<and>
     (\<exists>nonce tsStr sig ts. splitN3 CHR ''|'' token = Some (nonce, tsStr, sig) \<and>
        (sig = authCSRFSignWithSecret mac (nonce @ ''|'' @ tsStr) (authRawSessionID r) secret \<or>
         sig = authCSRFSignWithSecret mac (nonce @ ''|'' @ tsStr) [] secret) \<and>
        sscanfInt tsStr = Some ts \<and> ts \<noteq> 0 \<and> wrap64 (now - ts) \<le> 86400)" (is "?L \<longleftrightarrow> ?R")
proof (cases "splitN3 CHR ''|'' token")
  case None
  then show ?thesis by (simp add: csrfTokenReason_def)
next
  case (Some p)
  then have "token \<noteq> []" by (auto simp: splitN3_def)
  with Some show ?thesis
    by (cases p) (auto simp: csrfTokenReason_def Let_def not_less split: option.splits if_splits)
qed

lemma hex_no_bar: "CHR ''|'' \<notin> set (hexEncode bs)"
  using hexEncode_set hexChars_digit by blast

lemma wrap64_small: "- (2 ^ 63) \<le> x \<Longrightarrow> x < 2 ^ 63 \<Longrightarrow> wrap64 x = x"
  by (simp add: wrap64_def)

text \<open>A token is read back as its nonce, its time and its signature, whatever follows the digits of the time.\<close>

lemma token_parts:
  assumes "CHR ''|'' \<notin> set tail"
  shows "splitN3 CHR ''|'' (hexEncode rnd @ ''|'' @ (formatInt t @ tail) @ ''|'' @ sig) =
     Some (hexEncode rnd, formatInt t @ tail, sig)"
proof -
  have "CHR ''|'' \<notin> set (formatInt t)" by (rule formatInt_no) (simp_all add: is_digit_def byte_def)
  then show ?thesis using assms hex_no_bar by (simp add: splitN3_Some)
qed

lemma token_accepted:
  assumes "csrfOriginReason hostOf r = None" "CHR ''|'' \<notin> set tail" "tail = [] \<or> \<not> is_digit (hd tail)"
    and "sig = authCSRFSignWithSecret mac (hexEncode rnd @ ''|'' @ formatInt t @ tail) (authRawSessionID r) secret \<or>
         sig = authCSRFSignWithSecret mac (hexEncode rnd @ ''|'' @ formatInt t @ tail) [] secret"
    and t: "0 < t" "t \<le> now" "now < 2 ^ 63" "now \<le> t + 86400"
  shows "csrfTokenReason mac secret hostOf now r (hexEncode rnd @ ''|'' @ (formatInt t @ tail) @ ''|'' @ sig) = None"
proof -
  have "sscanfInt (formatInt t @ tail) = Some t" using sscanfInt_formatInt [of t tail] assms by simp
  moreover have "wrap64 (now - t) \<le> 86400" using t by (subst wrap64_small) auto
  ultimately show ?thesis
    unfolding csrfTokenReason_None token_parts [OF assms(2)] using assms(1,4) t(1) by auto
qed

lemma mint_accepted:
  assumes "csrfOriginReason hostOf r = None" "sid = authRawSessionID r \<or> sid = []"
    and "0 < t" "t \<le> now" "now < 2 ^ 63" "now \<le> t + 86400"
  shows "csrfTokenReason mac secret hostOf now r (authMintCSRFTokenWithSecret mac rnd t sid secret) = None"
  using token_accepted [of hostOf r "[]" _ mac rnd t secret now] assms
  by (auto simp: authMintCSRFTokenWithSecret_def Let_def)

text \<open>The token minted for a request's own session, or for no session, passes the check for a day on any request the origin gate lets through.\<close>

theorem csrf_mint_accepted:
  assumes "csrfOriginReason hostOf r = None" "sid = authRawSessionID r \<or> sid = []"
    and "0 < t" "t \<le> now" "now < 2 ^ 63" "now \<le> t + 86400"
  shows "csrfTokenReason mac secret hostOf now r (authMintCSRFTokenWithSecret mac rnd t sid secret) = None"
  using assms by (rule mint_accepted)

definition exBrowser :: browserRequest where
  "exBrowser = \<lparr>br_host = ''app.example'', br_tls = True,
     br_headers = [(''Origin'', ''https://app.example'')],
     br_cookies = [(sessionCookieName, ''51'')], br_csrfField = []\<rparr>"

definition exHostOf :: "string \<Rightarrow> string option" where
  "exHostOf s = (if prefix ''https://'' s then Some (drop 8 s) else None)"

lemma exBrowser_origin: "csrfOriginReason exHostOf exBrowser = None"
  by (simp add: csrfOriginReason_def exBrowser_def headerGet_def exHostOf_def Let_def equal_fold_def)

lemma exBrowser_sid: "authRawSessionID exBrowser = ''51''" "requestSessionCookie exBrowser = Some ''51''"
  by (simp_all add: authRawSessionID_def requestSessionCookie_def exBrowser_def Let_def)

theorem csrf_mint_accepted_witness:
  "csrfTokenReason (\<lambda>k t. k @ t) ''key'' exHostOf 1000 exBrowser
     (authMintCSRFTokenWithSecret (\<lambda>k t. k @ t) ''rnd'' 900 ''51'' ''key'') = None"
  by (rule csrf_mint_accepted) (simp_all add: exBrowser_origin exBrowser_sid)

text \<open>C39: A token bound to one session is a valid unbound token once the separator and that session's id are written behind its time, so the holder of a session can rewrite its own token into one that passes on every session.\<close>

theorem csrf_bound_token_replayed:
  assumes "csrfOriginReason hostOf r = None"
    and "a \<noteq> []" "CHR ''|'' \<notin> set a" "0 < t" "t \<le> now" "now < 2 ^ 63" "now \<le> t + 86400"
    and "authMintCSRFTokenWithSecret mac rnd t a secret = hexEncode rnd @ ''|'' @ formatInt t @ ''|'' @ sig"
  shows "csrfTokenReason mac secret hostOf now r
           (hexEncode rnd @ ''|'' @ (formatInt t @ sidSeparator @ a) @ ''|'' @ sig) = None"
proof (rule token_accepted)
  have "sig = authCSRFSignWithSecret mac (hexEncode rnd @ ''|'' @ formatInt t) a secret"
    using assms(8) by (simp add: authMintCSRFTokenWithSecret_def Let_def)
  then show "sig = authCSRFSignWithSecret mac (hexEncode rnd @ ''|'' @ formatInt t @ sidSeparator @ a) (authRawSessionID r) secret \<or>
      sig = authCSRFSignWithSecret mac (hexEncode rnd @ ''|'' @ formatInt t @ sidSeparator @ a) [] secret"
    using assms(2) by (simp add: authCSRFSignWithSecret_def)
  show "CHR ''|'' \<notin> set (sidSeparator @ a)" using assms(3) by (simp add: sidSeparator_def)
  show "sidSeparator @ a = [] \<or> \<not> is_digit (hd (sidSeparator @ a))"
    by (simp add: sidSeparator_def is_digit_def byte_def)
qed (use assms in auto)

theorem csrf_bound_token_replayed_witness:
  "authRawSessionID exBrowser = ''51'' \<and>
   csrfTokenReason (\<lambda>k t. k @ t) ''key'' exHostOf 1000 exBrowser
     (hexEncode ''rnd'' @ ''|'' @ (formatInt 900 @ sidSeparator @ ''77'') @ ''|'' @
        authCSRFSignWithSecret (\<lambda>k t. k @ t) (hexEncode ''rnd'' @ ''|'' @ formatInt 900) ''77'' ''key'') = None"
proof
  show "csrfTokenReason (\<lambda>k t. k @ t) ''key'' exHostOf 1000 exBrowser
     (hexEncode ''rnd'' @ ''|'' @ (formatInt 900 @ sidSeparator @ ''77'') @ ''|'' @
        authCSRFSignWithSecret (\<lambda>k t. k @ t) (hexEncode ''rnd'' @ ''|'' @ formatInt 900) ''77'' ''key'') = None"
    by (rule csrf_bound_token_replayed)
      (simp_all add: exBrowser_origin authMintCSRFTokenWithSecret_def Let_def)
qed (rule exBrowser_sid)

text \<open>C21: A mutation with a session cookie proceeds only when its origin is the app's own or undeclared, and its token carries a signature of the server over its nonce and time, for this session or for none, less than a day old.\<close>

theorem csrf_cookie_request_guarded:
  assumes "requireCSRF mac secret hostOf now r" "requestSessionCookie r = Some v" "v \<noteq> []"
  shows "(headerGet r ''Origin'' = [] \<and> headerGet r ''Sec-Fetch-Site'' \<notin> {''cross-site'', ''same-site''} \<or>
          headerGet r ''Origin'' = ''null'' \<and> headerGet r ''Sec-Fetch-Site'' = ''same-origin'' \<or>
          (\<exists>h. hostOf (headerGet r ''Origin'') = Some h \<and> equal_fold h (br_host r))) \<and>
     (\<exists>payload sig ts. payload @ ''|'' @ sig \<in> {br_csrfField r, headerGet r ''X-CSRF-Token''} \<and>
        sig \<in> {authCSRFSignWithSecret mac payload v secret, authCSRFSignWithSecret mac payload [] secret} \<and>
        (\<exists>nonce tsStr. payload = nonce @ ''|'' @ tsStr \<and> sscanfInt tsStr = Some ts) \<and>
        ts \<noteq> 0 \<and> wrap64 (now - ts) \<le> 86400)"
proof -
  have sid: "authRawSessionID r = v" using assms(2,3) by (simp add: authRawSessionID_def Let_def)
  define token where "token = (if br_csrfField r = [] then headerGet r ''X-CSRF-Token'' else br_csrfField r)"
  have "csrfTokenReason mac secret hostOf now r token = None"
    using assms by (simp add: requireCSRF_def isBearerAuth_def validateCSRFReason_def token_def)
  then obtain nonce tsStr sig ts where
    o: "csrfOriginReason hostOf r = None" and sp: "splitN3 CHR ''|'' token = Some (nonce, tsStr, sig)" and
    sig: "sig \<in> {authCSRFSignWithSecret mac (nonce @ ''|'' @ tsStr) v secret, authCSRFSignWithSecret mac (nonce @ ''|'' @ tsStr) [] secret}"
    and ts: "sscanfInt tsStr = Some ts" "ts \<noteq> 0" "wrap64 (now - ts) \<le> 86400"
    unfolding csrfTokenReason_None sid by blast
  from sp have tok: "(nonce @ ''|'' @ tsStr) @ ''|'' @ sig \<in> {br_csrfField r, headerGet r ''X-CSRF-Token''}"
    by (auto simp: splitN3_Some token_def split: if_splits)
  have org: "headerGet r ''Origin'' = [] \<and> headerGet r ''Sec-Fetch-Site'' \<notin> {''cross-site'', ''same-site''} \<or>
          headerGet r ''Origin'' = ''null'' \<and> headerGet r ''Sec-Fetch-Site'' = ''same-origin'' \<or>
          (\<exists>h. hostOf (headerGet r ''Origin'') = Some h \<and> equal_fold h (br_host r))"
    using o by (auto simp: csrfOriginReason_def Let_def split: if_splits option.splits)
  from org tok sig ts show ?thesis by blast
qed

definition exCsrfPost :: browserRequest where
  "exCsrfPost = exBrowser\<lparr>br_csrfField := authMintCSRFTokenWithSecret (\<lambda>k t. k @ t) ''rnd'' 900 ''51'' ''key''\<rparr>"

lemma exCsrfPost_fields:
  "headerGet exCsrfPost = headerGet exBrowser" "requestSessionCookie exCsrfPost = Some ''51''"
  "csrfOriginReason exHostOf exCsrfPost = None" "authRawSessionID exCsrfPost = ''51''"
  "br_csrfField exCsrfPost = authMintCSRFTokenWithSecret (\<lambda>k t. k @ t) ''rnd'' 900 ''51'' ''key''"
  by (simp_all add: exCsrfPost_def fun_eq_iff headerGet_def requestSessionCookie_def authRawSessionID_def
      csrfOriginReason_def exBrowser_def exHostOf_def Let_def equal_fold_def)

theorem csrf_cookie_request_guarded_witness:
  "\<exists>payload sig ts. payload @ ''|'' @ sig \<in> {br_csrfField exCsrfPost, headerGet exCsrfPost ''X-CSRF-Token''} \<and>
     sig \<in> {authCSRFSignWithSecret (\<lambda>k t. k @ t) payload ''51'' ''key'', authCSRFSignWithSecret (\<lambda>k t. k @ t) payload [] ''key''} \<and>
     (\<exists>nonce tsStr. payload = nonce @ ''|'' @ tsStr \<and> sscanfInt tsStr = Some ts) \<and> ts \<noteq> 0 \<and> wrap64 (1000 - ts) \<le> 86400"
proof -
  have "br_csrfField exCsrfPost \<noteq> []"
    unfolding exCsrfPost_fields by (simp add: authMintCSRFTokenWithSecret_def Let_def)
  then have "requireCSRF (\<lambda>k t. k @ t) ''key'' exHostOf 1000 exCsrfPost"
    using mint_accepted [of exHostOf exCsrfPost "''51''" 900 1000 "\<lambda>k t. k @ t" "''key''" "''rnd''"]
    by (simp add: requireCSRF_def validateCSRFReason_def exCsrfPost_fields)
  from csrf_cookie_request_guarded [OF this, of "''51''"] show ?thesis by (simp add: exCsrfPost_fields)
qed

section \<open>Injected fields on ASCII pages\<close>

text \<open>One pass over the page's characters, without positions: behind every form tag comes the field.\<close>

function formScan :: "string \<Rightarrow> string \<Rightarrow> string" where
  "formScan field s =
     (case s of [] \<Rightarrow> []
      | c # r \<Rightarrow>
        if prefix ''<form'' (map lowc s)
        then (case cut_at CHR ''>'' r of None \<Rightarrow> s | Some (a, b) \<Rightarrow> c # a @ ''>'' @ field @ formScan field b)
        else c # formScan field r)"
  by pat_completeness auto
termination
  by (relation "measure (\<lambda>(f, s). length s)") (auto simp: cut_at_Some)

declare formScan.simps [simp del]

lemma strIndex_char: "strIndex [d] s = map_option (\<lambda>(a, b). length a) (cut_at d s)"
proof (induction s)
  case (Cons c r)
  then show ?case by (cases "cut_at d r") (subst strIndex.simps, auto)+
qed (simp add: strIndex.simps)

lemma formScan_None: "strIndex ''<form'' (map lowc s) = None \<Longrightarrow> formScan f s = s"
proof (induction s)
  case (Cons c r)
  from Cons.prems show ?case
    by (subst formScan.simps, subst (asm) strIndex.simps) (auto simp: Cons.IH split: if_splits)
qed (simp add: formScan.simps)

lemma formScan_Some:
  "strIndex ''<form'' (map lowc s) = Some i \<Longrightarrow>
     formScan f s = take i s @ formScan f (drop i s) \<and> prefix ''<form'' (map lowc (drop i s))"
proof (induction s arbitrary: i)
  case (Cons c r)
  show ?case
  proof (cases "prefix ''<form'' (map lowc (c # r))")
    case True
    then show ?thesis using Cons.prems by (subst (asm) strIndex.simps) (auto split: if_splits)
  next
    case False
    then obtain j where j: "i = Suc j" "strIndex ''<form'' (map lowc r) = Some j"
      using Cons.prems by (subst (asm) strIndex.simps) (auto split: if_splits)
    have "formScan f (c # r) = c # formScan f r" using False by (subst formScan.simps) auto
    then show ?thesis using Cons.IH [OF j(2)] j(1) by simp
  qed
qed (simp add: strIndex.simps)

lemma formScan_tag:
  assumes "prefix ''<form'' (map lowc s)"
  shows "formScan f s = (case strIndex ''>'' s of None \<Rightarrow> s | Some j \<Rightarrow> take (j + 1) s @ f @ formScan f (drop (j + 1) s))"
proof (cases s)
  case (Cons c r)
  then have "c \<noteq> CHR ''>''" using assms by (auto simp: lowc_def is_upper_def byte_def split: if_splits)
  then show ?thesis
    using assms Cons by (subst formScan.simps) (auto simp: strIndex_char cut_at_Some split: option.splits)
qed (use assms in simp)

lemma injectLoop_ascii:
  assumes "i \<le> length content"
  shows "injectLoop f content (map lowc content) i acc = Some (acc @ formScan f (drop i content))"
  using assms
proof (induction "length content - i" arbitrary: i acc rule: less_induct)
  case less
  show ?case
  proof (cases "strIndex ''<form'' (map lowc (drop i content))")
    case None
    then show ?thesis using less.prems
      by (subst injectLoop.simps) (simp add: drop_map formScan_None)
  next
    case (Some idx)
    note sc = formScan_Some [OF Some, of f]
    have le: "i + idx \<le> length content" using strIndex_Some [OF Some] less.prems by simp
    have pre: "prefix ''<form'' (map lowc (drop (i + idx) content))" using sc by (simp add: add.commute)
    show ?thesis
    proof (cases "strIndex ''>'' (drop (i + idx) content)")
      case None
      then show ?thesis using less.prems le Some sc formScan_tag [OF pre, of f]
          append_take_drop_id [of idx "drop i content"]
        by (subst injectLoop.simps) (simp add: drop_map Let_def add.commute)
    next
      case (Some j)
      let ?stop = "i + idx + j + 1"
      have "?stop \<le> length content" using strIndex_Some [OF Some] le by simp
      then have rec: "injectLoop f content (map lowc content) ?stop acc' = Some (acc' @ formScan f (drop ?stop content))" for acc'
        by (intro less.hyps) auto
      have "take (Suc (idx + j)) (drop i content) = take idx (drop i content) @ take (Suc j) (drop (i + idx) content)"
        using take_add [of idx "Suc j" "drop i content"] by (simp add: add.commute)
      then show ?thesis
        using less.prems le \<open>strIndex ''<form'' (map lowc (drop i content)) = Some idx\<close> Some sc formScan_tag [OF pre, of f] rec
        by (subst injectLoop.simps) (simp add: drop_map Let_def add.commute add.left_commute)
    qed
  qed
qed

text \<open>On an ASCII page the index loop that injects the token is the one-pass scan that writes the field behind every form tag, and it never panics.\<close>

theorem inject_behind_every_form:
  assumes "is_ascii content"
  shows "InjectCSRF token content = Some (formScan (csrfField token) content)"
  using injectLoop_ascii [of 0 content] assms by (simp add: InjectCSRF_def to_lower_ascii)

theorem inject_behind_every_form_witness:
  "InjectCSRF ''t'' ''<p><FORM a><b>'' = Some (''<p><FORM a>'' @ csrfField ''t'' @ ''<b>'')"
  using inject_behind_every_form [of "''<p><FORM a><b>''" "''t''"]
  by (simp add: is_ascii_def byte_def formScan.simps lowc_def is_upper_def)

definition dottedI :: string where "dottedI = [CHR 0xC4, CHR 0xB0]"

text \<open>
  A letter whose lower case has fewer bytes shifts the positions: on a page with one dotted capital I the
  field lands before the form and the form stays without a token, and a page that ends with its form tag makes
  the loop panic.
\<close>

theorem inject_misplaced:
  "InjectCSRF token (dottedI @ ''<div><form><i>'') = Some (dottedI @ ''<div>'' @ csrfField token @ ''<form><i>'') \<and>
   InjectCSRF token (dottedI @ ''<form>'') = None"
  by (simp_all add: InjectCSRF_def dottedI_def to_lower_def injectLoop.simps strIndex.simps lowc_def is_upper_def byte_def Let_def)

end
