(* ===== verification/Signed_Urls.thy ===== *)
theory Signed_Urls
  imports Csrf Row_Scope
begin

text \<open>
  Time-limited links to uploaded files (\<^verbatim>\<open>signed_urls.go\<close>), the ownership of private uploads
  (\<^verbatim>\<open>upload_owners.go\<close>), the predicate both sides share (\<^verbatim>\<open>media_cdn.go\<close>) and the gates of the file server
  (\<open>serveUploadAsset\<close> of \<^verbatim>\<open>server.go\<close>). Paths follow the Unix rules of package \<^verbatim>\<open>filepath\<close>. The media CDN is
  not configured here: its branch of the handler is left out. A query is the list of its decoded
  parameters; \<open>escapedPath\<close> is the escaping of a URL path. The file system (which paths resolve, and to what) and
  the values of a row are given to the model; the response leaves out the seconds it repeats.
\<close>

section \<open>Paths\<close>

definition cleanStep :: "bool \<Rightarrow> string list \<Rightarrow> string \<Rightarrow> string list" where
  "cleanStep rooted out seg =
     (if seg = [] \<or> seg = ''.'' then out
      else if seg = ''..'' then
        (case out of [] \<Rightarrow> if rooted then [] else [''..'']
         | t # ts \<Rightarrow> if t = ''..'' then seg # out else ts)
      else seg # out)"

definition pathClean :: "string \<Rightarrow> string" where
  "pathClean p =
     (let rooted = prefix ''/'' p; out = rev (foldl (cleanStep rooted) [] (split_at CHR ''/'' p)) in
      if rooted then ''/'' @ join ''/'' out else if out = [] then ''.'' else join ''/'' out)"

definition isLocalPath :: "string \<Rightarrow> bool" where
  "isLocalPath p \<longleftrightarrow>
     \<not> prefix ''/'' p \<and> p \<noteq> [] \<and>
     (let q = (if list_ex (\<lambda>s. s = ''.'' \<or> s = ''..'') (split_at CHR ''/'' p) then pathClean p else p) in
      q \<noteq> ''..'' \<and> \<not> prefix ''../'' q)"

definition uploadRelPath :: "string \<Rightarrow> string" where
  "uploadRelPath p = trim_prefix (trim_prefix (trim_prefix p ''/'') ''uploads/'') ''/''"

definition isPrivateUploadPath :: "string \<Rightarrow> bool" where
  "isPrivateUploadPath p0 \<longleftrightarrow>
     (let p = trim_prefix p0 ''/'' in prefix ''uploads/private/'' p \<or> contains ''/private/'' p)"

definition appMCPArtifactStorageReference :: "string \<Rightarrow> bool" where
  "appMCPArtifactStorageReference raw \<longleftrightarrow>
     (let p = to_lower (map (\<lambda>c. if c = CHR 0x5C then CHR ''/'' else c) raw);
          q = takeWhile (\<lambda>c. c \<noteq> CHR ''?'' \<and> c \<noteq> CHR ''#'') p;
          d = pathClean (''/'' @ q) @ ''/'' in
      prefix ''/private/mcp-artifacts/'' d \<or> contains ''/uploads/private/mcp-artifacts/'' d)"

section \<open>Links\<close>

definition uploadText :: "string \<Rightarrow> string \<Rightarrow> int \<Rightarrow> string" where
  "uploadText host path expires =
     ''upload:v2:'' @ to_lower host @ [CHR ''\<newline>''] @ path @ [CHR ''\<newline>''] @ formatInt expires"

text \<open>The signing key: cached once derived from the server secret, and a throw-away one before the secret is set.\<close>

definition csrfKeyBytes ::
    "(string \<Rightarrow> string \<Rightarrow> string) \<Rightarrow> string option \<Rightarrow> string \<Rightarrow> string \<Rightarrow> string \<times> string option" where
  "csrfKeyBytes mac cached serverSecret rnd =
     (case cached of Some k \<Rightarrow> (k, cached)
      | None \<Rightarrow> if serverSecret = [] then (rnd, None)
                else let k = mac serverSecret ''signed-url-key'' in (k, Some k))"

definition computeURLSignature :: "(string \<Rightarrow> string \<Rightarrow> string) \<Rightarrow> string \<Rightarrow> string \<Rightarrow> string \<Rightarrow> int \<Rightarrow> string" where
  "computeURLSignature mac key host path expires = hexEncode (mac key (uploadText host path expires))"

definition GenerateSignedURL ::
    "(string \<Rightarrow> string \<Rightarrow> string) \<Rightarrow> string \<Rightarrow> (string \<Rightarrow> string) \<Rightarrow> int \<Rightarrow> string \<Rightarrow> string \<Rightarrow> int \<Rightarrow> string" where
  "GenerateSignedURL mac key escapedPath now host filePath expiresIn =
     (let expires = secOf (now + expiresIn) in
      escapedPath (''/uploads/'' @ filePath) @ ''?expires='' @ formatInt expires @ ''&sig='' @
        computeURLSignature mac key host filePath expires)"

definition ValidateSignedURL ::
    "(string \<Rightarrow> string \<Rightarrow> string) \<Rightarrow> string \<Rightarrow> int \<Rightarrow> string \<Rightarrow> string \<Rightarrow> (string \<times> string) list \<Rightarrow> bool" where
  "ValidateSignedURL mac key now path host query =
     (let expiresStr = queryGet query ''expires''; sig = queryGet query ''sig'' in
      if expiresStr = [] \<or> sig = [] then False
      else case atoi expiresStr of
        None \<Rightarrow> False
      | Some expires \<Rightarrow>
        if expires < secOf now then False
        else sig = computeURLSignature mac key host path expires)"

definition privatePrefix :: string where "privatePrefix = ''/uploads/private/''"

definition SignedUploadMiddleware ::
    "(string \<Rightarrow> string \<Rightarrow> string) \<Rightarrow> string \<Rightarrow> int \<Rightarrow> string \<Rightarrow> string \<Rightarrow> (string \<times> string) list \<Rightarrow> bool" where
  "SignedUploadMiddleware mac key now urlPath host query =
     (if length privatePrefix < length urlPath \<and> take (length privatePrefix) urlPath = privatePrefix
      then ValidateSignedURL mac key now (drop (length ''/uploads/'') urlPath) host query
      else True)"

section \<open>Who owns a private file\<close>

record uploadOwner =
  uo_user :: int
  uo_group :: string
  uo_admin :: bool

text \<open>The string values of a row, and a column read as a number or as a text.\<close>

record 'row rowValues =
  rv_texts :: "'row \<Rightarrow> string list"
  rv_int :: "'row \<Rightarrow> string \<Rightarrow> int option"
  rv_text :: "'row \<Rightarrow> string \<Rightarrow> string option"

definition recordPrivateUploadOwner ::
    "principal option \<Rightarrow> string \<Rightarrow> (string \<rightharpoonup> uploadOwner) \<Rightarrow> (string \<rightharpoonup> uploadOwner) option" where
  "recordPrivateUploadOwner s destPath owners =
     (if \<not> isPrivateUploadPath destPath then Some owners
      else let key = uploadRelPath destPath in
        if owners key \<noteq> None then None
        else Some (owners(key \<mapsto>
          (case s of None \<Rightarrow> \<lparr>uo_user = 0, uo_group = [], uo_admin = False\<rparr>
           | Some p \<Rightarrow> \<lparr>uo_user = UserID p, uo_group = EffectiveGroupID s, uo_admin = IsAdmin s\<rparr>))))"

definition rowsById :: "'row sqlite \<Rightarrow> 'row world \<Rightarrow> string \<Rightarrow> string \<Rightarrow> 'row list" where
  "rowsById sq w table i = filter (\<lambda>row. colIs sq table ''id'' row (ArgText i)) (w_rows w table)"

definition recordReferencesLocalFile ::
    "'row sqlite \<Rightarrow> 'row rowValues \<Rightarrow> 'row world \<Rightarrow> string \<Rightarrow> string \<Rightarrow> string \<Rightarrow> bool" where
  "recordReferencesLocalFile sq rv w table i path =
     (case rowsById sq w table i of
        [] \<Rightarrow> False
      | row # _ \<Rightarrow> list_ex (\<lambda>s. s \<noteq> [] \<and> uploadRelPath s = uploadRelPath path) (rv_texts rv row))"

definition privateUploadVouched ::
    "'row sqlite \<Rightarrow> 'row rowValues \<Rightarrow> 'row world \<Rightarrow> appConfig \<Rightarrow> (string \<rightharpoonup> uploadOwner) \<Rightarrow> principal option \<Rightarrow> string \<Rightarrow> string \<Rightarrow> string \<Rightarrow> bool" where
  "privateUploadVouched sq rv w app owners s table i key =
     (case owners key of
        None \<Rightarrow> True
      | Some o' \<Rightarrow>
          uo_admin o' \<or> (\<exists>p. s = Some p \<and> uo_user o' \<noteq> 0 \<and> UserID p = uo_user o') \<or>
          uo_user o' \<noteq> 0 \<and> hasColumn app table ''user_id'' \<and>
            (case rowsById sq w table i of [] \<Rightarrow> False | row # _ \<Rightarrow> rv_int rv row ''user_id'' = Some (uo_user o')) \<or>
          uo_group o' \<noteq> [] \<and> groupKey app \<noteq> [] \<and> hasColumn app table (groupKey app) \<and>
            (case rowsById sq w table i of [] \<Rightarrow> False | row # _ \<Rightarrow> rv_text rv row (groupKey app) = Some (uo_group o')))"

section \<open>Minting a link\<close>

definition canAccessRow ::
    "'row sqlite \<Rightarrow> (string \<Rightarrow> bool option) \<Rightarrow> 'row world \<Rightarrow> appConfig \<Rightarrow> string \<Rightarrow> string \<Rightarrow> principal option \<Rightarrow> bool" where
  "canAccessRow sq parseFloat w app table i s \<longleftrightarrow>
     s \<noteq> None \<and> SessionCanAccessTable w app table OpRead s \<and> canAccessRowScoped sq parseFloat w app table i s ''view''"

definition authorizeRecordReadForSigning ::
    "'row sqlite \<Rightarrow> (string \<Rightarrow> bool option) \<Rightarrow> 'row world \<Rightarrow> appConfig \<Rightarrow> principal option \<Rightarrow> string \<Rightarrow> string \<Rightarrow> bool" where
  "authorizeRecordReadForSigning sq parseFloat w app s table i =
     (if \<not> safeIdent table \<or> \<not> appHasTable app table then False
      else let mode = tableMode app table OpRead in
        if mode = ''off'' then False
        else if mode \<noteq> ''anon'' \<and> s = None then False
        else if \<not> tableModeAllowed w app table OpRead mode s 0 then False
        else if s \<noteq> None \<and> checkScope (scopeView s) table ''read'' \<noteq> None then False
        else if mode = ''anon'' \<or> mode = ''everyone'' then
          list_ex (\<lambda>row. hasColumn app table ''deleted_at'' \<longrightarrow> colNull sq table ''deleted_at'' row) (rowsById sq w table i)
        else canAccessRow sq parseFloat w app table i s)"

record uploadTree =
  ut_resolve :: "string \<Rightarrow> string option"
  ut_realRoot :: "string option"
  ut_join :: "string \<Rightarrow> string \<Rightarrow> string"
  ut_open :: "string \<Rightarrow> string option"

datatype signedAnswer = SignDenied nat | SignedLink string string

definition oauthMaxSignedURLTTL :: int where "oauthMaxSignedURLTTL = 6 * 3600 * nsPerSecond"

definition linkLifetime :: "string \<Rightarrow> int" where
  "linkLifetime ei =
     (let d = (case (if ei = [] then None else atoi ei) of
                 None \<Rightarrow> 3600 * nsPerSecond
               | Some seconds \<Rightarrow> if 0 < seconds then wrap64 (seconds * nsPerSecond) else 3600 * nsPerSecond) in
      if oauthMaxSignedURLTTL < d then oauthMaxSignedURLTTL else d)"

definition canonicalUpload :: "uploadTree \<Rightarrow> string \<Rightarrow> bool" where
  "canonicalUpload fs localRel =
     (case ut_resolve fs localRel of
        None \<Rightarrow> True
      | Some resolved \<Rightarrow> (case ut_realRoot fs of None \<Rightarrow> False | Some root \<Rightarrow> ut_join fs root localRel = resolved))"

definition signedURLHandler ::
    "'row sqlite \<Rightarrow> (string \<Rightarrow> bool option) \<Rightarrow> 'row rowValues \<Rightarrow> (string \<Rightarrow> string \<Rightarrow> string) \<Rightarrow> string \<Rightarrow> (string \<Rightarrow> string) \<Rightarrow>
     uploadTree \<Rightarrow> 'row world \<Rightarrow> appConfig \<Rightarrow> (string \<rightharpoonup> uploadOwner) \<Rightarrow> browserRequest \<Rightarrow> (string \<times> string) list \<Rightarrow> principal option \<Rightarrow> signedAnswer" where
  "signedURLHandler sq parseFloat rv mac key escapedPath fs w app owners r query s =
     (if s = None then SignDenied 401
      else let path = queryGet query ''path'' in
      if path = [] then SignDenied 400
      else if appMCPArtifactStorageReference path then SignDenied 403
      else let expiresIn = linkLifetime (queryGet query ''expires_in''); localRel = uploadRelPath path in
      if localRel = [] \<or> \<not> isLocalPath localRel \<or> pathClean localRel \<noteq> localRel \<or>
         CHR 0x5C \<in> set localRel \<or> CHR 0x00 \<in> set localRel then SignDenied 400
      else if \<not> canonicalUpload fs localRel then SignDenied 400
      else let rt = trim_space (queryGet query ''record_table''); rid = trim_space (queryGet query ''record_id'');
               signedURL = GenerateSignedURL mac key escapedPath (w_now w) (br_host r) localRel expiresIn;
               link = SignedLink (protoOf r @ ''://'' @ br_host r @ signedURL) signedURL in
      if isPrivateUploadPath (''uploads/'' @ localRel) then
        (if rt = [] \<or> rid = [] then SignDenied 403
         else if \<not> authorizeRecordReadForSigning sq parseFloat w app s rt rid then SignDenied 403
         else if \<not> recordReferencesLocalFile sq rv w rt rid localRel then SignDenied 403
         else if \<not> privateUploadVouched sq rv w app owners s rt rid localRel then SignDenied 403
         else link)
      else link)"

section \<open>Serving a file\<close>

datatype served = NotFound | Forbidden | ServedFile string bool

definition serveUploadAsset ::
    "(string \<Rightarrow> string \<Rightarrow> string) \<Rightarrow> string \<Rightarrow> int \<Rightarrow> uploadTree \<Rightarrow> string \<Rightarrow> (string \<times> string) list \<Rightarrow> string \<Rightarrow> served" where
  "serveUploadAsset mac key now fs host query relativePath =
     (if prefix ''_transforms/'' (pathClean relativePath) then NotFound
      else if appMCPArtifactStorageReference (''uploads/'' @ relativePath) then NotFound
      else let private1 = isPrivateUploadPath (''uploads/'' @ relativePath);
               signed = ValidateSignedURL mac key now relativePath host query in
      if private1 \<and> \<not> signed then Forbidden
      else case ut_open fs relativePath of
        None \<Rightarrow> NotFound
      | Some resolved \<Rightarrow>
        if prefix ''_transforms/'' resolved \<or> appMCPArtifactStorageReference (''uploads/'' @ resolved) then NotFound
        else let private2 = isPrivateUploadPath (''uploads/'' @ resolved) in
          if private2 \<and> \<not> signed then Forbidden
          else ServedFile resolved (private1 \<or> private2))"

section \<open>What a signature covers\<close>

lemma formatInt_no_newline: "CHR ''\<newline>'' \<notin> set (formatInt n)"
  by (rule formatInt_no) (simp_all add: is_digit_def byte_def)

lemma case_map_no_newline:
  assumes sp: "\<forall>(p, d) \<in> set sp. d \<noteq> CHR ''\<newline>''" and f: "\<And>c. f c = CHR ''\<newline>'' \<Longrightarrow> c = CHR ''\<newline>''"
  shows "CHR ''\<newline>'' \<notin> set s \<Longrightarrow> CHR ''\<newline>'' \<notin> set (case_map sp f s)"
proof (induction s rule: length_induct)
  case (1 s)
  show ?case
  proof (cases s)
    case (Cons c r)
    have IH: "CHR ''\<newline>'' \<notin> set (case_map sp f (drop k r))" for k
    proof -
      have "length (drop k r) < length s" "CHR ''\<newline>'' \<notin> set (drop k r)"
        using "1.prems" set_drop_subset [of k r] Cons by auto
      then show ?thesis using "1.IH" by blast
    qed
    have "d \<noteq> CHR ''\<newline>''" if "find P sp = Some (q, d)" for P q d
    proof -
      have "(q, d) \<in> set sp" using that by (metis find_Some_iff nth_mem)
      with sp show ?thesis by auto
    qed
    moreover have "f c \<noteq> CHR ''\<newline>''" using f [of c] "1.prems" Cons by auto
    ultimately show ?thesis using IH [of 0] IH Cons by (auto split: option.splits)
  qed simp
qed

lemma lower_no_newline: "CHR ''\<newline>'' \<notin> set h \<Longrightarrow> CHR ''\<newline>'' \<notin> set (to_lower h)"
  unfolding to_lower_def
  by (rule case_map_no_newline) (auto simp: lowc_def is_upper_def byte_def split: if_splits char.splits)

lemma uploadText_inj:
  assumes "uploadText h p e = uploadText h' p' e'" "CHR ''\<newline>'' \<notin> set h" "CHR ''\<newline>'' \<notin> set h'"
  shows "to_lower h = to_lower h' \<and> p = p' \<and> e = e'"
proof -
  have "to_lower h @ CHR ''\<newline>'' # (p @ CHR ''\<newline>'' # formatInt e) = to_lower h' @ CHR ''\<newline>'' # (p' @ CHR ''\<newline>'' # formatInt e')"
    using assms(1) by (simp add: uploadText_def)
  note this = cut_unique [OF this lower_no_newline [OF assms(2)] lower_no_newline [OF assms(3)]]
  then have "p @ CHR ''\<newline>'' # formatInt e = p' @ CHR ''\<newline>'' # formatInt e'" by simp
  from this cut_unique_last [OF this formatInt_no_newline formatInt_no_newline] \<open>_ \<and> _\<close> show ?thesis
    using formatInt_inj by blast
qed

text \<open>C24: The signature of one link opens no other: presented with a link that passes, it was computed for the same path, the same host up to case and the expiry the link names, wherever the code's MAC tells the two signed texts apart.\<close>

theorem signature_opens_one_link:
  assumes "ValidateSignedURL mac key now path' host' query"
    and "queryGet query ''sig'' = computeURLSignature mac key host path expires"
    and "\<And>e. atoi (queryGet query ''expires'') = Some e \<Longrightarrow> mac key (uploadText host path expires) = mac key (uploadText host' path' e) \<Longrightarrow>
          uploadText host path expires = uploadText host' path' e"
    and "CHR ''\<newline>'' \<notin> set host" "CHR ''\<newline>'' \<notin> set host'"
  shows "path' = path \<and> to_lower host' = to_lower host \<and> atoi (queryGet query ''expires'') = Some expires \<and> secOf now \<le> expires"
proof -
  obtain e where e: "atoi (queryGet query ''expires'') = Some e" "secOf now \<le> e"
      and sig: "queryGet query ''sig'' = computeURLSignature mac key host' path' e"
    using assms(1) by (auto simp: ValidateSignedURL_def Let_def split: option.splits if_splits)
  then have "uploadText host path expires = uploadText host' path' e"
    using assms(2) assms(3) [OF e(1)] by (simp add: computeURLSignature_def) (metis hexEncode_inj)
  from uploadText_inj [OF this assms(4,5)] e show ?thesis by simp
qed

theorem signature_opens_one_link_witness:
  "ValidateSignedURL (\<lambda>k t. k @ t) ''k'' (5 * nsPerSecond) ''private/a'' ''Ex''
     [(''expires'', ''9''), (''sig'', computeURLSignature (\<lambda>k t. k @ t) ''k'' ''ex'' ''private/a'' 9)] \<and> to_lower ''Ex'' = to_lower ''ex''"
proof -
  let ?q = "[(''expires'', ''9''), (''sig'', computeURLSignature (\<lambda>k t. k @ t) ''k'' ''ex'' ''private/a'' 9)]"
  have nine: "atoi ''9'' = Some 9" using atoi_formatInt [of 9] by (simp add: formatInt_def decimal.simps digitChars_def)
  have lo: "to_lower ''Ex'' = to_lower ''ex''" by (simp add: to_lower_ascii is_ascii_def byte_def lowc_def is_upper_def)
  have v: "ValidateSignedURL (\<lambda>k t. k @ t) ''k'' (5 * nsPerSecond) ''private/a'' ''Ex'' ?q"
    using nine lo by (simp add: ValidateSignedURL_def queryGet_def computeURLSignature_def uploadText_def secOf_def nsPerSecond_def)
  from signature_opens_one_link [OF v, of "''ex''" "''private/a''" 9] v show ?thesis by (simp add: queryGet_def)
qed

section \<open>Round trip\<close>

text \<open>The parameters of a link whose values need no unescaping.\<close>

definition linkQuery :: "string \<Rightarrow> (string \<times> string) list" where
  "linkQuery link =
     (case cut_at CHR ''?'' link of None \<Rightarrow> []
      | Some (_, q) \<Rightarrow> map (\<lambda>kv. case cut_at CHR ''='' kv of None \<Rightarrow> (kv, []) | Some p \<Rightarrow> p) (split_at CHR ''&'' q))"

lemma split_at_append: "d \<notin> set a \<Longrightarrow> split_at d (a @ d # b) = a # split_at d b"
  by (induction a) auto

lemma split_at_none: "d \<notin> set a \<Longrightarrow> split_at d a = [a]"
  by (induction a) auto

lemma hex_no_amp: "CHR ''&'' \<notin> set (hexEncode bs)"
proof
  assume "CHR ''&'' \<in> set (hexEncode bs)"
  then have "CHR ''&'' \<in> set hexChars" using hexEncode_set by blast
  then show False by (simp add: hexChars_def)
qed

lemma linkQuery_generated:
  assumes "CHR ''?'' \<notin> set u"
  shows "linkQuery (u @ ''?expires='' @ formatInt e @ ''&sig='' @ hexEncode m) = [(''expires'', formatInt e), (''sig'', hexEncode m)]"
proof -
  have n: "CHR ''&'' \<notin> set (formatInt e)" by (rule formatInt_no) (simp_all add: is_digit_def byte_def)
  have cut: "cut_at CHR ''?'' (u @ ''?expires='' @ formatInt e @ ''&sig='' @ hexEncode m) =
      Some (u, ''expires='' @ formatInt e @ ''&sig='' @ hexEncode m)"
    using assms by (simp add: cut_at_Some)
  have "''expires='' @ formatInt e @ ''&sig='' @ hexEncode m = (''expires='' @ formatInt e) @ CHR ''&'' # (''sig='' @ hexEncode m)"
    by simp
  moreover have "split_at CHR ''&'' \<dots> = [''expires='' @ formatInt e, ''sig='' @ hexEncode m]"
    by (subst split_at_append, use n in simp, subst split_at_none, use hex_no_amp in simp_all)
  ultimately have sp: "split_at CHR ''&'' (''expires='' @ formatInt e @ ''&sig='' @ hexEncode m) = [''expires='' @ formatInt e, ''sig='' @ hexEncode m]"
    by (simp only:)
  show ?thesis unfolding linkQuery_def cut option.case prod.case sp by simp
qed

text \<open>A generated link passes the check for its file until its expiry, under any spelling of the host's case.\<close>

theorem signed_url_roundtrip:
  assumes "\<And>p. CHR ''?'' \<notin> set (escapedPath p)" "\<And>t. mac key t \<noteq> []"
    and "to_lower host' = to_lower host" "secOf now' \<le> secOf (now + expiresIn)"
    and "- (2 ^ 63) \<le> secOf (now + expiresIn)" "secOf (now + expiresIn) < 2 ^ 63"
  shows "ValidateSignedURL mac key now' filePath host' (linkQuery (GenerateSignedURL mac key escapedPath now host filePath expiresIn))"
proof -
  let ?e = "secOf (now + expiresIn)"
  have q: "linkQuery (GenerateSignedURL mac key escapedPath now host filePath expiresIn) =
      [(''expires'', formatInt ?e), (''sig'', computeURLSignature mac key host filePath ?e)]"
    unfolding GenerateSignedURL_def Let_def computeURLSignature_def by (rule linkQuery_generated [OF assms(1)])
  have ne: "formatInt ?e \<noteq> []" by (simp add: formatInt_def)
  have "computeURLSignature mac key host filePath ?e = computeURLSignature mac key host' filePath ?e"
    by (simp add: computeURLSignature_def uploadText_def assms(3))
  moreover have "computeURLSignature mac key host filePath ?e \<noteq> []" by (simp add: computeURLSignature_def assms(2))
  ultimately show ?thesis
    unfolding q ValidateSignedURL_def using assms ne by (simp add: queryGet_def atoi_formatInt)
qed

theorem signed_url_roundtrip_witness:
  "ValidateSignedURL (\<lambda>k t. k @ t) ''k'' (20 * nsPerSecond) ''private/a'' ''ex''
     (linkQuery (GenerateSignedURL (\<lambda>k t. k @ t) ''k'' (filter (\<lambda>c. c \<noteq> CHR ''?'')) (10 * nsPerSecond) ''ex'' ''private/a'' (15 * nsPerSecond)))"
  by (rule signed_url_roundtrip) (simp_all add: secOf_def nsPerSecond_def)

section \<open>Who gets a link, and who gets a file\<close>

lemma linkLifetime_max: "linkLifetime ei \<le> oauthMaxSignedURLTTL"
  by (simp add: linkLifetime_def Let_def)


text \<open>A file is served as a private one, or from a private place under a public name, only on a request that carries the server's signature over its host, its path and an expiry that has not passed.\<close>

theorem private_file_needs_signature:
  assumes "serveUploadAsset mac key now fs host query relativePath = ServedFile resolved priv"
    and "isPrivateUploadPath (''uploads/'' @ relativePath) \<or> isPrivateUploadPath (''uploads/'' @ resolved)"
  shows "priv \<and> (\<exists>e \<ge> secOf now. atoi (queryGet query ''expires'') = Some e \<and>
      queryGet query ''sig'' = hexEncode (mac key (uploadText host relativePath e)))"
proof -
  have "ValidateSignedURL mac key now relativePath host query" "priv"
    using assms unfolding serveUploadAsset_def Let_def by (auto split: if_split_asm option.split_asm)
  then show ?thesis
    by (auto simp: ValidateSignedURL_def Let_def computeURLSignature_def split: option.splits if_splits)
qed

theorem private_file_needs_signature_witness:
  "\<exists>e \<ge> secOf (5 * nsPerSecond). atoi ''9'' = Some e"
proof -
  let ?m = "\<lambda>k t. k @ t :: string"
  let ?q = "[(''expires'', ''9''), (''sig'', computeURLSignature ?m ''k'' ''ex'' ''private/a'' 9)]"
  let ?fs = "\<lparr>ut_resolve = (\<lambda>_. None), ut_realRoot = None, ut_join = (\<lambda>a b. b), ut_open = Some\<rparr>"
  have nine: "atoi ''9'' = Some 9" using atoi_formatInt [of 9] by (simp add: formatInt_def decimal.simps digitChars_def)
  have v: "ValidateSignedURL ?m ''k'' (5 * nsPerSecond) ''private/a'' ''ex'' ?q"
    using nine by (simp add: ValidateSignedURL_def queryGet_def computeURLSignature_def uploadText_def secOf_def nsPerSecond_def)
  have a: "\<not> appMCPArtifactStorageReference ''uploads/private/a''"
    by (simp add: appMCPArtifactStorageReference_def pathClean_def cleanStep_def to_lower_ascii is_ascii_def byte_def lowc_def is_upper_def Let_def)
  have "serveUploadAsset ?m ''k'' (5 * nsPerSecond) ?fs ''ex'' ?q ''private/a'' = ServedFile ''private/a'' True"
    using v a by (simp add: serveUploadAsset_def pathClean_def cleanStep_def isPrivateUploadPath_def trim_prefix_def Let_def)
  from private_file_needs_signature [OF this] show ?thesis
    by (auto simp: isPrivateUploadPath_def trim_prefix_def queryGet_def)
qed

definition exOpen :: "accessConfig option" where
  "exOpen = Some \<lparr>rules = [''items'' \<mapsto> [''all'' \<mapsto> ''everyone'']], rolesDeclared = False\<rparr>"

definition exFiles :: "(string \<Rightarrow> sqlArg) world" where
  "exFiles = (exWorld (rootDB [] []))\<lparr>w_rows := (\<lambda>_. [\<lambda>_. ArgText ''7''])\<rparr>"

definition exValues :: "(string \<Rightarrow> sqlArg) rowValues" where
  "exValues = \<lparr>rv_texts = (\<lambda>_. [''/uploads/private/x'']), rv_int = (\<lambda>_ _. None), rv_text = (\<lambda>_ _. None)\<rparr>"

definition exReader :: principal where
  "exReader = exMember\<lparr>Scopes := ''*''\<rparr>"

lemma ex_authorized: "authorizeRecordReadForSigning exSqlite (\<lambda>_. None) exFiles (exApp exOpen) (Some exReader) ''items'' ''7''"
proof -
  have lo: "to_lower ''items'' = ''items''" by (simp add: go_eval)
  have mode: "tableMode (exApp exOpen) ''items'' OpRead = ''everyone''"
    by (simp add: tableMode_def ModeFor_def ex_columns DeclaredModeFor_def ruleMode_def exOpen_def lo)
  have tab: "appHasTable (exApp exOpen) ''items''" "safeIdent ''items''"
    by (simp_all add: appHasTable_def safeIdent_def ex_defs is_letter_def is_lower_def byte_def)
  have "tableModeAllowed exFiles (exApp exOpen) ''items'' OpRead ''everyone'' (Some exReader) 0"
    by (simp add: tableModeAllowed_def columnScopedMode_def Allowed_def gateRoles_def Let_def)
  moreover have "checkScope (scopeView (Some exReader)) ''items'' ''read'' = None"
    by (simp add: checkScope_def exReader_def exMember_def session.defs hasScope_def scopesAllow_def)
  moreover have "\<not> hasColumn (exApp exOpen) ''items'' ''deleted_at''"
    by (simp add: hasColumn_def sqliteIdentifierFold_def ex_defs go_eval)
  ultimately show ?thesis using mode tab
    by (simp add: authorizeRecordReadForSigning_def rowsById_def exFiles_def exSqlite_def)
qed


definition exTree :: uploadTree where
  "exTree = \<lparr>ut_resolve = (\<lambda>_. None), ut_realRoot = None, ut_join = (\<lambda>a b. b), ut_open = Some\<rparr>"

definition exLinkQuery :: "(string \<times> string) list" where
  "exLinkQuery = [(''path'', ''private/x''), (''record_table'', ''items''), (''record_id'', ''7'')]"

lemma ex_private: "isPrivateUploadPath (''uploads/'' @ uploadRelPath ''private/x'')" "uploadRelPath ''private/x'' = ''private/x''"
  by (simp_all add: isPrivateUploadPath_def uploadRelPath_def trim_prefix_def)

lemma ex_handler:
  "signedURLHandler exSqlite (\<lambda>_. None) exValues (\<lambda>k t. k @ t) ''k'' id exTree exFiles (exApp exOpen) Map.empty exBrowser exLinkQuery (Some exReader) =
     SignedLink (''https://app.example'' @ GenerateSignedURL (\<lambda>k t. k @ t) ''k'' id 0 ''app.example'' ''private/x'' (3600 * nsPerSecond))
       (GenerateSignedURL (\<lambda>k t. k @ t) ''k'' id 0 ''app.example'' ''private/x'' (3600 * nsPerSecond))"
proof -
  have q: "queryGet exLinkQuery ''path'' = ''private/x''" "queryGet exLinkQuery ''expires_in'' = []"
    "queryGet exLinkQuery ''record_table'' = ''items''" "queryGet exLinkQuery ''record_id'' = ''7''"
    by (simp_all add: queryGet_def exLinkQuery_def)
  have tr: "trim_space ''items'' = ''items''" "trim_space ''7'' = ''7''" by (simp_all add: go_simps)
  have art: "\<not> appMCPArtifactStorageReference ''private/x''"
    by (simp add: appMCPArtifactStorageReference_def pathClean_def cleanStep_def to_lower_ascii is_ascii_def byte_def lowc_def is_upper_def Let_def)
  have loc: "isLocalPath ''private/x''" "pathClean ''private/x'' = ''private/x''"
    by (simp_all add: isLocalPath_def pathClean_def cleanStep_def)
  have can: "canonicalUpload exTree ''private/x''" by (simp add: canonicalUpload_def exTree_def)
  have life: "linkLifetime [] = 3600 * nsPerSecond" by (simp add: linkLifetime_def oauthMaxSignedURLTTL_def nsPerSecond_def)
  have ref: "recordReferencesLocalFile exSqlite exValues exFiles ''items'' ''7'' ''private/x''"
    by (simp add: recordReferencesLocalFile_def rowsById_def exFiles_def exSqlite_def exValues_def uploadRelPath_def trim_prefix_def)
  have pv: "isPrivateUploadPath (''uploads/'' @ ''private/x'')" using ex_private by simp
  have env: "br_host exBrowser = ''app.example''" "protoOf exBrowser = ''https''" "w_now exFiles = 0"
    by (simp_all add: exBrowser_def protoOf_def exFiles_def exWorld_def)
  show ?thesis
    unfolding signedURLHandler_def Let_def q tr life ex_private(2) env
    using art loc can ref pv ex_authorized by (simp add: privateUploadVouched_def)
qed


text \<open>An asked-for lifetime beyond the range of a duration wraps, here to a link that is dead when it is made.\<close>

lemma lifetime_wraps: "linkLifetime ''9223372037'' < 0"
proof -
  have "formatInt 9223372037 = ''9223372037''" by (simp add: formatInt_def decimal.simps digitChars_def)
  then have "atoi ''9223372037'' = Some 9223372037" using atoi_formatInt [of 9223372037] by simp
  then show ?thesis by (simp add: linkLifetime_def oauthMaxSignedURLTTL_def nsPerSecond_def wrap64_def)
qed

text \<open>The reference check strips the prefix once more than the link does: a record that holds one file passes for
  the link of another, one directory deeper.\<close>

lemma reference_strips_twice:
  "uploadRelPath ''uploads/uploads/private/x'' = ''uploads/private/x'' \<and>
   recordReferencesLocalFile exSqlite exValues exFiles ''items'' ''7'' ''uploads/private/x''"
  by (simp add: recordReferencesLocalFile_def rowsById_def exFiles_def exSqlite_def exValues_def uploadRelPath_def trim_prefix_def)

end
