(* ===== verification/Job_Queue.thy ===== *)
theory Job_Queue
  imports Go_Strconv User_Roles
begin

text \<open>
  The durable job queue (\<^verbatim>\<open>jobs.go\<close>): one table, written by enqueuers, by any number of workers that
  claim, run and finish jobs, by the recovery sweep, the hourly pruning and the admin's retry and
  delete. Every SQL statement is one step on the table. Times are nanoseconds; the table keeps
  seconds, and texts of its layout compare as seconds do. The body of a job is its outcome. What SQLite
  reads in a payload is a record of parameters: the project (\<^verbatim>\<open>json_extract\<close> of a valid payload), whether
  the payload is valid JSON without an effect mark, and whether it carries one.
\<close>

section \<open>The table\<close>

datatype jobStatus = Pending | Running | Completed | Failed

record job =
  jb_id :: int
  jb_type :: string
  jb_flow :: string
  jb_payload :: string
  jb_status :: jobStatus
  jb_attempts :: int
  jb_max :: int
  jb_error :: "string option"
  jb_run_at :: int
  jb_not_before :: "int option"
  jb_started :: "int option"
  jb_completed :: "int option"
  jb_created :: int
  jb_token :: string
  jb_lease :: "int option"
  jb_key :: "string option"

record jobTable =
  jobs :: "job list"
  lastId :: int

record payloadReader =
  projectOf :: "string \<Rightarrow> string option"
  plainJson :: "string \<Rightarrow> bool"
  isEffect :: "string \<Rightarrow> bool"

definition activeJob :: "job \<Rightarrow> bool" where
  "activeJob j \<longleftrightarrow> jb_status j = Pending \<or> jb_status j = Running"

text \<open>The partial unique index \<^verbatim>\<open>idx_jobs_unique_active\<close>: a row it holds carries its key alone.\<close>

definition indexed :: "job \<Rightarrow> bool" where
  "indexed j \<longleftrightarrow> activeJob j \<and> jb_key j \<noteq> None \<and> jb_key j \<noteq> Some []"

definition uniqueActive :: "job list \<Rightarrow> bool" where
  "uniqueActive js \<longleftrightarrow> distinct (map jb_key (filter indexed js))"

section \<open>Enqueueing\<close>

text \<open>\<open>generateToken\<close>: the hexadecimal text of the random bytes.\<close>

definition hexDigits :: string where "hexDigits = ''0123456789abcdef''"

definition generateToken :: "string \<Rightarrow> string" where
  "generateToken rnd = concat (map (\<lambda>c. [hexDigits ! (byte c div 16), hexDigits ! (byte c mod 16)]) rnd)"

text \<open>\<^verbatim>\<open>ORDER BY id DESC LIMIT 1\<close>.\<close>

fun newestJob :: "job list \<Rightarrow> job option" where
  "newestJob [] = None"
| "newestJob (j # js) = (case newestJob js of None \<Rightarrow> Some j | Some k \<Rightarrow> if jb_id j < jb_id k then Some k else Some j)"

definition findJobByUniqueKey :: "jobTable \<Rightarrow> string \<Rightarrow> bool \<Rightarrow> (int \<times> string) option" where
  "findJobByUniqueKey q key anyStatus =
     (case newestJob (filter (\<lambda>j. jb_key j = Some key \<and> (anyStatus \<or> activeJob j)) (jobs q)) of
        None \<Rightarrow> None
      | Some j \<Rightarrow> if jb_token j = [] then None else Some (jb_id j, jb_token j))"

record jobOpts =
  maxAttempts :: int
  dedupAnyStatus :: bool

datatype enqueued = Queued int string | MarshalError | ConstraintError

text \<open>\<open>data\<close> is the marshalled payload, if it marshals; \<open>isTx\<close> whether the enqueuer is a transaction.\<close>

definition newJob :: "jobTable \<Rightarrow> int \<Rightarrow> string \<Rightarrow> string \<Rightarrow> string \<Rightarrow> string \<Rightarrow> int option \<Rightarrow> jobOpts \<Rightarrow> string \<Rightarrow> job" where
  "newJob q now jobType key flowName data runAt opts rnd =
     \<lparr>jb_id = lastId q + 1, jb_type = jobType, jb_flow = flowName, jb_payload = data, jb_status = Pending, jb_attempts = 0,
      jb_max = (if 0 < maxAttempts opts then maxAttempts opts else 3), jb_error = None,
      jb_run_at = secOf (case runAt of None \<Rightarrow> now | Some t \<Rightarrow> t), jb_not_before = None, jb_started = None, jb_completed = None,
      jb_created = secOf now, jb_token = generateToken rnd, jb_lease = None, jb_key = (if key = [] then None else Some key)\<rparr>"

text \<open>The \<^verbatim>\<open>INSERT\<close>, refused by the index.\<close>

definition insertJob :: "job \<Rightarrow> jobTable \<Rightarrow> jobTable option" where
  "insertJob j q = (if uniqueActive (j # jobs q) then Some (q\<lparr>jobs := jobs q @ [j], lastId := lastId q + 1\<rparr>) else None)"

definition enqueueTypedJob ::
    "int \<Rightarrow> string \<Rightarrow> string \<Rightarrow> string \<Rightarrow> string option \<Rightarrow> int option \<Rightarrow> jobOpts \<Rightarrow> bool \<Rightarrow> string \<Rightarrow> jobTable \<Rightarrow> enqueued \<times> jobTable" where
  "enqueueTypedJob now jobType uniqueKey flowName data runAt opts isTx rnd q =
     (let key = trim_space uniqueKey;
          found = (if key \<noteq> [] then findJobByUniqueKey q key (dedupAnyStatus opts) else None)
      in case found of Some (i, token) \<Rightarrow> (Queued i token, q)
         | None \<Rightarrow>
           (case data of None \<Rightarrow> (MarshalError, q)
            | Some payload \<Rightarrow>
              let j = newJob q now jobType key flowName payload runAt opts rnd in
              case insertJob j q of Some q' \<Rightarrow> (Queued (jb_id j) (jb_token j), q')
              | None \<Rightarrow>
                if key \<noteq> [] then
                  (case findJobByUniqueKey q key (dedupAnyStatus opts) of
                     Some (i, token) \<Rightarrow> (Queued i token, q)
                   | None \<Rightarrow> if isTx then (Queued 0 [], q) else (ConstraintError, q))
                else (ConstraintError, q)))"

definition EnqueueCronJob :: "int \<Rightarrow> string \<Rightarrow> string \<Rightarrow> string option \<Rightarrow> int option \<Rightarrow> int \<Rightarrow> string \<Rightarrow> jobTable \<Rightarrow> enqueued \<times> jobTable" where
  "EnqueueCronJob now cronID uniqueKey payload runAt attempts rnd q =
     enqueueTypedJob now ''cron'' uniqueKey cronID payload runAt \<lparr>maxAttempts = attempts, dedupAnyStatus = True\<rparr> False rnd q"

section \<open>Claiming\<close>

definition due :: "int \<Rightarrow> job \<Rightarrow> bool" where
  "due now j \<longleftrightarrow> jb_run_at j \<le> secOf now"

definition backingOff :: "int \<Rightarrow> job \<Rightarrow> bool" where
  "backingOff now j = (case jb_not_before j of None \<Rightarrow> False | Some t \<Rightarrow> secOf now < t)"

definition before :: "job \<Rightarrow> job \<Rightarrow> bool" where
  "before k j \<longleftrightarrow> jb_run_at k < jb_run_at j \<or> jb_run_at k = jb_run_at j \<and> jb_id k < jb_id j"

definition gatedByBackoff :: "payloadReader \<Rightarrow> int \<Rightarrow> job list \<Rightarrow> job \<Rightarrow> bool" where
  "gatedByBackoff rd now js j \<longleftrightarrow> projectOf rd (jb_payload j) \<noteq> None \<and>
     list_ex (\<lambda>k. jb_status k = Pending \<and> due now k \<and> backingOff now k \<and>
        projectOf rd (jb_payload k) = projectOf rd (jb_payload j) \<and> before k j) js"

definition groupRunning :: "payloadReader \<Rightarrow> job list \<Rightarrow> job \<Rightarrow> bool" where
  "groupRunning rd js j \<longleftrightarrow> projectOf rd (jb_payload j) \<noteq> None \<and>
     list_ex (\<lambda>k. jb_status k = Running \<and> projectOf rd (jb_payload k) = projectOf rd (jb_payload j)) js"

definition claimable :: "payloadReader \<Rightarrow> int \<Rightarrow> job list \<Rightarrow> job \<Rightarrow> bool" where
  "claimable rd now js j \<longleftrightarrow> jb_status j = Pending \<and> due now j \<and> \<not> backingOff now j \<and>
     \<not> gatedByBackoff rd now js j \<and> \<not> groupRunning rd js j"

text \<open>\<^verbatim>\<open>ORDER BY run_at ASC, id ASC LIMIT 1\<close>.\<close>

fun headOfLine :: "job list \<Rightarrow> job option" where
  "headOfLine [] = None"
| "headOfLine (j # js) = (case headOfLine js of None \<Rightarrow> Some j | Some k \<Rightarrow> if before k j then Some k else Some j)"

definition changeJob :: "(job \<Rightarrow> bool) \<Rightarrow> (job \<Rightarrow> job) \<Rightarrow> jobTable \<Rightarrow> jobTable" where
  "changeJob P f q = q\<lparr>jobs := map (\<lambda>j. if P j then f j else j) (jobs q)\<rparr>"

definition startJob :: "int \<Rightarrow> int \<Rightarrow> job \<Rightarrow> job" where
  "startJob ttl now j =
     j\<lparr>jb_status := Running, jb_started := Some (secOf now), jb_attempts := jb_attempts j + 1, jb_lease := Some (secOf (now + ttl))\<rparr>"

text \<open>The claimed job as it was before the claim.\<close>

definition claimNextJob :: "payloadReader \<Rightarrow> int \<Rightarrow> int \<Rightarrow> jobTable \<Rightarrow> job option \<times> jobTable" where
  "claimNextJob rd ttl now q =
     (case headOfLine (filter (claimable rd now (jobs q)) (jobs q)) of
        None \<Rightarrow> (None, q)
      | Some j \<Rightarrow> (Some j, changeJob (\<lambda>k. jb_status k = Pending \<and> jb_id k = jb_id j) (startJob ttl now) q))"

text \<open>\<open>jobsLeaseTTL\<close>, given the environment variable's text.\<close>

definition jobsLeaseTTL :: "string \<Rightarrow> int" where
  "jobsLeaseTTL v =
     (let default = 5 * 60 * nsPerSecond in
      if v = [] then default
      else case atoi v of None \<Rightarrow> default | Some secs \<Rightarrow> if 0 < secs then wrap64 (secs * nsPerSecond) else default)"

definition jobsHeartbeatInterval :: "int \<Rightarrow> int" where
  "jobsHeartbeatInterval ttl =
     (let hb = (if ttl < 0 then - ((- ttl) div 3) else ttl div 3) in if hb < nsPerSecond then nsPerSecond else hb)"

section \<open>Finishing, heartbeats and recovery\<close>

datatype outcome = Done | Error string | NotRetryable string

definition heldBy :: "int \<Rightarrow> int \<Rightarrow> job \<Rightarrow> bool" where
  "heldBy i attempts j \<longleftrightarrow> jb_id j = i \<and> jb_status j = Running \<and> jb_attempts j = attempts + 1"

definition backoff :: "int \<Rightarrow> int" where
  "backoff attempts = 2 ^ nat (if attempts < 0 \<or> 16 < attempts then 16 else attempts) * 30 * nsPerSecond"

definition failJob :: "string \<Rightarrow> int \<Rightarrow> job \<Rightarrow> job" where
  "failJob err now j = j\<lparr>jb_status := Failed, jb_error := Some err, jb_completed := Some (secOf now), jb_lease := None\<rparr>"

definition retryJob :: "string \<Rightarrow> int \<Rightarrow> job \<Rightarrow> job" where
  "retryJob err notBefore j = j\<lparr>jb_status := Pending, jb_error := Some err, jb_not_before := Some (secOf notBefore), jb_lease := None\<rparr>"

definition completeJob :: "int \<Rightarrow> job \<Rightarrow> job" where
  "completeJob now j = j\<lparr>jb_status := Completed, jb_completed := Some (secOf now), jb_lease := None\<rparr>"

text \<open>What the worker that claimed \<open>i\<close> at \<open>attempts\<close> attempts out of \<open>most\<close> writes when the body returns.\<close>

definition finishJob :: "int \<Rightarrow> int \<Rightarrow> int \<Rightarrow> outcome \<Rightarrow> int \<Rightarrow> jobTable \<Rightarrow> jobTable" where
  "finishJob i attempts most out now q =
     (case out of
        Done \<Rightarrow> changeJob (heldBy i attempts) (completeJob now) q
      | NotRetryable err \<Rightarrow> changeJob (heldBy i attempts) (failJob err now) q
      | Error err \<Rightarrow>
          if most \<le> attempts + 1 then changeJob (heldBy i attempts) (failJob err now) q
          else changeJob (heldBy i attempts) (retryJob err (now + backoff attempts)) q)"

definition heartbeat :: "int \<Rightarrow> int \<Rightarrow> int \<Rightarrow> jobTable \<Rightarrow> jobTable" where
  "heartbeat i ttl now q =
     changeJob (\<lambda>j. jb_id j = i \<and> jb_status j = Running) (\<lambda>j. j\<lparr>jb_lease := Some (secOf (now + ttl))\<rparr>) q"

definition leaseExpired :: "int \<Rightarrow> job \<Rightarrow> bool" where
  "leaseExpired now j \<longleftrightarrow> jb_status j = Running \<and> (case jb_lease j of None \<Rightarrow> False | Some t \<Rightarrow> t < secOf now)"

definition requeueJob :: "job \<Rightarrow> job" where
  "requeueJob j = j\<lparr>jb_status := Pending, jb_lease := None\<rparr>"

definition abandonJob :: "int \<Rightarrow> job \<Rightarrow> job" where
  "abandonJob now j = j\<lparr>jb_status := Failed, jb_error := Some ''worker died mid-execution; not re-run to avoid duplicate side effects (C-1)'',
     jb_completed := Some (secOf now)\<rparr>"

text \<open>\<open>jobsRerunSafeTypes\<close> with the configured extra types.\<close>

definition jobsRerunSafeTypes :: "string list \<Rightarrow> string list" where
  "jobsRerunSafeTypes extra = ''webhook_subscription'' # filter (\<lambda>t. t \<noteq> []) extra"

definition jobsRecoverOrphanedJobs :: "payloadReader \<Rightarrow> string list \<Rightarrow> string list \<Rightarrow> int \<Rightarrow> jobTable \<Rightarrow> jobTable" where
  "jobsRecoverOrphanedJobs rd safe idempotent now q =
     (let orphan = (\<lambda>P j. leaseExpired now j \<and> P j);
          left = (\<lambda>j. jb_attempts j < jb_max j);
          q1 = fold (\<lambda>t. changeJob (orphan (\<lambda>j. jb_type j = t \<and> left j \<and> plainJson rd (jb_payload j))) requeueJob)
            (jobsRerunSafeTypes safe) q;
          q2 = fold (\<lambda>n. changeJob (orphan (\<lambda>j. jb_type j = ''flow'' \<and> jb_flow j = n \<and> left j)) requeueJob) idempotent q1;
          q3 = changeJob (orphan (\<lambda>j. jb_type j = ''cron'' \<and> 1 < jb_max j \<and> left j)) requeueJob q2
      in changeJob (leaseExpired now) (abandonJob now) q3)"

section \<open>Pruning and the admin's endpoints\<close>

definition daySecs :: int where "daySecs = 24 * 60 * 60"

definition pruned :: "payloadReader \<Rightarrow> string \<Rightarrow> int \<Rightarrow> job \<Rightarrow> bool" where
  "pruned rd transferType now j \<longleftrightarrow>
     jb_status j = Completed \<and> (case jb_completed j of None \<Rightarrow> False | Some t \<Rightarrow> t < secOf now - 7 * daySecs) \<or>
     jb_status j = Failed \<and> (case jb_completed j of None \<Rightarrow> jb_created j | Some t \<Rightarrow> t) < secOf now - 30 * daySecs \<and>
       jb_type j \<noteq> transferType \<and> \<not> isEffect rd (jb_payload j)"

definition pruneOldJobs :: "payloadReader \<Rightarrow> string \<Rightarrow> int \<Rightarrow> jobTable \<Rightarrow> jobTable" where
  "pruneOldJobs rd transferType now q = q\<lparr>jobs := filter (\<lambda>j. \<not> pruned rd transferType now j) (jobs q)\<rparr>"

datatype retried = RetryConflict | RetryFailed | RetryNotFound | Retrying

definition adminRetry :: "payloadReader \<Rightarrow> int \<Rightarrow> int \<Rightarrow> jobTable \<Rightarrow> retried \<times> jobTable" where
  "adminRetry rd i now q =
     (let failed = (\<lambda>j. jb_id j = i \<and> jb_status j = Failed) in
      if list_ex (\<lambda>j. failed j \<and> isEffect rd (jb_payload j)) (jobs q) then (RetryConflict, q)
      else
        let P = (\<lambda>j. failed j \<and> \<not> isEffect rd (jb_payload j));
            q' = changeJob P (\<lambda>j. j\<lparr>jb_status := Pending, jb_run_at := secOf now, jb_not_before := None, jb_error := None\<rparr>) q
        in if \<not> list_ex P (jobs q) then (RetryNotFound, q)
           else if \<not> uniqueActive (jobs q') then (RetryFailed, q)
           else (Retrying, q'))"

definition adminDelete :: "int \<Rightarrow> jobTable \<Rightarrow> bool \<times> jobTable" where
  "adminDelete i q = (list_ex (\<lambda>j. jb_id j = i) (jobs q), q\<lparr>jobs := filter (\<lambda>j. jb_id j \<noteq> i) (jobs q)\<rparr>)"

section \<open>Runs\<close>

record jobEnv =
  env_reader :: payloadReader
  env_safe :: "string list"
  env_idempotent :: "string list"
  env_transfer :: string

datatype jobEvent = EvInsert | EvClaim int int int | EvFinish int | EvBeat int | EvRecover | EvPrune | EvRetry int | EvDelete int

definition emptyJobs :: jobTable where
  "emptyJobs = \<lparr>jobs = [], lastId = 0\<rparr>"

text \<open>What the processes on one database do to the table, in any order and at any times: rows are
  inserted, workers claim, extend their lease and finish what they claimed, however late, and
  sweeps, prunings and the admin's calls come in between. Enqueueing is an insert or nothing.\<close>

inductive jobRun :: "jobEnv \<Rightarrow> jobEvent list \<Rightarrow> jobTable \<Rightarrow> bool" for e :: jobEnv where
  start: "jobRun e [] emptyJobs"
| insert: "jobRun e evs q \<Longrightarrow> insertJob (newJob q now jobType key flowName payload runAt opts rnd) q = Some q' \<Longrightarrow>
    jobRun e (evs @ [EvInsert]) q'"
| claim: "jobRun e evs q \<Longrightarrow> claimNextJob (env_reader e) ttl now q = (Some j, q') \<Longrightarrow>
    jobRun e (evs @ [EvClaim (jb_id j) (jb_attempts j) (jb_max j)]) q'"
| finish: "jobRun e evs q \<Longrightarrow> EvClaim i a m \<in> set evs \<Longrightarrow> jobRun e (evs @ [EvFinish i]) (finishJob i a m out now q)"
| beat: "jobRun e evs q \<Longrightarrow> EvClaim i a m \<in> set evs \<Longrightarrow> jobRun e (evs @ [EvBeat i]) (heartbeat i ttl now q)"
| recover: "jobRun e evs q \<Longrightarrow>
    jobRun e (evs @ [EvRecover]) (jobsRecoverOrphanedJobs (env_reader e) (env_safe e) (env_idempotent e) now q)"
| prune: "jobRun e evs q \<Longrightarrow> jobRun e (evs @ [EvPrune]) (pruneOldJobs (env_reader e) (env_transfer e) now q)"
| retry: "jobRun e evs q \<Longrightarrow> adminRetry (env_reader e) i now q = (Retrying, q') \<Longrightarrow> jobRun e (evs @ [EvRetry i]) q'"
| delete: "jobRun e evs q \<Longrightarrow> jobRun e (evs @ [EvDelete i]) (snd (adminDelete i q))"

definition claims :: "int \<Rightarrow> jobEvent list \<Rightarrow> int" where
  "claims i evs = int (length (filter (\<lambda>ev. case ev of EvClaim k _ _ \<Rightarrow> k = i | _ \<Rightarrow> False) evs))"

definition retries :: "int \<Rightarrow> jobEvent list \<Rightarrow> int" where
  "retries i evs = int (length (filter (\<lambda>ev. ev = EvRetry i) evs))"

lemma claims_simps [simp]: "claims i [] = 0" "claims i (evs @ [EvClaim k a m]) = claims i evs + (if k = i then 1 else 0)"
  "claims i (evs @ [EvInsert]) = claims i evs" "claims i (evs @ [EvFinish k]) = claims i evs" "claims i (evs @ [EvBeat k]) = claims i evs"
  "claims i (evs @ [EvRecover]) = claims i evs" "claims i (evs @ [EvPrune]) = claims i evs" "claims i (evs @ [EvRetry k]) = claims i evs"
  "claims i (evs @ [EvDelete k]) = claims i evs"
  by (simp_all add: claims_def)

lemma retries_simps [simp]: "retries i [] = 0" "retries i (evs @ [EvRetry k]) = retries i evs + (if k = i then 1 else 0)"
  "retries i (evs @ [EvInsert]) = retries i evs" "retries i (evs @ [EvFinish k]) = retries i evs" "retries i (evs @ [EvBeat k]) = retries i evs"
  "retries i (evs @ [EvRecover]) = retries i evs" "retries i (evs @ [EvPrune]) = retries i evs"
  "retries i (evs @ [EvClaim k a m]) = retries i evs" "retries i (evs @ [EvDelete k]) = retries i evs"
  by (simp_all add: retries_def)

lemma retries_nonneg [simp]: "0 \<le> retries i evs"
  by (simp add: retries_def)

section \<open>Facts about the table\<close>

lemma changeJob_simps [simp]: "jobs (changeJob P f q) = map (\<lambda>j. if P j then f j else j) (jobs q)" "lastId (changeJob P f q) = lastId q"
  by (simp_all add: changeJob_def)

lemma changeJob_none: "(\<And>j. j \<in> set (jobs q) \<Longrightarrow> \<not> P j) \<Longrightarrow> changeJob P f q = q"
  by (cases q) (simp add: changeJob_def map_idI)

lemma changeJob_jobs: "changeJob P f q = q\<lparr>jobs := map (\<lambda>j. if P j then f j else j) (jobs q)\<rparr>"
  by (rule changeJob_def)

text \<open>The head of the line is a member that no other member comes before.\<close>

lemma headOfLine_None: "headOfLine js = None \<longleftrightarrow> js = []"
  by (cases js) (auto split: option.splits)

lemma headOfLine_Some: "headOfLine js = Some j \<Longrightarrow> j \<in> set js \<and> (\<forall>k \<in> set js. \<not> before k j)"
proof (induction js arbitrary: j)
  case (Cons a js)
  then show ?case by (auto simp: headOfLine_None split: option.splits if_splits) (auto simp: before_def)
qed simp

lemma newestJob_None: "newestJob js = None \<longleftrightarrow> js = []"
  by (cases js) (auto split: option.splits)

lemma newestJob_in: "newestJob js = Some j \<Longrightarrow> j \<in> set js"
  by (induction js arbitrary: j) (auto split: option.splits if_splits)

lemma token_nonempty: "rnd \<noteq> [] \<Longrightarrow> generateToken rnd \<noteq> []"
  by (cases rnd) (simp_all add: generateToken_def)

lemma claimNextJob_Some:
  assumes "claimNextJob rd ttl now q = (Some j, q')"
  shows "j \<in> set (jobs q)" "claimable rd now (jobs q) j" "\<And>k. k \<in> set (jobs q) \<Longrightarrow> claimable rd now (jobs q) k \<Longrightarrow> \<not> before k j"
    and "q' = changeJob (\<lambda>k. jb_status k = Pending \<and> jb_id k = jb_id j) (startJob ttl now) q"
  using assms headOfLine_Some [of "filter (claimable rd now (jobs q)) (jobs q)" j]
  by (auto simp: claimNextJob_def split: option.splits)

text \<open>The recovery sweep in one pass: an orphan is put back exactly when its kind of job may run twice
  and it has attempts left.\<close>

definition rerunnable :: "payloadReader \<Rightarrow> string list \<Rightarrow> string list \<Rightarrow> job \<Rightarrow> bool" where
  "rerunnable rd safe idempotent j \<longleftrightarrow> jb_attempts j < jb_max j \<and>
     (jb_type j \<in> set (jobsRerunSafeTypes safe) \<and> plainJson rd (jb_payload j) \<or>
      jb_type j = ''flow'' \<and> jb_flow j \<in> set idempotent \<or>
      jb_type j = ''cron'' \<and> 1 < jb_max j)"

definition recoverOne :: "payloadReader \<Rightarrow> string list \<Rightarrow> string list \<Rightarrow> int \<Rightarrow> job \<Rightarrow> job" where
  "recoverOne rd safe idempotent now j =
     (if \<not> leaseExpired now j then j else if rerunnable rd safe idempotent j then requeueJob j else abandonJob now j)"

lemma requeue_not_expired [simp]: "\<not> leaseExpired now (requeueJob j)"
  by (simp add: leaseExpired_def requeueJob_def)

lemma fold_requeue:
  "jobs (fold (\<lambda>t. changeJob (\<lambda>j. leaseExpired now j \<and> Q t j) requeueJob) ts q) =
     map (\<lambda>j. if leaseExpired now j \<and> (\<exists>t \<in> set ts. Q t j) then requeueJob j else j) (jobs q)"
proof (induction ts arbitrary: q)
  case (Cons t ts)
  show ?case by (simp add: Cons comp_def) (auto intro!: map_cong)
qed simp

lemma fold_changeJob_lastId: "lastId (fold (\<lambda>t. changeJob (P t) f) ts q) = lastId q"
  by (induction ts arbitrary: q) simp_all

lemma jobTable_eqI: "jobs q = jobs r \<Longrightarrow> lastId q = lastId r \<Longrightarrow> q = (r :: jobTable)"
  by (cases q; cases r) simp

lemma recover_map:
  "jobsRecoverOrphanedJobs rd safe idempotent now q = q\<lparr>jobs := map (recoverOne rd safe idempotent now) (jobs q)\<rparr>"
proof (rule jobTable_eqI)
  show "jobs (jobsRecoverOrphanedJobs rd safe idempotent now q) = jobs (q\<lparr>jobs := map (recoverOne rd safe idempotent now) (jobs q)\<rparr>)"
    by (simp add: jobsRecoverOrphanedJobs_def Let_def fold_requeue comp_def)
      (auto simp: recoverOne_def rerunnable_def intro!: map_cong)
  show "lastId (jobsRecoverOrphanedJobs rd safe idempotent now q) = lastId (q\<lparr>jobs := map (recoverOne rd safe idempotent now) (jobs q)\<rparr>)"
    by (simp add: jobsRecoverOrphanedJobs_def Let_def fold_changeJob_lastId)
qed

section \<open>The invariant of a run\<close>

definition tableOk :: "jobTable \<Rightarrow> bool" where
  "tableOk q \<longleftrightarrow> distinct (map jb_id (jobs q)) \<and> (\<forall>j \<in> set (jobs q). jb_id j \<le> lastId q) \<and> uniqueActive (jobs q)"

definition runningIn :: "payloadReader \<Rightarrow> string \<Rightarrow> job \<Rightarrow> bool" where
  "runningIn rd p j \<longleftrightarrow> jb_status j = Running \<and> projectOf rd (jb_payload j) = Some p"

definition oneRunning :: "payloadReader \<Rightarrow> job list \<Rightarrow> bool" where
  "oneRunning rd js \<longleftrightarrow> (\<forall>p. length (filter (runningIn rd p) js) \<le> 1)"

definition budgeted :: "jobEvent list \<Rightarrow> job \<Rightarrow> bool" where
  "budgeted evs j \<longleftrightarrow> claims (jb_id j) evs = jb_attempts j \<and> jb_attempts j \<le> jb_max j + retries (jb_id j) evs \<and>
     (jb_status j = Pending \<longrightarrow> jb_attempts j < jb_max j + retries (jb_id j) evs) \<and>
     (\<forall>a m. EvClaim (jb_id j) a m \<in> set evs \<longrightarrow> m = jb_max j)"

definition runOk :: "jobEnv \<Rightarrow> jobEvent list \<Rightarrow> jobTable \<Rightarrow> bool" where
  "runOk e evs q \<longleftrightarrow> tableOk q \<and> oneRunning (env_reader e) (jobs q) \<and> (\<forall>j \<in> set (jobs q). budgeted evs j) \<and>
     (\<forall>i a m. EvClaim i a m \<in> set evs \<longrightarrow> i \<le> lastId q) \<and> (\<forall>i. EvRetry i \<in> set evs \<longrightarrow> i \<le> lastId q)"

lemma claims_0: "(\<And>a m. EvClaim i a m \<notin> set evs) \<Longrightarrow> claims i evs = 0"
  by (auto simp: claims_def filter_empty_conv split: jobEvent.splits)

lemma retries_0: "EvRetry i \<notin> set evs \<Longrightarrow> retries i evs = 0"
  by (auto simp: retries_def filter_empty_conv)

lemma uniqueActive_map:
  assumes "\<And>j. j \<in> set js \<Longrightarrow> jb_key (g j) = jb_key j \<and> (indexed (g j) \<longrightarrow> indexed j)" "uniqueActive js"
  shows "uniqueActive (map g js)"
  using assms
proof (induction js)
  case (Cons a js)
  have tl: "uniqueActive (map g js)"
    using Cons.prems by (intro Cons.IH) (auto simp: uniqueActive_def split: if_splits)
  show ?case
  proof (cases "indexed (g a)")
    case True
    then have "indexed a" "jb_key (g a) = jb_key a" using Cons.prems(1) [of a] by simp_all
    moreover have "jb_key ` {k \<in> g ` set js. indexed k} \<subseteq> jb_key ` {k \<in> set js. indexed k}"
      using Cons.prems(1) by auto
    ultimately show ?thesis using Cons.prems(2) tl True by (auto simp: uniqueActive_def)
  next
    case False
    then show ?thesis using tl by (simp add: uniqueActive_def)
  qed
qed (simp add: uniqueActive_def)

lemma filter_map_mono:
  "(\<And>j. j \<in> set js \<Longrightarrow> R (g j) \<Longrightarrow> R j) \<Longrightarrow> length (filter R (map g js)) \<le> length (filter R js)"
  by (induction js) (auto simp: le_SucI)

text \<open>A step that rewrites rows in place: identity, key, budget and payload stay, and a row that is
  active or running afterwards was so before.\<close>

definition inPlace :: "jobEvent list \<Rightarrow> (job \<Rightarrow> job) \<Rightarrow> job \<Rightarrow> bool" where
  "inPlace evs g j \<longleftrightarrow> jb_id (g j) = jb_id j \<and> jb_key (g j) = jb_key j \<and> jb_payload (g j) = jb_payload j \<and>
     jb_attempts (g j) = jb_attempts j \<and> jb_max (g j) = jb_max j \<and> (activeJob (g j) \<longrightarrow> activeJob j) \<and>
     (jb_status (g j) = Running \<longrightarrow> jb_status j = Running) \<and>
     (jb_status (g j) = Pending \<longrightarrow> jb_attempts j < jb_max j + retries (jb_id j) evs)"

definition quiet :: "jobEvent \<Rightarrow> bool" where
  "quiet ev = (case ev of EvClaim _ _ _ \<Rightarrow> False | EvRetry _ \<Rightarrow> False | _ \<Rightarrow> True)"

lemma budgeted_quiet: "quiet ev \<Longrightarrow> budgeted (evs @ [ev]) j = budgeted evs j"
  by (cases ev) (auto simp: quiet_def budgeted_def)

lemma runOk_quiet:
  assumes "runOk e evs q" "quiet ev" "tableOk q'" "oneRunning (env_reader e) (jobs q')" "lastId q' = lastId q"
    and "\<And>j. j \<in> set (jobs q') \<Longrightarrow> budgeted evs j"
  shows "runOk e (evs @ [ev]) q'"
proof -
  have "EvClaim i a m \<in> set (evs @ [ev]) \<Longrightarrow> EvClaim i a m \<in> set evs" "EvRetry i \<in> set (evs @ [ev]) \<Longrightarrow> EvRetry i \<in> set evs" for i a m
    using assms(2) by (auto simp: quiet_def)
  with assms(1) have "\<forall>i a m. EvClaim i a m \<in> set (evs @ [ev]) \<longrightarrow> i \<le> lastId q" "\<forall>i. EvRetry i \<in> set (evs @ [ev]) \<longrightarrow> i \<le> lastId q"
    unfolding runOk_def by blast+
  with assms(2-) show ?thesis by (simp add: runOk_def budgeted_quiet)
qed

lemma runOk_rewrite:
  assumes "runOk e evs q" "quiet ev" "\<And>j. j \<in> set (jobs q) \<Longrightarrow> inPlace evs g j"
  shows "runOk e (evs @ [ev]) (q\<lparr>jobs := map g (jobs q)\<rparr>)"
proof -
  note rw = assms(3) [unfolded inPlace_def]
  have ids: "map (\<lambda>j. jb_id (g j)) (jobs q) = map jb_id (jobs q)" using rw by simp
  have "uniqueActive (map g (jobs q))"
    using assms(1) rw by (intro uniqueActive_map) (auto simp: runOk_def tableOk_def indexed_def)
  moreover have "\<forall>j \<in> set (jobs q). jb_id (g j) \<le> lastId q"
    using assms(1) rw by (simp add: runOk_def tableOk_def)
  ultimately have ok: "tableOk (q\<lparr>jobs := map g (jobs q)\<rparr>)"
    using assms(1) by (simp add: runOk_def tableOk_def comp_def ids)
  have "length (filter (runningIn (env_reader e) p) (map g (jobs q))) \<le> length (filter (runningIn (env_reader e) p) (jobs q))" for p
    using rw by (intro filter_map_mono) (simp add: runningIn_def)
  then have one: "oneRunning (env_reader e) (map g (jobs q))"
    using assms(1) unfolding runOk_def oneRunning_def by (meson order_trans)
  have "budgeted evs (g j)" if "j \<in> set (jobs q)" for j
    using assms(1) rw [OF that] that unfolding runOk_def budgeted_def by force
  with ok one show ?thesis by (intro runOk_quiet [OF assms(1,2)]) auto
qed

lemma runOk_filter:
  assumes "runOk e evs q" "quiet ev"
  shows "runOk e (evs @ [ev]) (q\<lparr>jobs := filter P (jobs q)\<rparr>)"
proof -
  have "distinct (map jb_id (filter P (jobs q)))" using assms(1) by (simp add: runOk_def tableOk_def distinct_map_filter)
  moreover have "uniqueActive (filter P (jobs q))"
    using assms(1) distinct_map_filter [of jb_key "filter indexed (jobs q)" P]
    by (simp add: runOk_def tableOk_def uniqueActive_def conj_commute)
  moreover have "length (filter (runningIn (env_reader e) p) (filter P (jobs q))) \<le> length (filter (runningIn (env_reader e) p) (jobs q))" for p
    unfolding filter_filter by (rule filter_length_mono) simp
  then have "oneRunning (env_reader e) (filter P (jobs q))"
    using assms(1) unfolding runOk_def oneRunning_def by (meson order_trans)
  ultimately show ?thesis
    using assms(1) by (intro runOk_quiet [OF assms(1,2)]) (auto simp: runOk_def tableOk_def)
qed

lemma finishJob_map:
  "\<exists>g. finishJob i a m out now q = q\<lparr>jobs := map g (jobs q)\<rparr> \<and>
     (\<forall>j. (\<not> heldBy i a j \<longrightarrow> g j = j) \<and>
       (heldBy i a j \<longrightarrow> g j = completeJob now j \<or> (\<exists>err. g j = failJob err now j) \<or>
          a + 1 < m \<and> (\<exists>err t. g j = retryJob err t j)))"
  by (cases out) (fastforce simp: finishJob_def changeJob_jobs not_le)+

lemma recoverOne_inPlace: "budgeted evs j \<Longrightarrow> inPlace evs (recoverOne rd safe idem now) j"
  by (auto simp: inPlace_def recoverOne_def rerunnable_def requeueJob_def abandonJob_def leaseExpired_def activeJob_def budgeted_def
      intro: order_less_le_trans)

lemma runOk_claim:
  assumes "runOk e evs q" "claimNextJob (env_reader e) ttl now q = (Some j, q')"
  shows "runOk e (evs @ [EvClaim (jb_id j) (jb_attempts j) (jb_max j)]) q'"
proof -
  note c = claimNextJob_Some [OF assms(2)]
  let ?g = "\<lambda>k. if jb_status k = Pending \<and> jb_id k = jb_id j then startJob ttl now k else k"
  have pend: "jb_status j = Pending" using c(2) by (simp add: claimable_def)
  have same: "k = j" if "k \<in> set (jobs q)" "jb_id k = jb_id j" for k
    using that c(1) assms(1) by (auto simp: runOk_def tableOk_def distinct_map inj_on_def)
  have js: "jobs q' = map ?g (jobs q)" and last: "lastId q' = lastId q" by (simp_all add: c(4))
  have "map jb_id (jobs q') = map jb_id (jobs q)" unfolding js by (simp add: startJob_def)
  moreover have "uniqueActive (jobs q')"
    unfolding js using assms(1)
    by (intro uniqueActive_map) (auto simp: indexed_def activeJob_def startJob_def runOk_def tableOk_def)
  moreover have "\<forall>k \<in> set (jobs q'). jb_id k \<le> lastId q'"
    using assms(1) by (auto simp: js last startJob_def runOk_def tableOk_def)
  ultimately have ok: "tableOk q'" using assms(1) by (simp add: runOk_def tableOk_def)
  have one: "length (filter (runningIn (env_reader e) p) (jobs q')) \<le> 1" for p
  proof (cases "projectOf (env_reader e) (jb_payload j) = Some p")
    case True
    with c(2) have none: "\<not> runningIn (env_reader e) p k" if "k \<in> set (jobs q)" for k
      using that by (auto simp: claimable_def groupRunning_def list_ex_iff runningIn_def)
    have "length (filter (runningIn (env_reader e) p) (jobs q')) \<le> length (filter (\<lambda>k. jb_id k = jb_id j) (jobs q))"
      unfolding js filter_map length_map comp_def by (rule filter_length_mono) (use none in \<open>auto split: if_splits\<close>)
    also have "\<dots> \<le> 1"
      using assms(1) by (auto simp: runOk_def tableOk_def distinct_map distinct_length_filter inj_on_def card_le_Suc0_iff_eq)
    finally show ?thesis .
  next
    case False
    have "length (filter (runningIn (env_reader e) p) (jobs q')) \<le> length (filter (runningIn (env_reader e) p) (jobs q))"
      unfolding js using same False by (intro filter_map_mono) (auto simp: runningIn_def startJob_def split: if_splits)
    with assms(1) show ?thesis unfolding runOk_def oneRunning_def by (meson order_trans)
  qed
  have each: "budgeted (evs @ [EvClaim (jb_id j) (jb_attempts j) (jb_max j)]) (?g k)" if "k \<in> set (jobs q)" for k
  proof (cases "jb_id k = jb_id j")
    case True
    with same that have "k = j" by blast
    with assms(1) that pend show ?thesis by (auto simp: runOk_def budgeted_def startJob_def)
  next
    case False
    with assms(1) that show ?thesis by (auto simp: runOk_def budgeted_def)
  qed
  have all: "\<forall>k \<in> set (jobs q'). budgeted (evs @ [EvClaim (jb_id j) (jb_attempts j) (jb_max j)]) k"
    unfolding js set_map using each by blast
  have "jb_id j \<le> lastId q" using assms(1) c(1) by (simp add: runOk_def tableOk_def)
  with all ok one show ?thesis
    using assms(1) unfolding runOk_def oneRunning_def last by auto
qed

lemma runOk_insert:
  assumes "runOk e evs q" "insertJob (newJob q now jobType key flowName payload runAt opts rnd) q = Some q'"
  shows "runOk e (evs @ [EvInsert]) q'"
proof -
  let ?j = "newJob q now jobType key flowName payload runAt opts rnd"
  have q': "q' = q\<lparr>jobs := jobs q @ [?j], lastId := lastId q + 1\<rparr>" and u: "uniqueActive (?j # jobs q)"
    using assms(2) by (simp_all add: insertJob_def split: if_splits)
  have new: "jb_id ?j = lastId q + 1" "jb_status ?j = Pending" "jb_attempts ?j = 0" "0 < jb_max ?j" by (simp_all add: newJob_def)
  have fresh: "EvClaim (lastId q + 1) a m \<notin> set evs" "EvRetry (lastId q + 1) \<notin> set evs" for a m
    using assms(1) unfolding runOk_def by (metis add_le_same_cancel1 not_one_le_zero)+
  have "uniqueActive (jobs q @ [?j])" using u by (auto simp: uniqueActive_def split: if_splits)
  then have ok: "tableOk q'" using assms(1) new(1) by (force simp: runOk_def tableOk_def q')
  have one: "oneRunning (env_reader e) (jobs q')" using assms(1) new(2) by (simp add: runOk_def oneRunning_def q' runningIn_def)
  have "budgeted (evs @ [EvInsert]) ?j" using new fresh by (simp add: budgeted_def claims_0 retries_0)
  with ok one assms(1) show ?thesis
    by (auto simp: runOk_def q' budgeted_quiet quiet_def) (meson add_increasing2 order_trans zero_le_one)+
qed

lemma runOk_retry:
  assumes "runOk e evs q" "adminRetry rd i now q = (Retrying, q')"
  shows "runOk e (evs @ [EvRetry i]) q'"
proof -
  define P :: "job \<Rightarrow> bool" where "P = (\<lambda>j. (jb_id j = i \<and> jb_status j = Failed) \<and> \<not> isEffect rd (jb_payload j))"
  define f :: "job \<Rightarrow> job" where "f = (\<lambda>j. j\<lparr>jb_status := Pending, jb_run_at := secOf now, jb_not_before := None, jb_error := None\<rparr>)"
  have q': "q' = changeJob P f q" "uniqueActive (jobs q')" and ex: "list_ex P (jobs q)"
    using assms(2) by (auto simp: adminRetry_def Let_def P_def f_def split: if_splits)
  have js: "jobs q' = map (\<lambda>j. if P j then f j else j) (jobs q)" "lastId q' = lastId q" by (simp_all add: q'(1))
  have "map jb_id (jobs q') = map jb_id (jobs q)" by (simp add: js f_def)
  moreover have "\<forall>k \<in> set (jobs q'). jb_id k \<le> lastId q'" using assms(1) by (auto simp: js f_def runOk_def tableOk_def)
  ultimately have ok: "tableOk q'" using assms(1) q'(2) by (simp add: runOk_def tableOk_def)
  have "length (filter (runningIn (env_reader e) p) (jobs q')) \<le> length (filter (runningIn (env_reader e) p) (jobs q))" for p
    unfolding js by (intro filter_map_mono) (auto simp: runningIn_def f_def split: if_splits)
  then have one: "oneRunning (env_reader e) (jobs q')"
    using assms(1) unfolding runOk_def oneRunning_def by (meson order_trans)
  have each: "budgeted (evs @ [EvRetry i]) (if P k then f k else k)" if "k \<in> set (jobs q)" for k
    using assms(1) that by (auto simp: runOk_def budgeted_def P_def f_def)
  have all: "\<forall>k \<in> set (jobs q'). budgeted (evs @ [EvRetry i]) k"
    unfolding js set_map using each by blast
  have "i \<le> lastId q" using ex assms(1) by (auto simp: list_ex_iff P_def runOk_def tableOk_def)
  with all ok one show ?thesis using assms(1) unfolding runOk_def js(2) by auto
qed

lemma run_ok: "jobRun e evs q \<Longrightarrow> runOk e evs q"
proof (induction rule: jobRun.induct)
  case start
  then show ?case by (simp add: runOk_def tableOk_def oneRunning_def emptyJobs_def uniqueActive_def)
next
  case (finish evs q i a m out now)
  obtain g where g: "finishJob i a m out now q = q\<lparr>jobs := map g (jobs q)\<rparr>"
    "\<And>j. (\<not> heldBy i a j \<longrightarrow> g j = j) \<and> (heldBy i a j \<longrightarrow> g j = completeJob now j \<or> (\<exists>err. g j = failJob err now j) \<or>
        a + 1 < m \<and> (\<exists>err t. g j = retryJob err t j))"
    using finishJob_map by blast
  have "inPlace evs g j" if "j \<in> set (jobs q)" for j
  proof (cases "heldBy i a j")
    case False
    with g(2) [of j] finish.IH that show ?thesis by (auto simp: inPlace_def runOk_def budgeted_def)
  next
    case True
    then have "m = jb_max j" "a + 1 = jb_attempts j"
      using finish that by (auto simp: runOk_def budgeted_def heldBy_def)
    with g(2) [of j] True show ?thesis
      by (auto simp: inPlace_def heldBy_def completeJob_def failJob_def retryJob_def activeJob_def intro: order_less_le_trans)
  qed
  from runOk_rewrite [OF finish.IH _ this] show ?case unfolding g(1) by (simp add: quiet_def)
next
  case (beat evs q i a m ttl now)
  show ?case unfolding heartbeat_def changeJob_jobs
    by (intro runOk_rewrite [OF beat.IH]) (use beat.IH in \<open>auto simp: quiet_def inPlace_def activeJob_def runOk_def budgeted_def\<close>)
next
  case (recover evs q now)
  show ?case unfolding recover_map by (intro runOk_rewrite [OF recover.IH] recoverOne_inPlace) (use recover.IH in \<open>auto simp: quiet_def runOk_def\<close>)
next
  case (prune evs q now)
  show ?case unfolding pruneOldJobs_def by (intro runOk_filter [OF prune.IH]) (simp add: quiet_def)
next
  case (delete evs q i)
  show ?case unfolding adminDelete_def snd_conv by (intro runOk_filter [OF delete.IH]) (simp add: quiet_def)
qed (auto intro: runOk_insert runOk_claim runOk_retry)

section \<open>What a run guarantees\<close>

text \<open>C6: However many workers, sweeps, retries and late finishes interleave, two rows that are running never
  belong to the same project.\<close>

theorem project_runs_one:
  assumes "jobRun e evs q" "j \<in> set (jobs q)" "k \<in> set (jobs q)" "jb_status j = Running" "jb_status k = Running"
    and "projectOf (env_reader e) (jb_payload j) = Some p" "projectOf (env_reader e) (jb_payload k) = Some p"
  shows "j = k"
proof -
  let ?r = "filter (runningIn (env_reader e) p) (jobs q)"
  have "length ?r \<le> 1" using run_ok [OF assms(1)] by (simp add: runOk_def oneRunning_def)
  moreover have "j \<in> set ?r" "k \<in> set ?r" using assms(2-) by (simp_all add: runningIn_def)
  ultimately show ?thesis by (cases ?r) auto
qed

text \<open>A claim takes the earliest of the due jobs of its project: none that is pending, backing off or not,
  comes before it.\<close>

theorem claims_follow_chain:
  assumes "claimNextJob rd ttl now q = (Some j, q')" "k \<in> set (jobs q)" "jb_status k = Pending" "due now k"
    and "projectOf rd (jb_payload k) = Some p" "projectOf rd (jb_payload j) = Some p"
  shows "\<not> before k j"
proof
  assume bef: "before k j"
  note c = claimNextJob_Some [OF assms(1)]
  have trans: "before x k \<Longrightarrow> before x j" for x using bef by (auto simp: before_def)
  have free: "\<not> gatedByBackoff rd now (jobs q) j" "\<not> groupRunning rd (jobs q) j" using c(2) by (simp_all add: claimable_def)
  have "\<not> backingOff now k" using free(1) assms(2-) bef by (auto simp: gatedByBackoff_def list_ex_iff)
  moreover have "\<not> gatedByBackoff rd now (jobs q) k" using free(1) assms(5,6) trans by (auto simp: gatedByBackoff_def list_ex_iff)
  moreover have "\<not> groupRunning rd (jobs q) k" using free(2) assms(5,6) by (auto simp: groupRunning_def)
  ultimately have "claimable rd now (jobs q) k" using assms(3,4) by (simp add: claimable_def)
  with c(3) assms(2) bef show False by blast
qed

text \<open>C31: A job is started at most as often as its budget allows, once more for every retry an admin asked
  for; a job with a budget of one is never started twice otherwise, whatever crashes or is swept.\<close>

theorem executions_bounded:
  assumes "jobRun e evs q" "j \<in> set (jobs q)"
  shows "claims (jb_id j) evs \<le> jb_max j + retries (jb_id j) evs"
  using run_ok [OF assms(1)] assms(2) by (auto simp: runOk_def budgeted_def)

text \<open>C32: A worker that lost its claim writes nothing: only the worker of the latest claim can finish a job.\<close>

theorem stale_worker_fenced:
  assumes "jobRun e evs q" "claims i evs \<noteq> a + 1"
  shows "finishJob i a m out now q = q"
proof -
  have "\<not> heldBy i a j" if "j \<in> set (jobs q)" for j
    using run_ok [OF assms(1)] that assms(2) by (auto simp: runOk_def budgeted_def heldBy_def)
  then show ?thesis by (cases out) (simp_all add: finishJob_def changeJob_none)
qed

text \<open>The sweep is one pass: jobs whose lease holds stay as they are; an orphan goes back to the queue when
  its kind may run twice and it has attempts left, and is failed for good otherwise.\<close>

theorem recovery_exact:
  "jobsRecoverOrphanedJobs rd safe idempotent now q = q\<lparr>jobs := map (recoverOne rd safe idempotent now) (jobs q)\<rparr>"
  by (rule recover_map)

section \<open>Progress\<close>

fun claimed :: "payloadReader \<Rightarrow> int \<Rightarrow> int \<Rightarrow> nat \<Rightarrow> jobTable \<Rightarrow> int list" where
  "claimed rd ttl now 0 q = []"
| "claimed rd ttl now (Suc n) q =
     (case claimNextJob rd ttl now q of (None, _) \<Rightarrow> [] | (Some j, q') \<Rightarrow> jb_id j # claimed rd ttl now n q')"

definition ahead :: "job \<Rightarrow> jobTable \<Rightarrow> nat" where
  "ahead j q = length (filter (\<lambda>k. jb_status k = Pending \<and> before k j) (jobs q))"

lemma filter_map_less:
  assumes "\<And>j. j \<in> set js \<Longrightarrow> R (g j) \<Longrightarrow> R j" "k \<in> set js" "R k" "\<not> R (g k)"
  shows "length (filter R (map g js)) < length (filter R js)"
  using assms
proof (induction js)
  case (Cons a js)
  have "length (filter R (map g js)) \<le> length (filter R js)" using Cons.prems(1) by (intro filter_map_mono) simp
  then show ?case using Cons by (cases "k = a") (auto simp: less_Suc_eq_le)
qed simp

lemma before_total: "jb_id k \<noteq> jb_id j \<Longrightarrow> before k j \<or> before j k"
  by (auto simp: before_def)

lemma ungrouped_claimable:
  "jb_status j = Pending \<Longrightarrow> due now j \<Longrightarrow> \<not> backingOff now j \<Longrightarrow> projectOf rd (jb_payload j) = None \<Longrightarrow> claimable rd now js j"
  by (simp add: claimable_def gatedByBackoff_def groupRunning_def)

lemma claim_progress:
  assumes "distinct (map jb_id (jobs q))" "j \<in> set (jobs q)" "jb_status j = Pending" "due now j" "\<not> backingOff now j"
    and "projectOf rd (jb_payload j) = None" "ahead j q < n"
  shows "jb_id j \<in> set (claimed rd ttl now n q)"
  using assms
proof (induction n arbitrary: q)
  case (Suc n)
  have able: "claimable rd now (jobs q) j" using Suc.prems by (intro ungrouped_claimable)
  then obtain k q' where run: "claimNextJob rd ttl now q = (Some k, q')"
    using Suc.prems(2) by (force simp: claimNextJob_def headOfLine_None filter_empty_conv split: option.splits)
  note c = claimNextJob_Some [OF run]
  show ?case
  proof (cases "jb_id k = jb_id j")
    case True
    then show ?thesis by (simp add: run)
  next
    case False
    let ?g = "\<lambda>x. if jb_status x = Pending \<and> jb_id x = jb_id k then startJob ttl now x else x"
    have js: "jobs q' = map ?g (jobs q)" by (simp add: c(4))
    have bef: "before k j" using False before_total c(3) [OF Suc.prems(2) able] by blast
    have "ahead j q' < ahead j q"
      unfolding ahead_def js using c(1,2) bef
      by (intro filter_map_less [where k = k]) (auto simp: startJob_def claimable_def before_def split: if_splits)
    moreover have "map jb_id (jobs q') = map jb_id (jobs q)" by (simp add: js startJob_def)
    then have "distinct (map jb_id (jobs q'))" using Suc.prems(1) by simp
    moreover have "j \<in> set (jobs q')" using Suc.prems(2) False unfolding js by force
    ultimately have "jb_id j \<in> set (claimed rd ttl now n q')" using Suc by simp
    then show ?thesis by (simp add: run)
  qed
qed simp


text \<open>A lease of more seconds than fit is negative: every claim is an orphan at once.\<close>

theorem lease_setting_wraps:
  "jobsLeaseTTL ''9223372037'' < 0"
  by (simp add: jobsLeaseTTL_def atoi_def number_def digitVal_def byte_Char is_digit_def nsPerSecond_def wrap64_def)

section \<open>Witnesses\<close>

definition exReader :: payloadReader where
  "exReader = \<lparr>projectOf = (\<lambda>p. if p = [] then None else Some p), plainJson = (\<lambda>_. True), isEffect = (\<lambda>_. False)\<rparr>"

definition exEnv :: jobEnv where
  "exEnv = \<lparr>env_reader = exReader, env_safe = [], env_idempotent = [], env_transfer = ''t''\<rparr>"

definition exJob :: "string \<Rightarrow> job" where
  "exJob payload = newJob emptyJobs 0 ''flow'' [] ''f'' payload None \<lparr>maxAttempts = 0, dedupAnyStatus = False\<rparr> ''a''"

definition exQueue :: "string \<Rightarrow> jobTable" where
  "exQueue payload = \<lparr>jobs = [exJob payload], lastId = 1\<rparr>"

definition exClaimed :: "string \<Rightarrow> jobTable" where
  "exClaimed payload = \<lparr>jobs = [startJob 60 0 (exJob payload)], lastId = 1\<rparr>"

lemmas exJob_facts = exJob_def newJob_def emptyJobs_def secOf_def

lemma ex_insert: "jobRun exEnv [EvInsert] (exQueue payload)"
proof -
  have "insertJob (newJob emptyJobs 0 ''flow'' [] ''f'' payload None \<lparr>maxAttempts = 0, dedupAnyStatus = False\<rparr> ''a'') emptyJobs = Some (exQueue payload)"
    by (simp add: insertJob_def exQueue_def exJob_facts uniqueActive_def indexed_def)
  from jobRun.insert [OF jobRun.start this] show ?thesis by simp
qed

lemma ex_claimNext: "claimNextJob exReader 60 0 (exQueue payload) = (Some (exJob payload), exClaimed payload)"
  by (simp add: claimNextJob_def exQueue_def claimable_def gatedByBackoff_def groupRunning_def due_def backingOff_def
      exJob_facts exClaimed_def changeJob_def)

lemma ex_claim: "jobRun exEnv [EvInsert, EvClaim 1 0 3] (exClaimed payload)"
  using jobRun.claim [OF ex_insert, where ttl = 60 and now = 0 and j = "exJob payload" and q' = "exClaimed payload"] ex_claimNext
  by (simp add: exEnv_def) (simp add: exJob_facts)

theorem project_runs_one_witness: "jobs (exClaimed ''p'') ! 0 = startJob 60 0 (exJob ''p'')"
  by (rule project_runs_one [OF ex_claim [of "''p''"], of _ _ "''p''"])
    (simp_all add: exClaimed_def startJob_def exEnv_def exReader_def exJob_facts)

theorem claims_follow_chain_witness: "\<not> before (exJob ''p'') (exJob ''p'')"
  using claims_follow_chain [OF ex_claimNext, of "exJob ''p''" "''p''" "''p''"]
  by (simp add: exQueue_def due_def exReader_def exJob_facts)

theorem executions_bounded_witness: "claims 1 [EvInsert, EvClaim 1 0 3] \<le> 3"
  using executions_bounded [OF ex_claim [of "[]"], of "startJob 60 0 (exJob [])"]
  by (simp add: exClaimed_def startJob_def exJob_facts retries_def)

theorem stale_worker_fenced_witness: "finishJob 1 4 3 Done 0 (exClaimed []) = exClaimed []"
  by (rule stale_worker_fenced [OF ex_claim]) (simp add: claims_def)


end
