(* ===== verification/Cron.thy ===== *)
theory Cron
  imports Job_Queue
begin

text \<open>
  The cron scheduler (\<^verbatim>\<open>cron.go\<close>): the schedules it accepts, when one is due, and the tick that
  turns a due schedule into a row of the job queue. Instants are nanoseconds since 1970 in UTC; \<open>loc\<close> gives the
  offset of the server's zone at an instant. A last fire that was never set is no instant. The
  scheduler's map is one state, the table \<^verbatim>\<open>_benmore_cron_state\<close> and the queue another, shared by the
  schedulers on one database. Which statements the database refuses is a record of parameters.
\<close>

section \<open>Schedules\<close>

definition shortcuts :: "string list" where
  "shortcuts = [''@hourly'', ''@daily'', ''@midnight'', ''@weekly'', ''@monthly'', ''@yearly'', ''@annually'']"

definition cronBounds :: "(int \<times> int) list" where
  "cronBounds = [(0, 59), (0, 23), (1, 31), (1, 12), (0, 6)]"

fun validValues :: "int \<Rightarrow> int \<Rightarrow> string list \<Rightarrow> int \<Rightarrow> bool" where
  "validValues lo hi [] previous = True"
| "validValues lo hi (v # vs) previous =
     (case atoi v of None \<Rightarrow> False
      | Some n \<Rightarrow> if n < lo \<or> hi < n \<or> n < previous then False else validValues lo hi vs n)"

definition validField :: "int \<times> int \<Rightarrow> string \<Rightarrow> bool" where
  "validField bounds field =
     (if field = ''*'' then True
      else if prefix ''*/'' field then (case atoi (drop 2 field) of None \<Rightarrow> False | Some n \<Rightarrow> 0 < n)
      else list_all (\<lambda>part. let vs = split_at CHR ''-'' part in length vs \<le> 2 \<and> validValues (fst bounds) (snd bounds) vs (- 1))
        (split_at CHR '','' field))"

definition validateCronSchedule :: "(int \<Rightarrow> nat \<Rightarrow> int \<Rightarrow> int) \<Rightarrow> string \<Rightarrow> bool" where
  "validateCronSchedule fr expr0 =
     (let expr = trim_space expr0 in
      if expr \<in> set shortcuts then True
      else if prefix ''every '' expr then
        (case parseDuration fr (trim_prefix expr ''every '') of None \<Rightarrow> False | Some d \<Rightarrow> 0 < d)
      else let fs = str_fields expr in
        length fs = 5 \<and> list_all (\<lambda>(b, f). validField b f) (zip cronBounds fs))"

definition matchPart :: "int \<Rightarrow> string \<Rightarrow> bool" where
  "matchPart val part =
     (case cut_at CHR ''-'' part of
        Some (a, b) \<Rightarrow> (case (atoi a, atoi b) of (Some m, Some n) \<Rightarrow> m \<le> val \<and> val \<le> n | _ \<Rightarrow> False)
      | None \<Rightarrow> atoi part = Some val)"

definition cronMatch :: "string \<Rightarrow> int \<Rightarrow> int \<Rightarrow> int \<Rightarrow> bool" where
  "cronMatch field val lo hi =
     (if field = ''*'' then True
      else if prefix ''*/'' field then
        (case atoi (drop 2 field) of None \<Rightarrow> False | Some n \<Rightarrow> n \<noteq> 0 \<and> n dvd val - lo)
      else list_ex (matchPart val) (split_at CHR '','' field))"

text \<open>The clock of the server's zone.\<close>

record clock =
  ck_minute :: int
  ck_hour :: int
  ck_day :: int
  ck_month :: int
  ck_weekday :: int

definition clockAt :: "(int \<Rightarrow> int) \<Rightarrow> int \<Rightarrow> clock" where
  "clockAt loc t =
     (let l = t + loc t in case dateOf (dayOf l) of (y, m, d) \<Rightarrow>
      \<lparr>ck_minute = l div (60 * nsPerSecond) mod 60, ck_hour = l div nsPerHour mod 24, ck_day = d, ck_month = m,
       ck_weekday = weekday l\<rparr>)"

definition fieldsMatch :: "string list \<Rightarrow> clock \<Rightarrow> bool" where
  "fieldsMatch fs c \<longleftrightarrow> length fs = 5 \<and>
     list_all (\<lambda>((lo, hi), field, val). cronMatch field val lo hi)
       (zip cronBounds (zip fs [ck_minute c, ck_hour c, ck_day c, ck_month c, ck_weekday c]))"

definition shortcutMatch :: "string \<Rightarrow> clock \<Rightarrow> bool" where
  "shortcutMatch expr c =
     (let midnight = ck_hour c = 0 \<and> ck_minute c = 0 in
      if expr = ''@hourly'' then ck_minute c = 0
      else if expr = ''@daily'' \<or> expr = ''@midnight'' then midnight
      else if expr = ''@weekly'' then ck_weekday c = 0 \<and> midnight
      else if expr = ''@monthly'' then ck_day c = 1 \<and> midnight
      else ck_month c = 1 \<and> ck_day c = 1 \<and> midnight)"

definition interval :: "(int \<Rightarrow> nat \<Rightarrow> int \<Rightarrow> int) \<Rightarrow> string \<Rightarrow> int option" where
  "interval fr expr =
     (if \<not> prefix ''every '' expr then None
      else case parseDuration fr (trim_prefix expr ''every '') of None \<Rightarrow> None | Some d \<Rightarrow> if 0 < d then Some d else None)"

definition cronShouldFire ::
    "(int \<Rightarrow> nat \<Rightarrow> int \<Rightarrow> int) \<Rightarrow> (int \<Rightarrow> int) \<Rightarrow> string \<Rightarrow> int \<Rightarrow> int option \<Rightarrow> bool" where
  "cronShouldFire fr loc expr0 now lastFire =
     (let expr = trim_space expr0 in
      if (case lastFire of None \<Rightarrow> False | Some t \<Rightarrow> timeSub now t < 55 * nsPerSecond) then False
      else if expr \<in> set shortcuts then shortcutMatch expr (clockAt loc now)
      else case interval fr expr of
        Some d \<Rightarrow> (case lastFire of None \<Rightarrow> True | Some t \<Rightarrow> d \<le> timeSub now t)
      | None \<Rightarrow> fieldsMatch (str_fields expr) (clockAt loc now))"

section \<open>Jobs\<close>

record cronJob =
  cj_id :: string
  cj_schedule :: string
  cj_flow :: string
  cj_max :: int

definition cronMaxAttempts :: "cronJob \<Rightarrow> int" where
  "cronMaxAttempts j = (if 0 < cj_max j then cj_max j else 1)"

text \<open>\<open>Format("20060102T1504")\<close> in UTC.\<close>

definition minuteText :: "int \<Rightarrow> string" where
  "minuteText t =
     (case dateOf (dayOf t) of (y, m, d) \<Rightarrow>
        padded 4 y @ padded 2 m @ padded 2 d @ ''T'' @ padded 2 (t div nsPerHour mod 24) @ padded 2 (t div (60 * nsPerSecond) mod 60))"

definition cronUniqueKey :: "string \<Rightarrow> int \<Rightarrow> string" where
  "cronUniqueKey jobID firedAt = ''cron:'' @ jobID @ '':'' @ minuteText firedAt"

text \<open>The flows that declare a schedule: name, trigger type and trigger.\<close>

record cronFlow =
  cf_name :: string
  cf_trigger :: string
  cf_cron :: string

definition mergeFlowCronsIntoConfig :: "cronFlow list \<Rightarrow> cronJob list \<Rightarrow> cronJob list" where
  "mergeFlowCronsIntoConfig flows js =
     js @ map (\<lambda>f. \<lparr>cj_id = cf_name f, cj_schedule = trim_space (cf_cron f), cj_flow = cf_name f, cj_max = 0\<rparr>)
       (filter (\<lambda>f. cf_trigger f = ''cron'' \<and> trim_space (cf_cron f) \<noteq> [] \<and> cf_name f \<notin> cj_id ` set js) flows)"

definition findCronJob :: "cronJob list \<Rightarrow> string \<Rightarrow> cronJob option" where
  "findCronJob js i = find (\<lambda>j. cj_id j = i) js"

section \<open>The tick\<close>

record cronDB =
  persisted :: "string \<rightharpoonup> int"
  queued :: jobTable

record faults =
  readFails :: "string \<Rightarrow> bool"
  enqueueFails :: "string \<Rightarrow> bool"
  persistFails :: "string \<Rightarrow> bool"

text \<open>What a tick takes from outside: float fractions, the zone, the payload's text and the random bytes of each
  job's token.\<close>

record surroundings =
  su_fraction :: "int \<Rightarrow> nat \<Rightarrow> int \<Rightarrow> int"
  su_zone :: "int \<Rightarrow> int"
  su_payload :: "cronJob \<Rightarrow> int \<Rightarrow> string"
  su_random :: "string \<Rightarrow> char \<times> string"

definition minuteOf :: "int \<Rightarrow> int" where
  "minuteOf t = t - t mod (60 * nsPerSecond)"

definition enqueueFire :: "surroundings \<Rightarrow> int \<Rightarrow> cronJob \<Rightarrow> jobTable \<Rightarrow> enqueued \<times> jobTable" where
  "enqueueFire su now j q =
     (let stamp = minuteOf now in
      EnqueueCronJob now (cj_id j) (cronUniqueKey (cj_id j) stamp) (Some (su_payload su j stamp)) (Some stamp) (cronMaxAttempts j)
        (fst (su_random su (cj_id j)) # snd (su_random su (cj_id j))) q)"

definition refreshed :: "faults \<Rightarrow> cronDB \<Rightarrow> string \<Rightarrow> (string \<rightharpoonup> int) \<Rightarrow> (string \<rightharpoonup> int)" where
  "refreshed fl db i lastFire =
     (case persisted db i of
        Some t \<Rightarrow> if \<not> readFails fl i \<and> (case lastFire i of None \<Rightarrow> True | Some l \<Rightarrow> l < t) then lastFire(i \<mapsto> t) else lastFire
      | None \<Rightarrow> lastFire)"

definition tickJob :: "surroundings \<Rightarrow> faults \<Rightarrow> int \<Rightarrow> cronJob \<Rightarrow> (string \<rightharpoonup> int) \<times> cronDB \<Rightarrow> (string \<rightharpoonup> int) \<times> cronDB" where
  "tickJob su fl now j s =
     (case s of (mem, db) \<Rightarrow>
      let mem' = refreshed fl db (cj_id j) mem in
      if \<not> cronShouldFire (su_fraction su) (su_zone su) (cj_schedule j) now (mem' (cj_id j)) then (mem', db)
      else if enqueueFails fl (cj_id j) then (mem', db)
      else case enqueueFire su now j (queued db) of
          (Queued _ _, q) \<Rightarrow>
            (mem'(cj_id j \<mapsto> minuteOf now),
             \<lparr>persisted = (if persistFails fl (cj_id j) then persisted db else (persisted db)(cj_id j \<mapsto> minuteOf now)), queued = q\<rparr>)
        | (_, q) \<Rightarrow> (mem', db\<lparr>queued := q\<rparr>))"

definition tick :: "surroundings \<Rightarrow> faults \<Rightarrow> int \<Rightarrow> cronJob list \<Rightarrow> (string \<rightharpoonup> int) \<times> cronDB \<Rightarrow> (string \<rightharpoonup> int) \<times> cronDB" where
  "tick su fl now js s = fold (tickJob su fl now) js s"

text \<open>A scheduler's map when it starts.\<close>

definition newCronState :: "bool \<Rightarrow> cronDB \<Rightarrow> (string \<rightharpoonup> int)" where
  "newCronState unreadable db = (if unreadable then (\<lambda>_. None) else persisted db)"

section \<open>Fields\<close>

lemma split_at_one_part: "split_at d s = [v] \<Longrightarrow> v = s \<and> d \<notin> set s"
  by (induction d s arbitrary: v rule: split_at.induct) (auto split: list.splits if_splits)

lemma split_at_pair: "split_at d s = [a, b] \<Longrightarrow> cut_at d s = Some (a, b)"
proof (induction d s arbitrary: a b rule: split_at.induct)
  case (2 d c r)
  then show ?case by (auto split: list.splits if_splits dest: split_at_one_part)
qed simp

lemma length_two_cases: "length xs \<le> 2 \<Longrightarrow> xs \<noteq> [] \<Longrightarrow> (\<exists>a. xs = [a]) \<or> (\<exists>a b. xs = [a, b])"
  by (cases xs rule: remdups_adj.cases) (auto simp: le_Suc_eq numeral_2_eq_2)

lemma valid_part_match:
  assumes "length (split_at CHR ''-'' part) \<le> 2" "validValues lo hi (split_at CHR ''-'' part) (- 1)" "0 \<le> lo"
  obtains a b where "lo \<le> a" "a \<le> b" "b \<le> hi" "\<And>v. matchPart v part \<longleftrightarrow> a \<le> v \<and> v \<le> b"
proof -
  consider a where "split_at CHR ''-'' part = [a]" | a b where "split_at CHR ''-'' part = [a, b]"
    using length_two_cases [OF assms(1)] by auto
  then show ?thesis
  proof cases
    case (1 a)
    then have "a = part" "CHR ''-'' \<notin> set part" by (auto dest: split_at_one_part)
    moreover from this obtain n where "atoi part = Some n" "lo \<le> n" "n \<le> hi"
      using assms(2) 1 by (auto split: option.splits if_splits)
    ultimately show ?thesis
      by (intro that [of n n]) (auto simp: matchPart_def cut_at_None [THEN iffD2])
  next
    case (2 a b)
    then have cut: "cut_at CHR ''-'' part = Some (a, b)" by (rule split_at_pair)
    from assms(2) 2 obtain m n where "atoi a = Some m" "atoi b = Some n" "lo \<le> m" "m \<le> n" "n \<le> hi"
      by (auto split: option.splits if_splits)
    then show ?thesis by (intro that [of m n]) (auto simp: matchPart_def cut)
  qed
qed

text \<open>A field the validator accepts is satisfiable: it matches a value of its range, and so does every
  element of its list.\<close>

theorem validated_field_matches:
  assumes "validField (lo, hi) field" "0 \<le> lo" "lo \<le> hi"
  shows "(\<exists>v. lo \<le> v \<and> v \<le> hi \<and> cronMatch field v lo hi) \<and>
    (field \<noteq> ''*'' \<and> \<not> prefix ''*/'' field \<longrightarrow>
       (\<forall>part \<in> set (split_at CHR '','' field). \<exists>v. lo \<le> v \<and> v \<le> hi \<and> matchPart v part))"
proof -
  have star: "field = ''*'' \<Longrightarrow> cronMatch field lo lo hi" by (simp add: cronMatch_def)
  have step: "field \<noteq> ''*'' \<Longrightarrow> prefix ''*/'' field \<Longrightarrow> cronMatch field lo lo hi"
    using assms(1) by (auto simp: cronMatch_def validField_def split: option.splits)
  have parts: "\<forall>part \<in> set (split_at CHR '','' field). \<exists>v. lo \<le> v \<and> v \<le> hi \<and> matchPart v part"
    if "field \<noteq> ''*''" "\<not> prefix ''*/'' field"
  proof
    fix part assume "part \<in> set (split_at CHR '','' field)"
    then have "length (split_at CHR ''-'' part) \<le> 2" "validValues lo hi (split_at CHR ''-'' part) (- 1)"
      using assms(1) that by (auto simp: validField_def Let_def list_all_iff)
    from valid_part_match [OF this assms(2)] obtain a b where "lo \<le> a" "a \<le> b" "b \<le> hi" "\<And>v. matchPart v part \<longleftrightarrow> a \<le> v \<and> v \<le> b"
      by metis
    then show "\<exists>v. lo \<le> v \<and> v \<le> hi \<and> matchPart v part" by (intro exI [of _ a]) simp
  qed
  have hd: "hd (split_at CHR '','' field) \<in> set (split_at CHR '','' field)" by simp
  have list: "\<exists>v. lo \<le> v \<and> v \<le> hi \<and> cronMatch field v lo hi" if plain: "field \<noteq> ''*''" "\<not> prefix ''*/'' field"
  proof -
    obtain v where "lo \<le> v" "v \<le> hi" "matchPart v (hd (split_at CHR '','' field))" using bspec [OF parts [OF plain] hd] by blast
    then show ?thesis using hd plain by (intro exI [of _ v]) (auto simp: cronMatch_def list_ex_iff)
  qed
  show ?thesis using star step list parts assms(3) by blast
qed

section \<open>Keys\<close>

lemma space_len_plain: "\<not> space_byte c \<Longrightarrow> (\<forall>w \<in> set ws. w \<noteq> [] \<and> (\<forall>b \<in> set w. 128 \<le> byte b)) \<Longrightarrow> space_len ws (c # r) = 0"
  by (auto simp: space_byte_def find_None_iff prefix_Cons split: option.splits)
    (auto simp: find_Some_iff prefix_Cons, (metis list.set_intros(1) neq_Nil_conv nth_mem)+)

lemma trim_plain_ends:
  assumes "\<not> space_byte c" "\<not> space_byte d"
  shows "trim_space (c # s @ [d]) = c # s @ [d]"
proof -
  have "\<forall>w \<in> set wide_spaces. w \<noteq> [] \<and> (\<forall>b \<in> set w. 128 \<le> byte b)" using wide_spaces_bytes wide_nonempty by blast
  moreover from this have "\<forall>w \<in> set (map rev wide_spaces). w \<noteq> [] \<and> (\<forall>b \<in> set w. 128 \<le> byte b)" by auto
  ultimately have "space_len wide_spaces (c # s @ [d]) = 0" "space_len (map rev wide_spaces) (d # rev s @ [c]) = 0"
    using assms by (metis space_len_plain)+
  then show ?thesis by (simp add: trim_space_def trim_left_def trim_right_def trim_by_fixed)
qed

lemma decimal_last: "\<exists>s d. decimal n = s @ [d] \<and> d \<in> set digitChars"
proof -
  have d: "digitChars ! m \<in> set digitChars" if "m < 10" for m :: nat
    using that by (intro nth_mem) (simp add: digitChars_def)
  show ?thesis by (subst decimal.simps) (use d [of n] d [of "n mod 10"] in auto)
qed

lemma padded_last: "\<exists>s d. padded w n = s @ [d] \<and> d \<in> set digitChars"
proof -
  obtain s d where "decimal (nat (- n)) = s @ [d]" "d \<in> set digitChars" using decimal_last by blast
  moreover obtain t e where "decimal (nat n) = t @ [e]" "e \<in> set digitChars" using decimal_last by blast
  ultimately show ?thesis by (auto simp: padded_def)
qed

lemma cronUniqueKey_trim: "trim_space (cronUniqueKey i t) = cronUniqueKey i t \<and> cronUniqueKey i t \<noteq> []"
proof -
  obtain y m d where date: "dateOf (dayOf t) = (y, m, d)" by (metis prod_cases3)
  obtain s e where "padded 2 (t div (60 * nsPerSecond) mod 60) = s @ [e]" "e \<in> set digitChars" using padded_last by blast
  moreover from this have "\<not> space_byte e" by (auto simp: digitChars_def space_byte_def ascii_space_def byte_Char)
  moreover have "\<not> space_byte CHR ''c''" by (simp add: space_byte_def ascii_space_def byte_Char)
  ultimately show ?thesis
    using trim_plain_ends [of "CHR ''c''" e "''ron:'' @ i @ '':'' @ padded 4 y @ padded 2 m @ padded 2 d @ ''T'' @ padded 2 (t div nsPerHour mod 24) @ s"]
    by (simp add: cronUniqueKey_def minuteText_def date)
qed

section \<open>The store of fires\<close>

text \<open>What the scheduler relies on in the queue: an enqueued request is there afterwards, stays there whatever
  else is enqueued, and enqueueing it again changes nothing.\<close>

locale fire_store =
  fixes put :: "'k \<Rightarrow> 'q \<Rightarrow> 'q" and present :: "'k \<Rightarrow> 'q \<Rightarrow> bool" and ok :: "'q \<Rightarrow> bool"
  assumes put_ok: "ok q \<Longrightarrow> ok (put k q)"
    and put_present: "ok q \<Longrightarrow> present k (put k q)"
    and present_stays: "present k q \<Longrightarrow> present k (put k' q)"
    and put_again: "ok q \<Longrightarrow> present k q \<Longrightarrow> put k q = q"
begin

lemma fold_ok: "ok q \<Longrightarrow> ok (fold put ks q)"
  by (induction ks arbitrary: q) (auto intro: put_ok)

lemma fold_stays: "present k q \<Longrightarrow> present k (fold put ks q)"
  by (induction ks arbitrary: q) (auto intro: present_stays)

lemma fold_present: "ok q \<Longrightarrow> k \<in> set ks \<Longrightarrow> present k (fold put ks q)"
  by (induction ks arbitrary: q) (auto intro: put_ok put_present fold_stays)

lemma replay: "ok q \<Longrightarrow> set ks \<subseteq> set done_ks \<Longrightarrow> fold put ks (fold put done_ks q) = fold put done_ks q"
proof (induction ks)
  case (Cons k ks)
  then have "put k (fold put done_ks q) = fold put done_ks q" by (intro put_again fold_ok fold_present) auto
  with Cons show ?case by simp
qed simp

end

definition tokensOk :: "jobTable \<Rightarrow> bool" where
  "tokensOk q \<longleftrightarrow> (\<forall>j \<in> set (jobs q). jb_token j \<noteq> []) \<and> uniqueActive (jobs q)"

definition keyed :: "string \<Rightarrow> jobTable \<Rightarrow> bool" where
  "keyed k q \<longleftrightarrow> (\<exists>j \<in> set (jobs q). jb_key j = Some k)"

text \<open>Enqueueing a fire, in one case distinction.\<close>

lemma find_keyed: "tokensOk q \<Longrightarrow> findJobByUniqueKey q k True = None \<longleftrightarrow> \<not> keyed k q"
  by (force simp: findJobByUniqueKey_def keyed_def tokensOk_def newestJob_None filter_empty_conv dest: newestJob_in
      split: option.splits)

lemma enqueueFire_cases:
  assumes "tokensOk q"
  obtains (old) i t where "keyed (cronUniqueKey (cj_id j) (minuteOf now)) q" "enqueueFire su now j q = (Queued i t, q)"
  | (new) i t r where "\<not> keyed (cronUniqueKey (cj_id j) (minuteOf now)) q" "r \<noteq> []"
      "enqueueFire su now j q = (Queued i t, q\<lparr>jobs := jobs q @ [newJob q now ''cron'' (cronUniqueKey (cj_id j) (minuteOf now)) (cj_id j)
         (su_payload su j (minuteOf now)) (Some (minuteOf now)) \<lparr>maxAttempts = cronMaxAttempts j, dedupAnyStatus = True\<rparr> r],
         lastId := lastId q + 1\<rparr>)"
proof (cases "keyed (cronUniqueKey (cj_id j) (minuteOf now)) q")
  case True
  then obtain i t where "findJobByUniqueKey q (cronUniqueKey (cj_id j) (minuteOf now)) True = Some (i, t)"
    using find_keyed [OF assms] by (metis option.exhaust prod.exhaust)
  then have "enqueueFire su now j q = (Queued i t, q)"
    by (simp add: enqueueFire_def EnqueueCronJob_def enqueueTypedJob_def cronUniqueKey_trim Let_def)
  with True show ?thesis by (rule old)
next
  case False
  let ?k = "cronUniqueKey (cj_id j) (minuteOf now)" and ?r = "fst (su_random su (cj_id j)) # snd (su_random su (cj_id j))"
  let ?j = "newJob q now ''cron'' ?k (cj_id j) (su_payload su j (minuteOf now)) (Some (minuteOf now))
    \<lparr>maxAttempts = cronMaxAttempts j, dedupAnyStatus = True\<rparr> ?r"
  have "jb_key ?j \<notin> jb_key ` set (filter indexed (jobs q))"
    using False cronUniqueKey_trim by (auto simp: newJob_def keyed_def)
  then have "uniqueActive (?j # jobs q)" using assms by (simp add: tokensOk_def uniqueActive_def)
  then have ins: "insertJob ?j q = Some (q\<lparr>jobs := jobs q @ [?j], lastId := lastId q + 1\<rparr>)" by (simp add: insertJob_def)
  have "findJobByUniqueKey q ?k True = None" using find_keyed [OF assms] False by blast
  then have "enqueueFire su now j q = (Queued (jb_id ?j) (jb_token ?j), q\<lparr>jobs := jobs q @ [?j], lastId := lastId q + 1\<rparr>)"
    by (simp add: enqueueFire_def EnqueueCronJob_def enqueueTypedJob_def cronUniqueKey_trim Let_def ins)
  with False show ?thesis by (intro new [of ?r]) auto
qed

lemma enqueueFire_ok:
  assumes ok: "tokensOk q"
  shows "tokensOk (snd (enqueueFire su now j q))"
proof (rule enqueueFire_cases [OF ok, where j = j and now = now and su = su])
  let ?k = "cronUniqueKey (cj_id j) (minuteOf now)"
  fix i t r
  let ?j = "newJob q now ''cron'' ?k (cj_id j) (su_payload su j (minuteOf now)) (Some (minuteOf now))
    \<lparr>maxAttempts = cronMaxAttempts j, dedupAnyStatus = True\<rparr> r"
  assume new: "\<not> keyed ?k q" "r \<noteq> []" "enqueueFire su now j q = (Queued i t, q\<lparr>jobs := jobs q @ [?j], lastId := lastId q + 1\<rparr>)"
  then have "uniqueActive (jobs q @ [?j])"
    using ok cronUniqueKey_trim by (auto simp: uniqueActive_def tokensOk_def newJob_def keyed_def)
  with ok new show ?thesis by (auto simp: tokensOk_def newJob_def token_nonempty)
qed (simp add: ok)

lemma enqueueFire_keyed: "tokensOk q \<Longrightarrow> keyed (cronUniqueKey (cj_id j) (minuteOf now)) (snd (enqueueFire su now j q))"
  by (cases rule: enqueueFire_cases [of q j now su]) (auto simp: keyed_def newJob_def cronUniqueKey_trim)

lemma enqueueTypedJob_keeps: "keyed k q \<Longrightarrow> keyed k (snd (enqueueTypedJob now ty key fl data ra opts tx rnd q))"
  by (auto simp: enqueueTypedJob_def Let_def insertJob_def keyed_def split: option.splits)

lemma enqueueFire_keeps: "keyed k q \<Longrightarrow> keyed k (snd (enqueueFire su now j q))"
  by (simp add: enqueueFire_def Let_def EnqueueCronJob_def enqueueTypedJob_keeps)

lemma enqueueFire_again:
  "tokensOk q \<Longrightarrow> keyed (cronUniqueKey (cj_id j) (minuteOf now)) q \<Longrightarrow> snd (enqueueFire su now j q) = q"
  by (cases rule: enqueueFire_cases [of q j now su]) auto

interpretation fires: fire_store "\<lambda>(su, now, j) q. snd (enqueueFire su now j q)"
  "\<lambda>(su, now, j). keyed (cronUniqueKey (cj_id j) (minuteOf now))" tokensOk
  by unfold_locales (auto simp: enqueueFire_ok enqueueFire_keyed enqueueFire_keeps enqueueFire_again)

text \<open>A scheduler that dies between enqueueing its fires and recording them, and enqueues any of them again in the same
  minute after its restart, adds no row.\<close>

theorem restart_enqueues_nothing:
  assumes "tokensOk q" "set again \<subseteq> set fired"
  shows "fold (\<lambda>(su, now, j) q. snd (enqueueFire su now j q)) again
      (fold (\<lambda>(su, now, j) q. snd (enqueueFire su now j q)) fired q) =
    fold (\<lambda>(su, now, j) q. snd (enqueueFire su now j q)) fired q"
  by (rule fires.replay [OF assms])

section \<open>Runs of schedulers and workers\<close>

text \<open>What happens on one database: ticks of any schedulers, whatever their maps hold and whatever fails,
  jobs of other types being queued, and everything workers, sweeps and retries do to queued jobs. Pruning is left out:
  it removes completed rows a week after their minute.\<close>

inductive cronRun :: "jobEnv \<Rightarrow> cronDB \<Rightarrow> bool" for e :: jobEnv where
  start: "cronRun e \<lparr>persisted = p, queued = emptyJobs\<rparr>"
| ticked: "cronRun e db \<Longrightarrow> cronRun e (snd (tick su fl now js (mem, db)))"
| other: "cronRun e db \<Longrightarrow> jobType \<noteq> ''cron'' \<Longrightarrow> rnd \<noteq> [] \<Longrightarrow>
    insertJob (newJob (queued db) now jobType key flowName payload runAt opts rnd) (queued db) = Some q \<Longrightarrow> cronRun e (db\<lparr>queued := q\<rparr>)"
| claimed: "cronRun e db \<Longrightarrow> cronRun e (db\<lparr>queued := snd (claimNextJob (env_reader e) ttl now (queued db))\<rparr>)"
| finished: "cronRun e db \<Longrightarrow> cronRun e (db\<lparr>queued := finishJob i a m out now (queued db)\<rparr>)"
| beaten: "cronRun e db \<Longrightarrow> cronRun e (db\<lparr>queued := heartbeat i ttl now (queued db)\<rparr>)"
| recovered: "cronRun e db \<Longrightarrow>
    cronRun e (db\<lparr>queued := jobsRecoverOrphanedJobs (env_reader e) (env_safe e) (env_idempotent e) now (queued db)\<rparr>)"
| retried: "cronRun e db \<Longrightarrow> cronRun e (db\<lparr>queued := snd (adminRetry (env_reader e) i now (queued db))\<rparr>)"

definition fireOf :: "string \<Rightarrow> job \<Rightarrow> bool" where
  "fireOf k j \<longleftrightarrow> jb_type j = ''cron'' \<and> jb_key j = Some k"

definition firesOk :: "jobTable \<Rightarrow> bool" where
  "firesOk q \<longleftrightarrow> tokensOk q \<and> (\<forall>k. length (filter (fireOf k) (jobs q)) \<le> 1)"

definition labelled :: "(job \<Rightarrow> job) \<Rightarrow> job \<Rightarrow> bool" where
  "labelled g j \<longleftrightarrow> jb_key (g j) = jb_key j \<and> jb_type (g j) = jb_type j \<and> jb_token (g j) = jb_token j"

lemma firesOk_map:
  assumes "firesOk q" "\<And>j. labelled g j" "uniqueActive (map g (jobs q))"
  shows "firesOk (q\<lparr>jobs := map g (jobs q)\<rparr>)"
proof -
  have "fireOf k \<circ> g = fireOf k" for k using assms(2) by (auto simp: fireOf_def labelled_def)
  then have "filter (fireOf k) (map g (jobs q)) = map g (filter (fireOf k) (jobs q))" for k by (simp add: filter_map)
  then show ?thesis using assms by (auto simp: firesOk_def tokensOk_def labelled_def)
qed

lemma firesOk_still_active:
  assumes "firesOk q" "\<And>j. labelled g j \<and> (activeJob (g j) \<longrightarrow> activeJob j)"
  shows "firesOk (q\<lparr>jobs := map g (jobs q)\<rparr>)"
  using assms by (intro firesOk_map uniqueActive_map) (auto simp: labelled_def indexed_def firesOk_def tokensOk_def)

lemmas job_writes = labelled_def activeJob_def startJob_def completeJob_def failJob_def retryJob_def requeueJob_def abandonJob_def

lemma firesOk_change:
  assumes "firesOk q" "\<And>j. P j \<Longrightarrow> labelled f j \<and> (activeJob (f j) \<longrightarrow> activeJob j)"
  shows "firesOk (changeJob P f q)"
  unfolding changeJob_jobs using assms by (intro firesOk_still_active) (auto simp: labelled_def)

lemma firesOk_fire: "firesOk q \<Longrightarrow> firesOk (snd (enqueueFire su now j q))"
proof (rule enqueueFire_cases [of q j now su])
  assume ok: "firesOk q"
  then show "tokensOk q" by (simp add: firesOk_def)
  let ?k = "cronUniqueKey (cj_id j) (minuteOf now)"
  fix i t r
  let ?j = "newJob q now ''cron'' ?k (cj_id j) (su_payload su j (minuteOf now)) (Some (minuteOf now))
    \<lparr>maxAttempts = cronMaxAttempts j, dedupAnyStatus = True\<rparr> r"
  assume new: "\<not> keyed ?k q" "r \<noteq> []" "enqueueFire su now j q = (Queued i t, q\<lparr>jobs := jobs q @ [?j], lastId := lastId q + 1\<rparr>)"
  have "filter (fireOf ?k) (jobs q) = []" using new(1) by (auto simp: filter_empty_conv fireOf_def keyed_def)
  moreover have "fireOf k ?j \<longleftrightarrow> k = ?k" for k using cronUniqueKey_trim by (auto simp: fireOf_def newJob_def)
  ultimately have "length (filter (fireOf k) (jobs q @ [?j])) \<le> 1" for k using ok by (simp add: firesOk_def)
  moreover have "tokensOk (snd (enqueueFire su now j q))" using enqueueFire_ok ok by (simp add: firesOk_def)
  ultimately show ?thesis by (simp add: firesOk_def new(3))
qed simp_all

lemma firesOk_tickJob: "firesOk (queued (snd s)) \<Longrightarrow> firesOk (queued (snd (tickJob su fl now j s)))"
  using firesOk_fire [of "queued (snd s)" su now j]
  by (auto simp: tickJob_def Let_def split: prod.splits enqueued.splits)

lemma firesOk_tick: "firesOk (queued (snd s)) \<Longrightarrow> firesOk (queued (snd (tick su fl now js s)))"
  unfolding tick_def by (induction js arbitrary: s) (simp_all add: firesOk_tickJob)

lemma run_fires: "cronRun e db \<Longrightarrow> firesOk (queued db)"
proof (induction rule: cronRun.induct)
  case (start p)
  then show ?case by (simp add: firesOk_def tokensOk_def emptyJobs_def uniqueActive_def)
next
  case (ticked db su fl now js mem)
  then show ?case using firesOk_tick [of "(mem, db)"] by simp
next
  case (other db jobType rnd now key flowName payload runAt opts q)
  let ?j = "newJob (queued db) now jobType key flowName payload runAt opts rnd"
  have q: "q = queued db\<lparr>jobs := jobs (queued db) @ [?j], lastId := lastId (queued db) + 1\<rparr>" "uniqueActive (?j # jobs (queued db))"
    using other by (simp_all add: insertJob_def split: if_splits)
  then have "uniqueActive (jobs (queued db) @ [?j])" by (auto simp: uniqueActive_def split: if_splits)
  moreover have "\<not> fireOf k ?j" for k using other by (simp add: fireOf_def newJob_def)
  moreover have "jb_token ?j \<noteq> []" using other by (simp add: newJob_def token_nonempty)
  ultimately show ?case using other q by (auto simp: firesOk_def tokensOk_def)
next
  case (claimed db ttl now)
  then show ?case by (auto simp: claimNextJob_def job_writes split: option.splits intro!: firesOk_change)
next
  case (finished db i a m out now)
  then show ?case by (cases out) (auto simp: finishJob_def job_writes heldBy_def intro!: firesOk_change)
next
  case (beaten db i ttl now)
  then show ?case by (auto simp: heartbeat_def job_writes intro!: firesOk_change)
next
  case (recovered db now)
  then show ?case
    unfolding recover_map by (auto simp: recoverOne_def job_writes leaseExpired_def intro!: firesOk_still_active)
next
  case (retried db i now)
  then show ?case
    by (auto simp: adminRetry_def Let_def changeJob_jobs labelled_def intro!: firesOk_map)
qed


section \<open>A due job is queued\<close>

lemma tickJob_id:
  "cj_id k \<noteq> i \<Longrightarrow> fst (tickJob su fl now k (mem, db)) i = mem i \<and> persisted (snd (tickJob su fl now k (mem, db))) i = persisted db i"
  by (auto simp: tickJob_def refreshed_def Let_def split: prod.splits option.splits enqueued.splits)

lemma tickJob_queue:
  "queued (snd (tickJob su fl now k (mem, db))) = queued db \<or>
   queued (snd (tickJob su fl now k (mem, db))) = snd (enqueueFire su now k (queued db))"
  by (cases "enqueueFire su now k (queued db)") (auto simp: tickJob_def Let_def split: enqueued.splits)

lemma tick_id:
  "i \<notin> cj_id ` set ks \<Longrightarrow> fst (tick su fl now ks (mem, db)) i = mem i \<and> persisted (snd (tick su fl now ks (mem, db))) i = persisted db i"
proof (induction ks arbitrary: mem db)
  case (Cons k ks)
  obtain mem' db' where s: "tickJob su fl now k (mem, db) = (mem', db')" by (metis surj_pair)
  then have "mem' i = mem i" "persisted db' i = persisted db i" using tickJob_id [of k i su fl now mem db] Cons.prems by auto
  with Cons s show ?case by (simp add: tick_def)
qed (simp add: tick_def)

lemma tick_queue:
  "tokensOk (queued db) \<Longrightarrow> tokensOk (queued (snd (tick su fl now ks (mem, db)))) \<and>
    (keyed key (queued db) \<longrightarrow> keyed key (queued (snd (tick su fl now ks (mem, db)))))"
proof (induction ks arbitrary: mem db)
  case (Cons k ks)
  obtain mem' db' where s: "tickJob su fl now k (mem, db) = (mem', db')" by (metis surj_pair)
  then have "queued db' = queued db \<or> queued db' = snd (enqueueFire su now k (queued db))"
    using tickJob_queue [of su fl now k mem db] by simp
  then have "tokensOk (queued db')" "keyed key (queued db) \<longrightarrow> keyed key (queued db')"
    using Cons.prems enqueueFire_ok enqueueFire_keeps by metis+
  with Cons.IH [of db' mem'] s show ?case by (simp add: tick_def)
qed (simp add: tick_def)

lemma tickJob_fires:
  assumes "tokensOk (queued db)" "\<not> enqueueFails fl (cj_id j)"
    and "cronShouldFire (su_fraction su) (su_zone su) (cj_schedule j) now (refreshed fl db (cj_id j) mem (cj_id j))"
  shows "keyed (cronUniqueKey (cj_id j) (minuteOf now)) (queued (snd (tickJob su fl now j (mem, db)))) \<and>
    fst (tickJob su fl now j (mem, db)) (cj_id j) = Some (minuteOf now) \<and>
    (persistFails fl (cj_id j) \<or> persisted (snd (tickJob su fl now j (mem, db))) (cj_id j) = Some (minuteOf now))"
proof -
  obtain i t q where fire: "enqueueFire su now j (queued db) = (Queued i t, q)"
    using enqueueFire_cases [OF assms(1)] by metis
  have "keyed (cronUniqueKey (cj_id j) (minuteOf now)) q" using enqueueFire_keyed [OF assms(1), of j now su] fire by simp
  with fire show ?thesis using assms(2,3) by (simp add: tickJob_def Let_def)
qed

text \<open>A tick at which a job is due, by the later of the scheduler's map and the table, leaves a row of
  that job and minute in the queue and remembers the minute, whatever happened to the jobs before and after it.\<close>

theorem due_tick_enqueues:
  assumes "tokensOk (queued db)" "distinct (map cj_id js)" "j \<in> set js" "\<not> enqueueFails fl (cj_id j)"
    and "cronShouldFire (su_fraction su) (su_zone su) (cj_schedule j) now (refreshed fl db (cj_id j) mem (cj_id j))"
  shows "(\<exists>row \<in> set (jobs (queued (snd (tick su fl now js (mem, db))))). jb_key row = Some (cronUniqueKey (cj_id j) (minuteOf now))) \<and>
    fst (tick su fl now js (mem, db)) (cj_id j) = Some (minuteOf now)"
proof -
  obtain xs ys where js: "js = xs @ j # ys" using assms(3) by (auto simp: in_set_conv_decomp)
  then have new: "cj_id j \<notin> cj_id ` set xs" "cj_id j \<notin> cj_id ` set ys" using assms(2) by auto
  obtain m1 db1 where s1: "tick su fl now xs (mem, db) = (m1, db1)" by (metis surj_pair)
  obtain m2 db2 where s2: "tickJob su fl now j (m1, db1) = (m2, db2)" by (metis surj_pair)
  have eq: "tick su fl now js (mem, db) = tick su fl now ys (m2, db2)" using s1 s2 by (simp add: js tick_def)
  have ok1: "tokensOk (queued db1)" using tick_queue [OF assms(1), of su fl now xs mem] s1 by simp
  have "m1 (cj_id j) = mem (cj_id j)" "persisted db1 (cj_id j) = persisted db (cj_id j)" using tick_id [OF new(1)] s1 by (metis fst_conv snd_conv)+
  then have "refreshed fl db1 (cj_id j) m1 (cj_id j) = refreshed fl db (cj_id j) mem (cj_id j)"
    by (simp add: refreshed_def split: option.splits)
  then have fired: "keyed (cronUniqueKey (cj_id j) (minuteOf now)) (queued db2)" "m2 (cj_id j) = Some (minuteOf now)"
    using tickJob_fires [OF ok1 assms(4), of su now m1] assms(5) s2 by simp_all
  have "tokensOk (queued db2)"
    using tickJob_queue [of su fl now j m1 db1] enqueueFire_ok [OF ok1] ok1 s2 by (metis snd_conv)
  from tick_queue [OF this, of su fl now ys m2 "cronUniqueKey (cj_id j) (minuteOf now)"] tick_id [OF new(2), of su fl now m2 db2] fired
  show ?thesis by (simp add: eq keyed_def)
qed

text \<open>An interval job fires exactly when its interval, and at least 55 seconds, have passed since its
  last fire; and once a sibling's fire is recorded, no scheduler fires it again before that.\<close>

lemma every_not_shortcut: "prefix ''every '' e \<Longrightarrow> e \<notin> set shortcuts"
  by (auto simp: shortcuts_def prefix_def)

theorem interval_respected:
  assumes "interval (su_fraction su) (trim_space (cj_schedule j)) = Some d"
  shows "(cronShouldFire (su_fraction su) loc (cj_schedule j) now prev \<longleftrightarrow>
      (\<forall>t. prev = Some t \<longrightarrow> max (55 * nsPerSecond) d \<le> timeSub now t)) \<and>
    (persisted db (cj_id j) = Some t \<and> timeSub now t < d \<and> (\<forall>l. mem (cj_id j) = Some l \<longrightarrow> l \<le> t) \<and> \<not> readFails fl (cj_id j) \<longrightarrow>
      queued (snd (tickJob su fl now j (mem, db))) = queued db)"
proof
  have "prefix ''every '' (trim_space (cj_schedule j))" using assms by (auto simp: interval_def split: if_splits)
  from every_not_shortcut [OF this]
  show fire: "cronShouldFire (su_fraction su) loc (cj_schedule j) now prev \<longleftrightarrow>
      (\<forall>t. prev = Some t \<longrightarrow> max (55 * nsPerSecond) d \<le> timeSub now t)" for loc prev
    by (auto simp: cronShouldFire_def Let_def assms split: option.splits)
  show "persisted db (cj_id j) = Some t \<and> timeSub now t < d \<and> (\<forall>l. mem (cj_id j) = Some l \<longrightarrow> l \<le> t) \<and> \<not> readFails fl (cj_id j) \<longrightarrow>
      queued (snd (tickJob su fl now j (mem, db))) = queued db"
  proof
    assume a: "persisted db (cj_id j) = Some t \<and> timeSub now t < d \<and> (\<forall>l. mem (cj_id j) = Some l \<longrightarrow> l \<le> t) \<and> \<not> readFails fl (cj_id j)"
    then have "refreshed fl db (cj_id j) mem (cj_id j) = Some t" by (auto simp: refreshed_def split: option.splits)
    then have "\<not> cronShouldFire (su_fraction su) (su_zone su) (cj_schedule j) now (refreshed fl db (cj_id j) mem (cj_id j))"
      using a by (auto simp: fire)
    then show "queued (snd (tickJob su fl now j (mem, db))) = queued db" by (simp add: tickJob_def Let_def)
  qed
qed

text \<open>Merging the flows' schedules again adds nothing.\<close>

theorem merge_idempotent:
  "mergeFlowCronsIntoConfig flows (mergeFlowCronsIntoConfig flows js) = mergeFlowCronsIntoConfig flows js"
proof -
  let ?m = "mergeFlowCronsIntoConfig flows js"
  have "cf_name f \<in> cj_id ` set ?m" if "f \<in> set flows" "cf_trigger f = ''cron''" "trim_space (cf_cron f) \<noteq> []" for f
    using that by (cases "cf_name f \<in> cj_id ` set js") (auto simp: mergeFlowCronsIntoConfig_def image_Un image_image)
  then have "filter (\<lambda>f. cf_trigger f = ''cron'' \<and> trim_space (cf_cron f) \<noteq> [] \<and> cf_name f \<notin> cj_id ` set ?m) flows = []"
    by (auto simp: filter_empty_conv)
  then show ?thesis unfolding mergeFlowCronsIntoConfig_def [of flows ?m] by simp
qed

section \<open>Where the scheduler is not cron\<close>

text \<open>A day of the month and a day of the week are both required, where cron asks for either; and a minute
  whose job has fired at its start matches again 55 seconds into it.\<close>

theorem day_and_weekday_both:
  "fieldsMatch (str_fields ''0 0 1 * 1'') c \<longleftrightarrow> ck_minute c = 0 \<and> ck_hour c = 0 \<and> ck_day c = 1 \<and> ck_weekday c = 1"
proof -
  have "str_fields ''0 0 1 * 1'' = [''0'', ''0'', ''1'', ''*'', ''1'']" by (simp add: go_eval)
  moreover have "cronMatch ''0'' v lo hi \<longleftrightarrow> v = 0" "cronMatch ''1'' v lo hi \<longleftrightarrow> v = 1" "cronMatch ''*'' v lo hi" for v lo hi
    by (auto simp: cronMatch_def matchPart_def atoi_def number_def digitVal_def is_digit_def byte_Char)
  ultimately show ?thesis by (simp add: fieldsMatch_def cronBounds_def)
qed

theorem minute_matches_again:
  "cronShouldFire fr loc ''* * * * *'' (55 * nsPerSecond) (Some 0) \<and> minuteOf (55 * nsPerSecond) = 0"
proof -
  have "trim_space ''* * * * *'' = ''* * * * *''" "str_fields ''* * * * *'' = [''*'', ''*'', ''*'', ''*'', ''*'']"
    by (simp_all add: go_eval)
  then show ?thesis
    by (simp add: cronShouldFire_def Let_def interval_def shortcuts_def fieldsMatch_def cronBounds_def cronMatch_def timeSub_def
        nsPerSecond_def minuteOf_def)
qed

section \<open>Witnesses\<close>

definition exCron :: cronJob where
  "exCron = \<lparr>cj_id = ''sync'', cj_schedule = ''every 15m'', cj_flow = ''f'', cj_max = 0\<rparr>"

definition exSurroundings :: surroundings where
  "exSurroundings = \<lparr>su_fraction = (\<lambda>_ _ _. 0), su_zone = (\<lambda>_. 0), su_payload = (\<lambda>_ _. []), su_random = (\<lambda>_. (CHR ''a'', []))\<rparr>"

definition noFaults :: faults where
  "noFaults = \<lparr>readFails = (\<lambda>_. False), enqueueFails = (\<lambda>_. False), persistFails = (\<lambda>_. False)\<rparr>"

definition exDB :: cronDB where
  "exDB = \<lparr>persisted = (\<lambda>_. None), queued = emptyJobs\<rparr>"

lemma ex_interval: "interval fr (trim_space (cj_schedule exCron)) = Some (15 * 60 * nsPerSecond)"
proof -
  have "trim_space ''every 15m'' = ''every 15m''" by (simp add: go_eval)
  then show ?thesis
    using parseDuration_minutes by (simp add: interval_def exCron_def trim_prefix_def nsPerSecond_def)
qed

lemma ex_tokens: "tokensOk emptyJobs"
  by (simp add: tokensOk_def emptyJobs_def uniqueActive_def)

theorem validated_field_matches_witness:
  "\<exists>v. 0 \<le> v \<and> v \<le> 59 \<and> cronMatch ''*/7'' v 0 59"
  using validated_field_matches [of 0 59 "''*/7''"]
  by (simp add: validField_def atoi_def number_def digitVal_def is_digit_def byte_Char)

theorem restart_enqueues_nothing_witness:
  "snd (enqueueFire exSurroundings 0 exCron (snd (enqueueFire exSurroundings 0 exCron emptyJobs))) =
    snd (enqueueFire exSurroundings 0 exCron emptyJobs)"
  using restart_enqueues_nothing [OF ex_tokens, of "[(exSurroundings, 0, exCron)]" "[(exSurroundings, 0, exCron)]"] by simp


theorem due_tick_enqueues_witness:
  "\<exists>row \<in> set (jobs (queued (snd (tick exSurroundings noFaults 0 [exCron] (\<lambda>_. None, exDB))))).
     jb_key row = Some (cronUniqueKey ''sync'' 0)"
proof -
  have "prefix ''every '' (trim_space (cj_schedule exCron))" using ex_interval by (metis interval_def option.distinct(1))
  then have "cronShouldFire fr loc (cj_schedule exCron) 0 None" for fr loc
    using ex_interval every_not_shortcut by (simp add: cronShouldFire_def Let_def)
  then show ?thesis
    using due_tick_enqueues [of exDB "[exCron]" exCron noFaults exSurroundings 0 "\<lambda>_. None"] ex_tokens
    by (simp add: exDB_def noFaults_def refreshed_def) (simp add: exCron_def minuteOf_def)
qed

theorem interval_respected_witness:
  "\<not> cronShouldFire fr loc (cj_schedule exCron) (60 * nsPerSecond) (Some 0)"
proof -
  have "interval (su_fraction (exSurroundings\<lparr>su_fraction := fr\<rparr>)) (trim_space (cj_schedule exCron)) = Some (15 * 60 * nsPerSecond)"
    using ex_interval by simp
  from interval_respected [OF this, where loc = loc and now = "60 * nsPerSecond" and prev = "Some 0" and db = exDB and t = 0 and mem = "\<lambda>_. None" and fl = noFaults]
  show ?thesis by (simp add: timeSub_def nsPerSecond_def)
qed

end
