(* ===== verification/Api_Tokens.thy ===== *)
theory Api_Tokens
  imports Go_Scan Role_Grants Job_Queue
begin

text \<open>
  Persistent API tokens (\<^verbatim>\<open>auth_tokens.go\<close>) and their cap (\<^verbatim>\<open>auth_credential_caps.go\<close>): minting one from
  a login session, the session a token resolves to, revoking it, and the predicates that tell a login from a
  delegated credential. \<open>sha\<close> is SHA-256 and a parameter. A session row stored with \<^verbatim>\<open>is_impersonation = 1\<close> is
  named in \<open>delegated\<close>. Expiry is kept in whole seconds, as the stored RFC 3339 text is; the column
  \<^verbatim>\<open>last_used_at\<close>, which nothing decides on, is left out. A handler's request is what it decodes.
\<close>

section \<open>The table\<close>

record apiToken =
  at_id :: int
  at_user :: int
  at_name :: string
  at_hash :: string
  at_scopes :: string
  at_expires :: "int option"

record credDB = authDB +
  delegated :: "string list"
  tokens :: "apiToken list"
  lastToken :: int

definition hashToken :: "(string \<Rightarrow> string) \<Rightarrow> string \<Rightarrow> string" where
  "hashToken sha token = hexEncode (sha token)"

definition liveToken :: "int \<Rightarrow> apiToken \<Rightarrow> bool" where
  "liveToken now t = (case at_expires t of None \<Rightarrow> True | Some e \<Rightarrow> secOf now < e)"

definition maxAPITokensPerUser :: nat where "maxAPITokensPerUser = 100"

definition liveCount :: "int \<Rightarrow> int \<Rightarrow> apiToken list \<Rightarrow> nat" where
  "liveCount now uid ts = length (filter (\<lambda>t. at_user t = uid \<and> liveToken now t) ts)"

text \<open>One statement: the count, then the insert, which the unique index may refuse.\<close>

datatype 'db inserted = TokenStored 'db | TokenAtCap | TokenConflict

definition insertAPITokenWithinCap ::
    "int \<Rightarrow> 'a credDB_scheme \<Rightarrow> int \<Rightarrow> string \<Rightarrow> string \<Rightarrow> string \<Rightarrow> int option \<Rightarrow> 'a credDB_scheme inserted" where
  "insertAPITokenWithinCap now db userID name tokenHash scopes expiresAt =
     (if \<not> liveCount now userID (tokens db) < maxAPITokensPerUser then TokenAtCap
      else if tokenHash \<in> at_hash ` set (tokens db) then TokenConflict
      else TokenStored (db\<lparr>tokens := tokens db @ [\<lparr>at_id = lastToken db + 1, at_user = userID, at_name = name,
               at_hash = tokenHash, at_scopes = scopes, at_expires = expiresAt\<rparr>],
             lastToken := lastToken db + 1\<rparr>))"

section \<open>The session of a token\<close>

definition tokenAlive :: "int \<Rightarrow> apiToken \<Rightarrow> bool" where
  "tokenAlive now t = (case at_expires t of None \<Rightarrow> True | Some e \<Rightarrow> now < e * nsPerSecond)"

definition GetSessionFromAPIToken :: "(string \<Rightarrow> string) \<Rightarrow> int \<Rightarrow> 'a credDB_scheme \<Rightarrow> string \<Rightarrow> principal option" where
  "GetSessionFromAPIToken sha now db rawToken =
     (let tokenHash = hashToken sha rawToken in
      case find (\<lambda>t. at_hash t = tokenHash) (tokens db) of
        None \<Rightarrow> None
      | Some t \<Rightarrow>
        if \<not> tokenAlive now t then None
        else case find (\<lambda>u. u_id u = at_user t \<and> \<not> u_pwChange u) (accounts db) of
          None \<Rightarrow> None
        | Some u \<Rightarrow>
          if u_deactivated u then None
          else Some \<lparr>Scopes = at_scopes t, CredentialScopes = at_scopes t, accessTables = (\<lambda>_. False),
            SessionID = ''apitoken:'' @ take 16 tokenHash, UserID = at_user t, Email = u_email u, GroupID = [],
            Role = u_role u, HeldRoles = LoadSessionRoles (grants db) now (at_user t) (u_role u) [],
            Verified = u_verified u, EmailGrandfathered = u_grandfathered u, ActingAsGroup = [],
            GlobalAdmin = (u_role u = ''admin'' \<or> UserHasGlobalAdminGrant (grants db) now (at_user t)),
            connectorGrant = False\<rparr>)"

section \<open>Logins and delegated sessions\<close>

definition credentialManagementSession :: "'a credDB_scheme \<Rightarrow> principal option \<Rightarrow> bool" where
  "credentialManagementSession db s =
     (case s of None \<Rightarrow> False
      | Some p \<Rightarrow>
        if ActingAsGroup p \<noteq> [] \<or> prefix ''apitoken:'' (SessionID p) \<or> prefix ''edge:'' (SessionID p) then False
        else list_ex (\<lambda>row. sr_id row = SessionID p \<and> sr_user row = UserID p \<and> sr_id row \<notin> set (delegated db)) (sessions db))"

definition directLoginSession :: "'a credDB_scheme \<Rightarrow> principal option \<Rightarrow> bool" where
  "directLoginSession db s \<longleftrightarrow>
     credentialManagementSession db s \<and>
     (case s of None \<Rightarrow> False
      | Some p \<Rightarrow> list_ex (\<lambda>row. sr_id row = SessionID p \<and> (sr_scopes row = [] \<or> sr_scopes row = ''*'')) (sessions db))"

text \<open>\<open>impersonator\<close> is the session's field of that name, 0 when nobody impersonates.\<close>

definition delegatedIdentitySession :: "'a credDB_scheme \<Rightarrow> int \<Rightarrow> principal option \<Rightarrow> bool" where
  "delegatedIdentitySession db impersonator s =
     (case s of None \<Rightarrow> False
      | Some p \<Rightarrow>
        if impersonator \<noteq> 0 then True
        else if prefix ''apitoken:'' (SessionID p) \<or> prefix ''edge:'' (SessionID p) then False
        else list_ex (\<lambda>row. sr_id row = SessionID p \<and> sr_id row \<in> set (delegated db)) (sessions db))"

definition requireOwnAccountManagement :: "'a credDB_scheme \<Rightarrow> int \<Rightarrow> principal option \<Rightarrow> bool" where
  "requireOwnAccountManagement db impersonator s \<longleftrightarrow>
     accountManagementSession s \<and> \<not> delegatedIdentitySession db impersonator s"

section \<open>Expiry texts\<close>

text \<open>\<open>Sscanf\<close> with a number and a letter behind it.\<close>

definition sscanfIntThen :: "char \<Rightarrow> string \<Rightarrow> int option" where
  "sscanfIntThen c s =
     (case scanSkip s of None \<Rightarrow> None
      | Some r \<Rightarrow>
        let signed = prefix ''-'' r \<or> prefix ''+'' r; ds = (if signed then tl r else r) in
        case sscanfInt s of None \<Rightarrow> None
        | Some n \<Rightarrow> if prefix [c] (dropWhile is_digit ds) then Some n else None)"

definition dayNs :: int where "dayNs = 24 * 3600 * nsPerSecond"

definition parseTokenExpiry :: "string \<Rightarrow> int" where
  "parseTokenExpiry s0 =
     (let s = trim_space (to_lower s0);
          days = (if suffix ''d'' s then sscanfIntThen CHR ''d'' s else None);
          years = (if suffix ''y'' s then sscanfIntThen CHR ''y'' s else None) in
      case days of
        Some d \<Rightarrow> if 0 < d \<and> d \<le> 365 then d * dayNs
                  else (case years of Some y \<Rightarrow> if 0 < y \<and> y \<le> 5 then y * 365 * dayNs else 0 | None \<Rightarrow> 0)
      | None \<Rightarrow> (case years of Some y \<Rightarrow> if 0 < y \<and> y \<le> 5 then y * 365 * dayNs else 0 | None \<Rightarrow> 0))"

section \<open>The handlers\<close>

record tokenRequest =
  tq_disabled :: bool
  tq_session :: "principal option"
  tq_csrf :: bool
  tq_body :: "(string \<times> string \<times> string) option"

datatype tokenAnswer = TokenRefused nat | TokenMinted string

definition handleCreateAPIToken ::
    "(string \<Rightarrow> string) \<Rightarrow> string \<Rightarrow> int \<Rightarrow> tokenRequest \<Rightarrow> 'a credDB_scheme \<Rightarrow> tokenAnswer \<times> 'a credDB_scheme" where
  "handleCreateAPIToken sha rnd now q db =
     (if tq_disabled q then (TokenRefused 404, db)
      else case tq_session q of
        None \<Rightarrow> (TokenRefused 401, db)
      | Some p \<Rightarrow>
        if \<not> credentialManagementSession db (Some p) then (TokenRefused 403, db)
        else if \<not> tq_csrf q then (TokenRefused 403, db)
        else case tq_body q of
          None \<Rightarrow> (TokenRefused 400, db)
        | Some (name, scopes, expiresIn) \<Rightarrow>
          if name = [] \<or> scopes = [] \<or> validateScopes scopes \<noteq> None then (TokenRefused 400, db)
          else if \<not> scopesWithin (Scopes p) scopes then (TokenRefused 403, db)
          else
            let rawToken = ''bmr_'' @ generateToken rnd; dur = parseTokenExpiry expiresIn in
            if expiresIn \<noteq> [] \<and> dur = 0 then (TokenRefused 400, db)
            else
              let expiresAt = (if expiresIn \<noteq> [] then Some (secOf (now + dur)) else None) in
              case insertAPITokenWithinCap now db (UserID p) name (hashToken sha rawToken) scopes expiresAt of
                TokenStored db' \<Rightarrow> (TokenMinted rawToken, db')
              | TokenAtCap \<Rightarrow> (TokenRefused 409, db)
              | TokenConflict \<Rightarrow> (TokenRefused 500, db))"

text \<open>What the list shows of an account's own tokens, newest first by creation.\<close>

definition handleListAPITokens :: "principal option \<Rightarrow> 'a credDB_scheme \<Rightarrow> nat + (int \<times> string \<times> string \<times> int option) list" where
  "handleListAPITokens s db =
     (case s of None \<Rightarrow> Inl 401
      | Some p \<Rightarrow>
        if \<not> accountManagementSession s then Inl 403
        else Inr (map (\<lambda>t. (at_id t, at_name t, at_scopes t, at_expires t))
               (filter (\<lambda>t. at_user t = UserID p) (rev (tokens db)))))"

text \<open>\<open>isId\<close> is SQLite's comparison of the id column with the path's text.\<close>

definition handleRevokeAPIToken ::
    "(string \<Rightarrow> int \<Rightarrow> bool) \<Rightarrow> int \<Rightarrow> principal option \<Rightarrow> bool \<Rightarrow> string \<Rightarrow> 'a credDB_scheme \<Rightarrow> nat \<times> 'a credDB_scheme" where
  "handleRevokeAPIToken isId impersonator s csrf i db =
     (case s of None \<Rightarrow> (401, db)
      | Some p \<Rightarrow>
        if \<not> requireOwnAccountManagement db impersonator s then (403, db)
        else if \<not> csrf then (403, db)
        else if i = [] then (400, db)
        else let keep = filter (\<lambda>t. \<not> (isId i (at_id t) \<and> at_user t = UserID p)) (tokens db) in
          if length keep = length (tokens db) then (404, db)
          else (200, db\<lparr>tokens := keep\<rparr>))"

section \<open>Runs over the token table\<close>

text \<open>What can happen to the table: a mint, a token issued to an OAuth client, a revocation, and any change of the
  other tables. The clock never goes back.\<close>

inductive tokenRun :: "(string \<Rightarrow> string) \<Rightarrow> (string \<Rightarrow> int \<Rightarrow> bool) \<Rightarrow> int \<Rightarrow> credDB \<Rightarrow> bool" for sha isId where
  empty_table: "tokens db = [] \<Longrightarrow> tokenRun sha isId now db"
| mint: "tokenRun sha isId t db \<Longrightarrow> t \<le> now \<Longrightarrow> handleCreateAPIToken sha rnd now q db = (a, db') \<Longrightarrow> tokenRun sha isId now db'"
| issue: "tokenRun sha isId t db \<Longrightarrow> t \<le> now \<Longrightarrow> insertAPITokenWithinCap now db uid name hash scopes e = TokenStored db' \<Longrightarrow>
     tokenRun sha isId now db'"
| revoke: "tokenRun sha isId t db \<Longrightarrow> t \<le> now \<Longrightarrow> handleRevokeAPIToken isId imp s csrf i db = (st, db') \<Longrightarrow> tokenRun sha isId now db'"
| other: "tokenRun sha isId t db \<Longrightarrow> t \<le> now \<Longrightarrow> tokens db' = tokens db \<Longrightarrow> lastToken db' = lastToken db \<Longrightarrow> tokenRun sha isId now db'"

definition tokensOk :: "int \<Rightarrow> apiToken list \<Rightarrow> bool" where
  "tokensOk now ts \<longleftrightarrow> distinct (map at_hash ts) \<and> (\<forall>uid. liveCount now uid ts \<le> maxAPITokensPerUser)"

lemma secOf_mono: "t \<le> t' \<Longrightarrow> secOf t \<le> secOf t'"
  unfolding secOf_def by (rule zdiv_mono1) simp_all

lemma liveCount_later: "t \<le> now \<Longrightarrow> liveCount now uid ts \<le> liveCount t uid ts"
  unfolding liveCount_def
  by (rule filter_length_mono) (use secOf_mono [of t now] in \<open>auto simp: liveToken_def split: option.splits\<close>)

lemma tokensOk_later: "t \<le> now \<Longrightarrow> tokensOk t ts \<Longrightarrow> tokensOk now ts"
  unfolding tokensOk_def using liveCount_later le_trans by blast

lemma filter_keep_length: "length (filter P (filter Q xs)) \<le> length (filter P xs)"
  by (simp add: filter_filter) (rule filter_length_mono, simp)

lemma tokensOk_filter: "tokensOk now ts \<Longrightarrow> tokensOk now (filter Q ts)"
proof -
  have "liveCount now uid (filter Q ts) \<le> liveCount now uid ts" for uid
    unfolding liveCount_def by (rule filter_keep_length)
  then show "tokensOk now ts \<Longrightarrow> ?thesis"
    unfolding tokensOk_def using le_trans by (blast intro: distinct_map_filter)
qed

lemma tokensOk_insert:
  assumes "insertAPITokenWithinCap now db uid name hash scopes e = TokenStored db'" "tokensOk now (tokens db)"
  shows "tokensOk now (tokens db')"
proof -
  have c: "liveCount now uid (tokens db) < maxAPITokensPerUser" "hash \<notin> at_hash ` set (tokens db)"
    and db': "tokens db' = tokens db @ [\<lparr>at_id = lastToken db + 1, at_user = uid, at_name = name, at_hash = hash, at_scopes = scopes, at_expires = e\<rparr>]"
    using assms(1) by (auto simp: insertAPITokenWithinCap_def split: if_splits)
  have "liveCount now u (tokens db') \<le> maxAPITokensPerUser" for u
    using assms(2) c(1) unfolding tokensOk_def db' liveCount_def by (cases "u = uid") auto
  then show ?thesis using assms(2) c(2) unfolding tokensOk_def db' by simp
qed

lemma create_cases:
  assumes "handleCreateAPIToken sha rnd now q db = (a, db')"
  obtains (refused) "db' = db" "\<And>raw. a \<noteq> TokenMinted raw"
  | (minted) p name scopes expiresIn where
      "tq_session q = Some p" "credentialManagementSession db (Some p)" "tq_csrf q" "tq_body q = Some (name, scopes, expiresIn)"
      "validateScopes scopes = None" "scopesWithin (Scopes p) scopes" "a = TokenMinted (''bmr_'' @ generateToken rnd)"
      "insertAPITokenWithinCap now db (UserID p) name (hashToken sha (''bmr_'' @ generateToken rnd)) scopes
         (if expiresIn \<noteq> [] then Some (secOf (now + parseTokenExpiry expiresIn)) else None) = TokenStored db'"
proof (cases "tq_disabled q \<or> tq_session q = None \<or> tq_body q = None")
  case True
  then show ?thesis using assms refused
    by (cases "tq_session q"; cases "tq_body q") (auto simp: handleCreateAPIToken_def split: if_splits)
next
  case False
  then obtain p name scopes expiresIn where p: "tq_session q = Some p" and b: "tq_body q = Some (name, scopes, expiresIn)" by auto
  note run = assms [unfolded handleCreateAPIToken_def p b Let_def option.case prod.case]
  show ?thesis
  proof (cases "insertAPITokenWithinCap now db (UserID p) name (hashToken sha (''bmr_'' @ generateToken rnd)) scopes
         (if expiresIn \<noteq> [] then Some (secOf (now + parseTokenExpiry expiresIn)) else None)")
    case (TokenStored d)
    show ?thesis
    proof (cases "a = TokenMinted (''bmr_'' @ generateToken rnd)")
      case True
      show ?thesis by (rule minted [OF p _ _ b]) (use run TokenStored True in \<open>auto split: if_splits\<close>)
    next
      case other: False
      show ?thesis by (rule refused) (use run TokenStored other in \<open>auto split: if_splits\<close>)
    qed
  next
    case TokenAtCap
    show ?thesis by (rule refused) (use run TokenAtCap in \<open>auto split: if_splits\<close>)
  next
    case TokenConflict
    show ?thesis by (rule refused) (use run TokenConflict in \<open>auto split: if_splits\<close>)
  qed
qed

lemma revoke_tokens:
  "handleRevokeAPIToken isId imp s csrf i db = (st, db') \<Longrightarrow> \<exists>Q. tokens db' = filter Q (tokens db)"
  unfolding handleRevokeAPIToken_def
  by (cases s) (auto simp: Let_def split: if_splits intro: exI [of _ "\<lambda>_. True"])

lemma run_tokensOk: "tokenRun sha isId now db \<Longrightarrow> tokensOk now (tokens db)"
proof (induction rule: tokenRun.induct)
  case (empty_table db now)
  then show ?case by (simp add: tokensOk_def liveCount_def)
next
  case (mint t db now rnd q a db')
  from mint.hyps(3) show ?case
    by (cases rule: create_cases) (use tokensOk_later [OF mint.hyps(2) mint.IH] tokensOk_insert in blast)+
next
  case (issue t db now uid name hash scopes e db')
  then show ?case using tokensOk_insert tokensOk_later by blast
next
  case (revoke t db now imp s csrf i st db')
  then show ?case using revoke_tokens tokensOk_later tokensOk_filter by metis
next
  case (other t db now db')
  then show ?case using tokensOk_later by simp
qed

text \<open>C20: In every reachable table an account has at most a hundred live tokens, and no two tokens share a hash.\<close>

theorem token_cap_invariant:
  assumes "tokenRun sha isId now db"
  shows "liveCount now uid (tokens db) \<le> 100 \<and> distinct (map at_hash (tokens db))"
  using run_tokensOk [OF assms] by (simp add: tokensOk_def maxAPITokensPerUser_def)

lemma find_snoc: "find P xs = None \<Longrightarrow> find P (xs @ [x]) = (if P x then Some x else None)"
  by (induction xs) (simp_all split: if_splits)

lemma find_filter_unique:
  "distinct (map f ts) \<Longrightarrow> find (\<lambda>t. f t = h) (filter Q ts) =
     (case find (\<lambda>t. f t = h) ts of None \<Rightarrow> None | Some t \<Rightarrow> if Q t then Some t else None)"
proof (induction ts)
  case (Cons a ts)
  show ?case
  proof (cases "f a = h")
    case True
    then have "h \<notin> f ` set ts" using Cons.prems by simp
    then have "find (\<lambda>t. f t = h) ts = None" unfolding find_None_iff by blast
    then show ?thesis using Cons True by simp
  qed (use Cons in simp)
qed simp

text \<open>C14: A token a login mints carries no more than that login: until it expires it signs in the same account with
  exactly the scopes asked for, these allow only what the login's scopes allow, and the session it gives mints no further
  token.\<close>

theorem minted_token_signs_in:
  assumes "handleCreateAPIToken sha rnd now q db = (TokenMinted raw, db')"
    and "tq_session q = Some p" "tq_body q = Some (name, scopes, expiresIn)"
    and "find (\<lambda>u. u_id u = UserID p \<and> \<not> u_pwChange u) (accounts db) = Some u" "\<not> u_deactivated u"
    and "expiresIn \<noteq> [] \<longrightarrow> later < secOf (now + parseTokenExpiry expiresIn) * nsPerSecond"
  shows "\<exists>s. GetSessionFromAPIToken sha later db' raw = Some s \<and> UserID s = UserID p \<and>
      Scopes s = scopes \<and> CredentialScopes s = scopes \<and>
      (\<forall>table act. scopesAllow scopes table act \<longrightarrow> scopesAllow (Scopes p) table act) \<and>
      \<not> credentialManagementSession db' (Some s)"
  using assms(1)
proof (cases rule: create_cases)
  case (minted p' name' scopes' expiresIn')
  then have eq: "p' = p" "name' = name" "scopes' = scopes" "expiresIn' = expiresIn" using assms(2,3) by simp_all
  let ?h = "hashToken sha raw" and ?e = "if expiresIn \<noteq> [] then Some (secOf (now + parseTokenExpiry expiresIn)) else None"
  let ?t = "\<lparr>at_id = lastToken db + 1, at_user = UserID p, at_name = name, at_hash = ?h, at_scopes = scopes, at_expires = ?e\<rparr>"
  have raw: "raw = ''bmr_'' @ generateToken rnd" using minted(7) by simp
  have ins: "?h \<notin> at_hash ` set (tokens db)" "tokens db' = tokens db @ [?t]" "accounts db' = accounts db"
    using minted(8) unfolding eq raw by (auto simp: insertAPITokenWithinCap_def split: if_splits)
  then have "find (\<lambda>t. at_hash t = ?h) (tokens db) = None" by (force simp: find_None_iff)
  then have found: "find (\<lambda>t. at_hash t = ?h) (tokens db') = Some ?t"
    unfolding ins(2) by (simp add: find_snoc)
  have alive: "tokenAlive later ?t" using assms(6) by (simp add: tokenAlive_def)
  have "scopesAllow scopes table act \<Longrightarrow> scopesAllow (Scopes p) table act" for table act
    using scopesWithin_sound minted(6) unfolding eq by blast
  then show ?thesis
    using found alive assms(4,5) ins(3) by (simp add: GetSessionFromAPIToken_def Let_def credentialManagementSession_def)
qed blast

text \<open>A revocation ends exactly the caller's own tokens it names: each of them signs in no more, and a token that
  signs in differently afterwards was one of them.\<close>

theorem revoke_ends_token:
  assumes "handleRevokeAPIToken isId imp (Some p) csrf i db = (200, db')" "distinct (map at_hash (tokens db))"
  shows "csrf \<and> \<not> delegatedIdentitySession db imp (Some p) \<and>
     (\<forall>raw. if \<exists>t \<in> set (tokens db). at_hash t = hashToken sha raw \<and> at_user t = UserID p \<and> isId i (at_id t)
        then GetSessionFromAPIToken sha later db' raw = None
        else GetSessionFromAPIToken sha later db' raw = GetSessionFromAPIToken sha later db raw)"
proof -
  let ?gone = "\<lambda>t. isId i (at_id t) \<and> at_user t = UserID p"
  have guards: "csrf" "\<not> delegatedIdentitySession db imp (Some p)"
    and db': "db' = db\<lparr>tokens := filter (\<lambda>t. \<not> ?gone t) (tokens db)\<rparr>"
    using assms(1) by (auto simp: handleRevokeAPIToken_def requireOwnAccountManagement_def Let_def split: if_splits)
  define h where "h raw = hashToken sha raw" for raw
  have fnd: "find (\<lambda>t. at_hash t = h raw) (tokens db') =
      (case find (\<lambda>t. at_hash t = h raw) (tokens db) of None \<Rightarrow> None | Some t \<Rightarrow> if ?gone t then None else Some t)" for raw
    unfolding db' using find_filter_unique [OF assms(2), where h = "h raw" and Q = "\<lambda>t. \<not> ?gone t"]
    by (simp split: option.split)
  have uniq: "t = t'" if "t \<in> set (tokens db)" "t' \<in> set (tokens db)" "at_hash t = at_hash t'" for t t'
    using assms(2) that by (simp add: distinct_map inj_on_def)
  have step: "if \<exists>t \<in> set (tokens db). at_hash t = hashToken sha raw \<and> at_user t = UserID p \<and> isId i (at_id t)
        then GetSessionFromAPIToken sha later db' raw = None
        else GetSessionFromAPIToken sha later db' raw = GetSessionFromAPIToken sha later db raw" for raw
  proof (cases "find (\<lambda>t. at_hash t = h raw) (tokens db)")
    case None
    then show ?thesis using fnd [of raw] by (simp add: GetSessionFromAPIToken_def h_def)
  next
    case (Some t)
    then have t: "t \<in> set (tokens db)" "at_hash t = h raw" by (auto simp: find_Some_iff)
    then have ex: "(\<exists>t' \<in> set (tokens db). at_hash t' = hashToken sha raw \<and> at_user t' = UserID p \<and> isId i (at_id t')) \<longleftrightarrow> ?gone t"
      using uniq unfolding h_def by metis
    have acc: "accounts db' = accounts db" "grants db' = grants db" by (simp_all add: db')
    show ?thesis
    proof (cases "?gone t")
      case True
      then show ?thesis
        unfolding ex GetSessionFromAPIToken_def Let_def using fnd [of raw] Some by (simp add: h_def)
    next
      case False
      then have "find (\<lambda>t. at_hash t = hashToken sha raw) (tokens db') = find (\<lambda>t. at_hash t = hashToken sha raw) (tokens db)"
        using fnd [of raw] Some by (auto simp: h_def)
      then have "GetSessionFromAPIToken sha later db' raw = GetSessionFromAPIToken sha later db raw"
        unfolding GetSessionFromAPIToken_def acc Let_def by (simp only:)
      with False ex show ?thesis by (simp only: if_False)
    qed
  qed
  show ?thesis using guards step by blast
qed


section \<open>Witnesses\<close>

definition exCred :: credDB where
  "exCred = \<lparr>accounts = accounts (rootDB [] []), sessions = sessions (rootDB [] []), grants = grants (rootDB [] []),
     delegated = [], tokens = [], lastToken = 0\<rparr>"

definition exLogin :: principal where
  "exLogin = \<lparr>Scopes = [], CredentialScopes = [], accessTables = (\<lambda>_. False), SessionID = ''s'', UserID = 1, Email = ''a@x.org'',
     GroupID = [], Role = ''user'', HeldRoles = [], Verified = True, EmailGrandfathered = False, ActingAsGroup = [],
     GlobalAdmin = True, connectorGrant = False\<rparr>"

definition exMintRequest :: tokenRequest where
  "exMintRequest = \<lparr>tq_disabled = False, tq_session = Some exLogin, tq_csrf = True, tq_body = Some (''ci'', ''*'', [])\<rparr>"

definition exTokens :: credDB where
  "exTokens = exCred\<lparr>tokens := [\<lparr>at_id = 1, at_user = 1, at_name = ''ci'', at_hash = hashToken id (''bmr_'' @ generateToken ''r''),
     at_scopes = ''*'', at_expires = None\<rparr>], lastToken := 1\<rparr>"

lemma ex_mint: "handleCreateAPIToken id ''r'' 0 exMintRequest exCred = (TokenMinted (''bmr_'' @ generateToken ''r''), exTokens)"
  by (simp add: handleCreateAPIToken_def exMintRequest_def credentialManagementSession_def exLogin_def exCred_def rootDB_def
      validateScopes_def scopesWithin_def insertAPITokenWithinCap_def liveCount_def maxAPITokensPerUser_def exTokens_def Let_def)

theorem minted_token_signs_in_witness:
  "\<exists>s. GetSessionFromAPIToken id 5 exTokens (''bmr_'' @ generateToken ''r'') = Some s \<and> UserID s = 1 \<and> Scopes s = ''*''"
proof -
  have q: "tq_session exMintRequest = Some exLogin" "tq_body exMintRequest = Some (''ci'', ''*'', [])"
    by (simp_all add: exMintRequest_def)
  have a: "find (\<lambda>u. u_id u = UserID exLogin \<and> \<not> u_pwChange u) (accounts exCred) = Some rootAccount" "\<not> u_deactivated rootAccount"
    by (simp_all add: exCred_def exLogin_def rootDB_def rootAccount_def)
  from minted_token_signs_in [OF ex_mint q a, of 5] show ?thesis by (auto simp: exLogin_def)
qed

theorem token_cap_invariant_witness: "liveCount 0 1 (tokens exTokens) \<le> 100"
proof -
  have "tokenRun id (\<lambda>_ _. True) 0 exCred" by (rule tokenRun.empty_table) (simp add: exCred_def)
  from token_cap_invariant [OF tokenRun.mint [OF this order.refl ex_mint]] show ?thesis by blast
qed

theorem revoke_ends_token_witness:
  "GetSessionFromAPIToken id 5 exCred (''bmr_'' @ generateToken ''r'') = None"
proof -
  have r: "handleRevokeAPIToken (\<lambda>i n. n = 1) 0 (Some exLogin) True ''1'' exTokens = (200, exTokens\<lparr>tokens := []\<rparr>)"
    by (simp add: handleRevokeAPIToken_def requireOwnAccountManagement_def accountManagementSession_def exLogin_def
        delegatedIdentitySession_def exTokens_def exCred_def rootDB_def)
  have d: "distinct (map at_hash (tokens exTokens))" by (simp add: exTokens_def)
  have m: "\<exists>t \<in> set (tokens exTokens). at_hash t = hashToken id (''bmr_'' @ generateToken ''r'') \<and> at_user t = UserID exLogin \<and> at_id t = 1"
    by (simp add: exTokens_def exLogin_def)
  have "GetSessionFromAPIToken id 5 (exTokens\<lparr>tokens := []\<rparr>) (''bmr_'' @ generateToken ''r'') = None"
    using conjunct2 [OF conjunct2 [OF revoke_ends_token [OF r d, of id 5]], rule_format, of "''bmr_'' @ generateToken ''r''"] m by simp
  then show ?thesis by (simp add: GetSessionFromAPIToken_def exTokens_def exCred_def)
qed

end
