(* ===== verification/Base64_Url.thy ===== *)
theory Base64_Url
  imports Go_Scan
begin

text \<open>
  \<open>base64.RawURLEncoding\<close>: no padding, the URL alphabet. As in the library, decoding passes over carriage returns
  and newlines, refuses any other character outside the alphabet and a lone last character, and does not look at
  the unused bits of a last group.
\<close>

definition b64Alphabet :: string where
  "b64Alphabet = ''ABCDEFGHIJKLMNOPQRSTUVWXYZabcdefghijklmnopqrstuvwxyz0123456789-_''"

definition b64Char :: "nat \<Rightarrow> char" where
  "b64Char n = b64Alphabet ! n"

fun charIndex :: "string \<Rightarrow> char \<Rightarrow> nat option" where
  "charIndex [] c = None"
| "charIndex (a # r) c = (if a = c then Some 0 else map_option Suc (charIndex r c))"

fun b64Encode :: "string \<Rightarrow> string" where
  "b64Encode [] = []"
| "b64Encode [a] = [b64Char (byte a div 4), b64Char (byte a mod 4 * 16)]"
| "b64Encode [a, b] = [b64Char (byte a div 4), b64Char (byte a mod 4 * 16 + byte b div 16), b64Char (byte b mod 16 * 4)]"
| "b64Encode (a # b # c # r) =
     [b64Char (byte a div 4), b64Char (byte a mod 4 * 16 + byte b div 16),
      b64Char (byte b mod 16 * 4 + byte c div 64), b64Char (byte c mod 64)] @ b64Encode r"

fun b64Values :: "string \<Rightarrow> nat list option" where
  "b64Values [] = Some []"
| "b64Values (c # r) =
     (if c = CHR 0x0A \<or> c = CHR 0x0D then b64Values r
      else case charIndex b64Alphabet c of None \<Rightarrow> None
        | Some v \<Rightarrow> map_option (\<lambda>vs. v # vs) (b64Values r))"

fun b64Bytes :: "nat list \<Rightarrow> string option" where
  "b64Bytes [] = Some []"
| "b64Bytes [x] = None"
| "b64Bytes [x, y] = Some [char_of (x * 4 + y div 16)]"
| "b64Bytes [x, y, z] = Some [char_of (x * 4 + y div 16), char_of (y mod 16 * 16 + z div 4)]"
| "b64Bytes (x # y # z # w # r) =
     map_option (\<lambda>bs. [char_of (x * 4 + y div 16), char_of (y mod 16 * 16 + z div 4), char_of (z mod 4 * 64 + w)] @ bs) (b64Bytes r)"

definition b64Decode :: "string \<Rightarrow> string option" where
  "b64Decode s = (case b64Values s of None \<Rightarrow> None | Some vs \<Rightarrow> b64Bytes vs)"

section \<open>Round trip\<close>

fun sextets :: "string \<Rightarrow> nat list" where
  "sextets [] = []"
| "sextets [a] = [byte a div 4, byte a mod 4 * 16]"
| "sextets [a, b] = [byte a div 4, byte a mod 4 * 16 + byte b div 16, byte b mod 16 * 4]"
| "sextets (a # b # c # r) =
     [byte a div 4, byte a mod 4 * 16 + byte b div 16, byte b mod 16 * 4 + byte c div 64, byte c mod 64] @ sextets r"

lemma encode_sextets: "b64Encode s = map b64Char (sextets s)"
  by (induction s rule: b64Encode.induct) simp_all

lemma div_bounds: "byte a div 4 < 64" "byte b div 16 < 16" "byte c div 64 < 4"
  using byte_bound [of a] byte_bound [of b] byte_bound [of c] by (simp_all add: less_mult_imp_div_less)

lemma mix_bounds: "byte a mod 4 * 16 + byte b div 16 < 64" "byte b mod 16 * 4 + byte c div 64 < 64" "byte a mod 4 * 16 < 64" "byte b mod 16 * 4 < 64"
proof -
  have "byte a mod 4 < 4" "byte b mod 16 < 16" by simp_all
  then show "byte a mod 4 * 16 + byte b div 16 < 64" "byte b mod 16 * 4 + byte c div 64 < 64" "byte a mod 4 * 16 < 64" "byte b mod 16 * 4 < 64"
    using div_bounds(2) [of b] div_bounds(3) [of c] by linarith+
qed

lemma sextets_bound: "v \<in> set (sextets s) \<Longrightarrow> v < 64"
  by (induction s rule: sextets.induct) (auto simp: div_bounds mix_bounds)

lemma charIndex_nth: "distinct xs \<Longrightarrow> n < length xs \<Longrightarrow> charIndex xs (xs ! n) = Some n"
proof (induction xs arbitrary: n)
  case (Cons a r)
  then show ?case by (cases n) auto
qed simp

lemma b64Char_index: "v < 64 \<Longrightarrow> charIndex b64Alphabet (b64Char v) = Some v"
  unfolding b64Char_def by (rule charIndex_nth) (simp_all add: b64Alphabet_def)

lemma b64Char_in: "v < 64 \<Longrightarrow> b64Char v \<in> set b64Alphabet"
  unfolding b64Char_def by (rule nth_mem) (simp add: b64Alphabet_def)

lemma b64Char_line: "v < 64 \<Longrightarrow> b64Char v \<noteq> CHR 0x0A \<and> b64Char v \<noteq> CHR 0x0D \<and> b64Char v \<noteq> CHR ''.''"
  using b64Char_in [of v] by (auto simp: b64Alphabet_def)

lemma b64Values_encode: "(\<And>v. v \<in> set vs \<Longrightarrow> v < 64) \<Longrightarrow> b64Values (map b64Char vs) = Some vs"
  by (induction vs) (simp_all add: b64Char_index b64Char_line)

lemma mix_split:
  "(m * 16 + byte b div 16) div 16 = m" "(m * 16 + byte b div 16) mod 16 = byte b div 16"
  "(m * 4 + byte c div 64) div 4 = m" "(m * 4 + byte c div 64) mod 4 = byte c div 64"
  using div_bounds(2) [of b] div_bounds(3) [of c] by simp_all

lemma byte_join:
  "byte a div 4 * 4 + (byte a mod 4 * 16 + byte b div 16) div 16 = byte a"
  "byte a div 4 * 4 + byte a mod 4 * 16 div 16 = byte a"
  "(byte a mod 4 * 16 + byte b div 16) mod 16 * 16 + (byte b mod 16 * 4 + byte c div 64) div 4 = byte b"
  "(byte a mod 4 * 16 + byte b div 16) mod 16 * 16 + byte b mod 16 * 4 div 4 = byte b"
  "(byte b mod 16 * 4 + byte c div 64) mod 4 * 64 + byte c mod 64 = byte c"
  unfolding mix_split by simp_all

lemma b64Bytes_sextets: "b64Bytes (sextets s) = Some s"
proof -
  have c: "char_of (byte x) = x" for x by (simp add: byte_def)
  show ?thesis
    by (induction s rule: sextets.induct) (simp_all only: sextets.simps b64Bytes.simps append.simps byte_join c option.map)
qed

lemma b64_roundtrip: "b64Decode (b64Encode s) = Some s"
  using b64Values_encode [of "sextets s"] sextets_bound b64Bytes_sextets by (simp add: b64Decode_def encode_sextets)

lemma b64_inj: "b64Encode s = b64Encode t \<Longrightarrow> s = t"
  using b64_roundtrip by (metis option.inject)

lemma b64_no_dot: "CHR ''.'' \<notin> set (b64Encode s)"
  using sextets_bound b64Char_line unfolding encode_sextets by fastforce

end
