(* ===== verification/App_OAuth.thy ===== *)
theory App_OAuth
  imports Api_Tokens Base64_Url Csrf
begin

text \<open>
  The authorization server of an app (\<^verbatim>\<open>app_oauth.go\<close>) with the consent step it shares with the platform
  (\<^verbatim>\<open>oauth_consent.go\<close>), the signed payloads of \<^verbatim>\<open>oauth_managed.go\<close> and the token hash of
  \<^verbatim>\<open>platform_shims.go\<close>. A form is the list of its values. The fixed parameters of the code are a record: HMAC and
  SHA-256, the JSON reader of a consent payload, URL parsing and loopback addresses of the libraries, and the
  server's secret. The stored list of redirect addresses is kept as a list, not as its JSON text; an answer that
  redirects names the address and the parameters set on it. The connector endpoints (\<^verbatim>\<open>appMCP...\<close>) that take over
  for an app with a connector manifest are not modelled.
\<close>

section \<open>What the code is given\<close>

record parsedURL =
  pu_scheme :: string
  pu_host :: string
  pu_hostname :: string
  pu_user :: bool
  pu_fragment :: string
  pu_opaque :: string

record oauthEnv =
  oe_mac :: "string \<Rightarrow> string \<Rightarrow> string"
  oe_sha :: "string \<Rightarrow> string"
  oe_secret :: string
  oe_consent :: "string \<Rightarrow> (string \<times> string \<times> int) option"
  oe_url :: "string \<Rightarrow> parsedURL option"
  oe_loopback :: "string \<Rightarrow> bool"

section \<open>Signed payloads\<close>

definition brokerSign :: "oauthEnv \<Rightarrow> string \<Rightarrow> string \<Rightarrow> string" where
  "brokerSign env payload secret = b64Encode payload @ ''.'' @ b64Encode (oe_mac env secret payload)"

definition brokerVerify :: "oauthEnv \<Rightarrow> string \<Rightarrow> string \<Rightarrow> string option" where
  "brokerVerify env token secret =
     (case cut_at CHR ''.'' token of
        None \<Rightarrow> None
      | Some (a, b) \<Rightarrow>
        (case b64Decode a of None \<Rightarrow> None
         | Some payload \<Rightarrow>
           (case b64Decode b of None \<Rightarrow> None
            | Some sig \<Rightarrow> if sig \<noteq> oe_mac env secret payload then None else Some payload)))"

definition hashAPIToken :: "(string \<Rightarrow> string) \<Rightarrow> string \<Rightarrow> string" where
  "hashAPIToken sha plaintext = (if plaintext = [] then [] else hexEncode (sha plaintext))"

section \<open>Consent\<close>

record oauthParams =
  op_client :: string
  op_redirect :: string
  op_state :: string
  op_scope :: string
  op_challenge :: string
  op_method :: string
  op_resource :: string

definition oauthConsentKey :: "oauthEnv \<Rightarrow> string" where
  "oauthConsentKey env = hexEncode (oe_mac env (oe_secret env) ''benmore-oauth-consent-v1'')"

definition consentFields :: "string \<Rightarrow> oauthParams \<Rightarrow> string list" where
  "consentFields email p =
     [email, op_client p, op_redirect p, op_state p, op_scope p, op_challenge p, op_method p, op_resource p]"

definition consentText :: "string list \<Rightarrow> string" where
  "consentText fs = concat (map (\<lambda>f. f @ [CHR 0x00]) fs)"

definition oauthConsentDigest :: "oauthEnv \<Rightarrow> string \<Rightarrow> oauthParams \<Rightarrow> string" where
  "oauthConsentDigest env email p = hexEncode (oe_sha env (consentText (consentFields email p)))"

definition oauthConsentTTL :: int where "oauthConsentTTL = 600 * nsPerSecond"

text \<open>The JSON text of the payload, its keys in order.\<close>

definition jsonQuoted :: "string \<Rightarrow> string" where "jsonQuoted t = [CHR 0x22] @ t @ [CHR 0x22]"

definition consentPayload :: "string \<Rightarrow> int \<Rightarrow> string" where
  "consentPayload digest expires =
     concat [''{'', jsonQuoted ''d'', '':'', jsonQuoted digest, '','', jsonQuoted ''exp'', '':'', formatInt expires, '','',
       jsonQuoted ''p'', '':'', jsonQuoted ''oauth-consent'', ''}'']"

definition mintOAuthConsent :: "oauthEnv \<Rightarrow> string \<Rightarrow> oauthParams \<Rightarrow> int \<Rightarrow> string" where
  "mintOAuthConsent env email p now =
     brokerSign env (consentPayload (oauthConsentDigest env email p) (secOf (now + oauthConsentTTL))) (oauthConsentKey env)"

definition verifyOAuthConsent :: "oauthEnv \<Rightarrow> string \<Rightarrow> string \<Rightarrow> oauthParams \<Rightarrow> int \<Rightarrow> bool" where
  "verifyOAuthConsent env token email p now =
     (case brokerVerify env token (oauthConsentKey env) of
        None \<Rightarrow> False
      | Some raw \<Rightarrow>
        (case oe_consent env raw of
           None \<Rightarrow> False
         | Some (kind, digest, expires) \<Rightarrow>
           if kind \<noteq> ''oauth-consent'' \<or> expires < secOf now then False
           else digest = oauthConsentDigest env email p))"

definition sameOriginPost :: "oauthEnv \<Rightarrow> browserRequest \<Rightarrow> bool" where
  "sameOriginPost env r =
     (let sfs = headerGet r ''Sec-Fetch-Site'' in
      if sfs = ''same-origin'' then True
      else if sfs \<noteq> [] then False
      else let origin = headerGet r ''Origin'' in
        if origin = [] then False
        else case oe_url env origin of None \<Rightarrow> False | Some u \<Rightarrow> equal_fold (pu_host u) (br_host r))"

section \<open>The tables\<close>

record oauthClient =
  oc_id :: string
  oc_name :: string
  oc_redirects :: "string list"
  oc_scopes :: string

record oauthCode =
  cd_id :: int
  cd_client :: string
  cd_user :: int
  cd_hash :: string
  cd_challenge :: string
  cd_redirect :: string
  cd_resource :: string
  cd_scopes :: string
  cd_expires :: int

record oauthDB = credDB +
  oauthClients :: "oauthClient list"
  oauthCodes :: "oauthCode list"
  lastCode :: int

definition clientOf :: "oauthDB \<Rightarrow> string \<Rightarrow> oauthClient option" where
  "clientOf db cid = find (\<lambda>c. oc_id c = cid) (oauthClients db)"

section \<open>Registration\<close>

definition validOAuthClientRedirect :: "oauthEnv \<Rightarrow> string \<Rightarrow> bool" where
  "validOAuthClientRedirect env raw =
     (case oe_url env raw of
        None \<Rightarrow> False
      | Some u \<Rightarrow>
        if pu_host u = [] \<or> pu_user u \<or> pu_fragment u \<noteq> [] \<or> pu_opaque u \<noteq> [] then False
        else let scheme = to_lower (pu_scheme u) in
          if scheme = ''https'' then True
          else if scheme = ''http'' then pu_hostname u = ''localhost'' \<or> oe_loopback env (pu_hostname u)
          else False)"

definition appOAuthRegister ::
    "oauthEnv \<Rightarrow> string \<Rightarrow> (string \<times> string list \<times> string) option \<Rightarrow> oauthDB \<Rightarrow> (nat + string) \<times> oauthDB" where
  "appOAuthRegister env rnd body db =
     (case body of
        None \<Rightarrow> (Inl 400, db)
      | Some (name, redirects, scope) \<Rightarrow>
        if name = [] \<or> redirects = [] then (Inl 400, db)
        else if \<not> list_all (validOAuthClientRedirect env) redirects then (Inl 400, db)
        else
          let clientID = ''app_'' @ generateToken rnd; scopes = (if scope = [] then ''*'' else scope) in
          if clientOf db clientID \<noteq> None then (Inl 500, db)
          else (Inr clientID, db\<lparr>oauthClients := oauthClients db @
                 [\<lparr>oc_id = clientID, oc_name = name, oc_redirects = redirects, oc_scopes = scopes\<rparr>]\<rparr>))"

section \<open>The authorization request\<close>

definition appParseAuthorize :: "oauthDB \<Rightarrow> (string \<times> string) list \<Rightarrow> oauthParams option" where
  "appParseAuthorize db v =
     (if queryGet v ''response_type'' \<noteq> ''code'' then None
      else if queryGet v ''code_challenge'' = [] \<or> queryGet v ''code_challenge_method'' \<noteq> ''S256'' then None
      else case clientOf db (queryGet v ''client_id'') of
        None \<Rightarrow> None
      | Some c \<Rightarrow>
        if queryGet v ''redirect_uri'' \<notin> set (oc_redirects c) then None
        else Some \<lparr>op_client = queryGet v ''client_id'', op_redirect = queryGet v ''redirect_uri'', op_state = queryGet v ''state'',
          op_scope = (if queryGet v ''scope'' = [] then oc_scopes c else queryGet v ''scope''),
          op_challenge = queryGet v ''code_challenge'', op_method = queryGet v ''code_challenge_method'',
          op_resource = queryGet v ''resource''\<rparr>)"

definition appOAuthGrantScope :: "string \<Rightarrow> string" where
  "appOAuthGrantScope requested =
     (let s = join '' '' (str_fields requested) in
      if s = [] \<or> s = ''*'' \<or> validateScopes s \<noteq> None then ''*'' else s)"

definition appOAuthSubject :: "principal \<Rightarrow> string" where
  "appOAuthSubject s = ''app-user:'' @ formatInt (UserID s) @ ''|'' @ Email s"

text \<open>The consent page: what it shows of the scope, and the hidden fields of its form.\<close>

datatype authorizePage =
    AuthRefused nat
  | AuthLogin
  | ConsentPage string string "(string \<times> string) list"

definition appOAuthAuthorize :: "oauthEnv \<Rightarrow> int \<Rightarrow> (string \<times> string) list \<Rightarrow> principal option \<Rightarrow> oauthDB \<Rightarrow> authorizePage" where
  "appOAuthAuthorize env now v session db =
     (case appParseAuthorize db v of
        None \<Rightarrow> AuthRefused 400
      | Some p \<Rightarrow>
        (case session of
           None \<Rightarrow> AuthLogin
         | Some s \<Rightarrow>
           if \<not> directLoginSession db session then AuthRefused 403
           else
             let redirectHost = (case oe_url env (op_redirect p) of
                   Some u \<Rightarrow> if pu_host u \<noteq> [] then pu_host u else op_redirect p | None \<Rightarrow> op_redirect p);
                 g = appOAuthGrantScope (op_scope p);
                 scopeText = (if g \<noteq> ''*'' then g else ''full access to your account'')
             in ConsentPage redirectHost scopeText
               [(''response_type'', ''code''), (''client_id'', op_client p), (''redirect_uri'', op_redirect p), (''state'', op_state p),
                (''scope'', op_scope p), (''code_challenge'', op_challenge p), (''code_challenge_method'', op_method p),
                (''resource'', op_resource p), (''consent'', mintOAuthConsent env (appOAuthSubject s) p now)]))"

datatype decisionAnswer = DecisionRefused nat | RedirectBack string "(string \<times> string) list"

definition appOAuthCodeTTL :: int where "appOAuthCodeTTL = 600 * nsPerSecond"

definition appOAuthAuthorizeDecision ::
    "oauthEnv \<Rightarrow> string \<Rightarrow> int \<Rightarrow> browserRequest \<Rightarrow> (string \<times> string) list \<Rightarrow> principal option \<Rightarrow> oauthDB \<Rightarrow> decisionAnswer \<times> oauthDB" where
  "appOAuthAuthorizeDecision env rnd now r v session db =
     (case appParseAuthorize db v of
        None \<Rightarrow> (DecisionRefused 400, db)
      | Some p \<Rightarrow>
        (case session of
           None \<Rightarrow> (DecisionRefused 403, db)
         | Some s \<Rightarrow>
           if \<not> directLoginSession db session \<or> \<not> sameOriginPost env r \<or>
              \<not> verifyOAuthConsent env (queryGet v ''consent'') (appOAuthSubject s) p now then (DecisionRefused 403, db)
           else
             let state = (if op_state p \<noteq> [] then [(''state'', op_state p)] else []) in
             if queryGet v ''decision'' \<noteq> ''approve'' then (RedirectBack (op_redirect p) (state @ [(''error'', ''access_denied'')]), db)
             else
               let code = generateToken rnd; h = hashAPIToken (oe_sha env) code in
               if h \<in> cd_hash ` set (oauthCodes db) then (DecisionRefused 500, db)
               else (RedirectBack (op_redirect p) (state @ [(''code'', code)]),
                 db\<lparr>oauthCodes := oauthCodes db @ [\<lparr>cd_id = lastCode db + 1, cd_client = op_client p, cd_user = UserID s, cd_hash = h,
                      cd_challenge = op_challenge p, cd_redirect = op_redirect p, cd_resource = op_resource p, cd_scopes = op_scope p,
                      cd_expires = secOf (now + appOAuthCodeTTL)\<rparr>],
                    lastCode := lastCode db + 1\<rparr>)))"

section \<open>The token endpoint\<close>

datatype tokenOutcome = ExchangeRefused nat string | Issued string string

definition appOAuthTokenTTL :: int where "appOAuthTokenTTL = 30 * dayNs"

definition codeRow :: "oauthDB \<Rightarrow> string \<Rightarrow> oauthCode option" where
  "codeRow db h = find (\<lambda>c. cd_hash c = h \<and>
     list_ex (\<lambda>u. u_id u = cd_user c \<and> \<not> u_pwChange u \<and> \<not> u_deactivated u) (accounts db)) (oauthCodes db)"

definition burnCode :: "oauthCode \<Rightarrow> oauthDB \<Rightarrow> oauthDB" where
  "burnCode c db = db\<lparr>oauthCodes := filter (\<lambda>d. cd_id d \<noteq> cd_id c) (oauthCodes db)\<rparr>"

definition appOAuthToken ::
    "oauthEnv \<Rightarrow> string \<Rightarrow> int \<Rightarrow> (string \<times> string) list \<Rightarrow> oauthDB \<Rightarrow> tokenOutcome \<times> oauthDB" where
  "appOAuthToken env rnd now v db =
     (let code = queryGet v ''code''; clientID = queryGet v ''client_id''; redirectURI = queryGet v ''redirect_uri'';
          codeVerifier = queryGet v ''code_verifier''; reqResource = queryGet v ''resource'' in
      if queryGet v ''grant_type'' \<noteq> ''authorization_code'' then (ExchangeRefused 400 ''unsupported_grant_type'', db)
      else if code = [] \<or> clientID = [] \<or> codeVerifier = [] then (ExchangeRefused 400 ''invalid_request'', db)
      else case codeRow db (hashAPIToken (oe_sha env) code) of
        None \<Rightarrow> (ExchangeRefused 400 ''invalid_grant'', db)
      | Some c \<Rightarrow>
        let burnt = burnCode c db in
        if cd_client c \<noteq> clientID \<or> cd_redirect c \<noteq> redirectURI then (ExchangeRefused 400 ''invalid_grant'', burnt)
        else if cd_expires c * nsPerSecond < now then (ExchangeRefused 400 ''invalid_grant'', burnt)
        else if b64Encode (oe_sha env codeVerifier) \<noteq> cd_challenge c then (ExchangeRefused 400 ''invalid_grant'', burnt)
        else if reqResource \<noteq> [] \<and> cd_resource c \<noteq> [] \<and> reqResource \<noteq> cd_resource c then (ExchangeRefused 400 ''invalid_target'', burnt)
        else
          let rawToken = ''bma_'' @ generateToken rnd; grantScope = appOAuthGrantScope (cd_scopes c);
              clientName = (case clientOf db (cd_client c) of Some cl \<Rightarrow> oc_name cl | None \<Rightarrow> ''MCP client'')
          in case insertAPITokenWithinCap now burnt (cd_user c) (''oauth: '' @ clientName) (hashToken (oe_sha env) rawToken)
              grantScope (Some (secOf (now + appOAuthTokenTTL))) of
               TokenConflict \<Rightarrow> (ExchangeRefused 500 ''server_error'', db)
             | TokenAtCap \<Rightarrow> (ExchangeRefused 400 ''access_denied'', burnt)
             | TokenStored db' \<Rightarrow> (Issued rawToken grantScope, db'))"

section \<open>What a consent covers\<close>

lemma brokerVerify_sign: "brokerVerify env (brokerSign env payload k) k = Some payload"
proof -
  have "cut_at CHR ''.'' (b64Encode payload @ ''.'' @ b64Encode (oe_mac env k payload)) =
      Some (b64Encode payload, b64Encode (oe_mac env k payload))"
    using b64_no_dot by (simp add: cut_at_Some)
  then show ?thesis unfolding brokerVerify_def brokerSign_def by (simp add: b64_roundtrip)
qed

lemma consentText_inj:
  "consentText fs = consentText gs \<Longrightarrow> length fs = length gs \<Longrightarrow> list_all (\<lambda>f. CHR 0x00 \<notin> set f) fs \<Longrightarrow>
   list_all (\<lambda>f. CHR 0x00 \<notin> set f) gs \<Longrightarrow> fs = gs"
proof (induction fs arbitrary: gs)
  case (Cons f fs)
  then obtain g gs' where gs: "gs = g # gs'" by (cases gs) auto
  have "f @ CHR 0x00 # consentText fs = g @ CHR 0x00 # consentText gs'"
    using Cons.prems(1) by (simp add: consentText_def gs)
  from cut_unique [OF this] Cons.prems show ?case using Cons.IH [of gs'] by (simp add: gs)
qed simp

text \<open>What is relied on of package \<^verbatim>\<open>json\<close>: the payload is read back as it was written. And the seconds of a time
  written into it fit 64 bits.\<close>

definition readsConsent :: "oauthEnv \<Rightarrow> bool" where
  "readsConsent env \<longleftrightarrow> (\<forall>x e. 0 \<le> e \<and> e < 2 ^ 63 \<longrightarrow>
     oe_consent env (consentPayload (hexEncode x) e) = Some (''oauth-consent'', hexEncode x, e))"

lemma mint_verify:
  assumes "readsConsent env" "0 \<le> t" "t < 2 ^ 63"
  shows "verifyOAuthConsent env (mintOAuthConsent env email p t) email' p' now \<longleftrightarrow>
     secOf now \<le> secOf (t + oauthConsentTTL) \<and> oauthConsentDigest env email p = oauthConsentDigest env email' p'"
proof -
  have e: "secOf (t + oauthConsentTTL) = t div 1000000000 + 600" by (simp add: secOf_def oauthConsentTTL_def nsPerSecond_def)
  have "0 \<le> t div 1000000000" using assms(2) by (simp add: pos_imp_zdiv_nonneg_iff)
  moreover have "t div 1000000000 + 600 < 2 ^ 63"
  proof -
    have "t div 1000000000 \<le> 2 ^ 63 div 1000000000" by (rule zdiv_mono1) (use assms(3) in simp_all)
    then show ?thesis by simp
  qed
  ultimately have "0 \<le> secOf (t + oauthConsentTTL)" "secOf (t + oauthConsentTTL) < 2 ^ 63" unfolding e by linarith+
  then have "oe_consent env (consentPayload (oauthConsentDigest env email p) (secOf (t + oauthConsentTTL))) =
      Some (''oauth-consent'', oauthConsentDigest env email p, secOf (t + oauthConsentTTL))"
    using assms(1) unfolding readsConsent_def oauthConsentDigest_def by blast
  then show ?thesis by (auto simp: verifyOAuthConsent_def mintOAuthConsent_def brokerVerify_sign)
qed


text \<open>Two requests that differ in where a NUL byte ends the state.\<close>

definition shownParams :: "oauthParams \<Rightarrow> oauthParams" where
  "shownParams p = p\<lparr>op_state := ''a'' @ [CHR 0x00] @ ''b'', op_scope := ''notes:read''\<rparr>"

definition shiftedParams :: "oauthParams \<Rightarrow> oauthParams" where
  "shiftedParams p = p\<lparr>op_state := ''a'', op_scope := ''b'' @ [CHR 0x00] @ ''notes:read''\<rparr>"

lemma shifted_digest: "oauthConsentDigest env email (shownParams p) = oauthConsentDigest env email (shiftedParams p)"
  by (simp add: oauthConsentDigest_def consentText_def consentFields_def shownParams_def shiftedParams_def)

lemma shifted_scopes: "appOAuthGrantScope (op_scope (shownParams p)) = ''notes:read''" "appOAuthGrantScope (op_scope (shiftedParams p)) = ''*''"
proof -
  have f: "str_fields ''notes:read'' = [''notes:read'']" "str_fields (''b'' @ [CHR 0x00] @ ''notes:read'') = [''b'' @ [CHR 0x00] @ ''notes:read'']"
    using str_fields_join [of "[''notes:read'']"] str_fields_join [of "[''b'' @ [CHR 0x00] @ ''notes:read'']"]
    by (simp_all add: wide_spaces_def ascii_space_def byte_def)
  have v: "validateScopeList [''notes:read''] = None" "validateScopeList [''b'' @ [CHR 0x00] @ ''notes:read''] \<noteq> None"
    by (simp_all add: parseScope_def isScopeIdentifier_def is_lower_def is_upper_def is_digit_def byte_def)
  show "appOAuthGrantScope (op_scope (shownParams p)) = ''notes:read''" "appOAuthGrantScope (op_scope (shiftedParams p)) = ''*''"
    using f v by (simp_all add: appOAuthGrantScope_def shownParams_def shiftedParams_def validateScopes_def Let_def)
qed

text \<open>The fields are joined with NUL bytes that they may hold themselves: a consent token minted for a page that shows a
  narrow scope is also the token of another request of the same client and challenge, which grants full access.\<close>

theorem consent_scope_shift:
  assumes "readsConsent env" "0 \<le> t" "t < 2 ^ 63" "secOf now \<le> secOf (t + oauthConsentTTL)"
  shows "verifyOAuthConsent env (mintOAuthConsent env email (shownParams p) t) email (shiftedParams p) now \<and>
     appOAuthGrantScope (op_scope (shownParams p)) = ''notes:read'' \<and> appOAuthGrantScope (op_scope (shiftedParams p)) = ''*''"
  using assms shifted_digest shifted_scopes by (simp add: mint_verify)

section \<open>Runs of approvals and exchanges\<close>

text \<open>The log keeps of each decision that stored a code what it was decided on.\<close>

record approval =
  ap_time :: int
  ap_db :: oauthDB
  ap_session :: principal
  ap_request :: browserRequest
  ap_form :: "(string \<times> string) list"
  ap_params :: oauthParams
  ap_code :: int

definition approvalOk :: "oauthEnv \<Rightarrow> approval \<Rightarrow> bool" where
  "approvalOk env e \<longleftrightarrow>
     directLoginSession (ap_db e) (Some (ap_session e)) \<and> sameOriginPost env (ap_request e) \<and>
     appParseAuthorize (ap_db e) (ap_form e) = Some (ap_params e) \<and> queryGet (ap_form e) ''decision'' = ''approve'' \<and>
     verifyOAuthConsent env (queryGet (ap_form e) ''consent'') (appOAuthSubject (ap_session e)) (ap_params e) (ap_time e)"

definition approves :: "approval \<Rightarrow> oauthCode \<Rightarrow> bool" where
  "approves e c \<longleftrightarrow> cd_id c = ap_code e \<and> cd_client c = op_client (ap_params e) \<and> cd_user c = UserID (ap_session e) \<and>
     cd_challenge c = op_challenge (ap_params e) \<and> cd_redirect c = op_redirect (ap_params e) \<and>
     cd_resource c = op_resource (ap_params e) \<and> cd_scopes c = op_scope (ap_params e) \<and>
     cd_expires c = secOf (ap_time e + appOAuthCodeTTL)"

definition issuedCode :: "oauthEnv \<Rightarrow> (string \<times> string) list \<Rightarrow> oauthDB \<Rightarrow> int option" where
  "issuedCode env v db = map_option cd_id (codeRow db (hashAPIToken (oe_sha env) (queryGet v ''code'')))"

inductive oauthRun :: "oauthEnv \<Rightarrow> int \<Rightarrow> oauthDB \<Rightarrow> approval list \<Rightarrow> int option list \<Rightarrow> bool" for env where
  no_codes: "oauthCodes db = [] \<Longrightarrow> oauthRun env now db [] []"
| approved: "oauthRun env t db log spent \<Longrightarrow> t \<le> now \<Longrightarrow> appParseAuthorize db v = Some p \<Longrightarrow>
     appOAuthAuthorizeDecision env rnd now r v (Some s) db = (RedirectBack uri ps, db') \<Longrightarrow> oauthCodes db' \<noteq> oauthCodes db \<Longrightarrow>
     oauthRun env now db' (\<lparr>ap_time = now, ap_db = db, ap_session = s, ap_request = r, ap_form = v, ap_params = p, ap_code = lastCode db'\<rparr> # log) spent"
| not_approved: "oauthRun env t db log spent \<Longrightarrow> t \<le> now \<Longrightarrow>
     appOAuthAuthorizeDecision env rnd now r v s db = (a, db') \<Longrightarrow> oauthCodes db' = oauthCodes db \<Longrightarrow> oauthRun env now db' log spent"
| exchanged: "oauthRun env t db log spent \<Longrightarrow> t \<le> now \<Longrightarrow> appOAuthToken env rnd now v db = (Issued raw scope, db') \<Longrightarrow>
     oauthRun env now db' log (issuedCode env v db # spent)"
| refused: "oauthRun env t db log spent \<Longrightarrow> t \<le> now \<Longrightarrow> appOAuthToken env rnd now v db = (ExchangeRefused st why, db') \<Longrightarrow>
     oauthRun env now db' log spent"
| elsewhere: "oauthRun env t db log spent \<Longrightarrow> t \<le> now \<Longrightarrow> oauthCodes db' = oauthCodes db \<Longrightarrow> lastCode db' = lastCode db \<Longrightarrow>
     oauthRun env now db' log spent"

definition oauthOk :: "oauthEnv \<Rightarrow> oauthDB \<Rightarrow> approval list \<Rightarrow> int option list \<Rightarrow> bool" where
  "oauthOk env db log spent \<longleftrightarrow>
     (\<forall>e \<in> set log. approvalOk env e) \<and>
     (\<forall>c \<in> set (oauthCodes db). cd_id c \<le> lastCode db \<and> Some (cd_id c) \<notin> set spent \<and> (\<exists>e \<in> set log. approves e c)) \<and>
     (\<forall>i \<in> set spent. \<exists>n \<le> lastCode db. i = Some n) \<and> distinct spent"

lemma decision_codes:
  assumes "appOAuthAuthorizeDecision env rnd now r v s db = (a, db')"
  obtains (same) "db' = db"
  | (stored) p sess c ps where "appParseAuthorize db v = Some p" "s = Some sess" "directLoginSession db s" "sameOriginPost env r"
      "verifyOAuthConsent env (queryGet v ''consent'') (appOAuthSubject sess) p now" "queryGet v ''decision'' = ''approve''"
      "a = RedirectBack (op_redirect p) ps" "oauthCodes db' = oauthCodes db @ [c]" "lastCode db' = lastCode db + 1"
      "cd_id c = lastCode db + 1" "cd_client c = op_client p" "cd_user c = UserID sess" "cd_challenge c = op_challenge p"
      "cd_redirect c = op_redirect p" "cd_resource c = op_resource p" "cd_scopes c = op_scope p" "cd_expires c = secOf (now + appOAuthCodeTTL)"
proof (cases "appParseAuthorize db v = None \<or> s = None")
  case True
  then show ?thesis using assms same by (cases s) (auto simp: appOAuthAuthorizeDecision_def split: option.splits)
next
  case False
  then obtain p sess where p: "appParseAuthorize db v = Some p" and s: "s = Some sess" by auto
  note run = assms [unfolded appOAuthAuthorizeDecision_def p s Let_def option.case]
  show ?thesis
  proof (cases "\<not> directLoginSession db (Some sess) \<or> \<not> sameOriginPost env r \<or>
      \<not> verifyOAuthConsent env (queryGet v ''consent'') (appOAuthSubject sess) p now")
    case True
    then show ?thesis using run by (intro same) simp
  next
    case ok: False
    note run = run [unfolded if_not_P [OF ok]]
    show ?thesis
    proof (cases "queryGet v ''decision'' \<noteq> ''approve''")
      case True
      then show ?thesis using run by (intro same) simp
    next
      case appr: False
      note run = run [unfolded if_not_P [OF appr]]
      show ?thesis
      proof (cases "hashAPIToken (oe_sha env) (generateToken rnd) \<in> cd_hash ` set (oauthCodes db)")
        case True
        then show ?thesis using run by (intro same) simp
      next
        case new: False
        note run = run [unfolded if_not_P [OF new] prod.inject]
        show ?thesis
          by (rule stored [OF p s, where c = "\<lparr>cd_id = lastCode db + 1, cd_client = op_client p, cd_user = UserID sess,
                cd_hash = hashAPIToken (oe_sha env) (generateToken rnd), cd_challenge = op_challenge p, cd_redirect = op_redirect p,
                cd_resource = op_resource p, cd_scopes = op_scope p, cd_expires = secOf (now + appOAuthCodeTTL)\<rparr>"])
            (use ok appr s conjunct1 [OF run] conjunct2 [OF run] in auto)
      qed
    qed
  qed
qed

lemma exchange_codes:
  assumes "appOAuthToken env rnd now v db = (a, db')"
  obtains (same) "db' = db" "\<And>raw sc. a \<noteq> Issued raw sc"
  | (burnt) c where "codeRow db (hashAPIToken (oe_sha env) (queryGet v ''code'')) = Some c" "db' = burnCode c db" "\<And>raw sc. a \<noteq> Issued raw sc"
  | (issued) c name where "codeRow db (hashAPIToken (oe_sha env) (queryGet v ''code'')) = Some c"
      "cd_client c = queryGet v ''client_id''" "cd_redirect c = queryGet v ''redirect_uri''" "now \<le> cd_expires c * nsPerSecond"
      "b64Encode (oe_sha env (queryGet v ''code_verifier'')) = cd_challenge c"
      "a = Issued (''bma_'' @ generateToken rnd) (appOAuthGrantScope (cd_scopes c))"
      "insertAPITokenWithinCap now (burnCode c db) (cd_user c) name (hashToken (oe_sha env) (''bma_'' @ generateToken rnd))
         (appOAuthGrantScope (cd_scopes c)) (Some (secOf (now + appOAuthTokenTTL))) = TokenStored db'"
proof (cases "codeRow db (hashAPIToken (oe_sha env) (queryGet v ''code''))")
  case None
  then show ?thesis using assms same by (auto simp: appOAuthToken_def Let_def split: if_splits)
next
  case (Some c)
  define name where "name = ''oauth: '' @ (case clientOf db (cd_client c) of Some cl \<Rightarrow> oc_name cl | None \<Rightarrow> ''MCP client'')"
  note run = assms [unfolded appOAuthToken_def Some Let_def option.case, folded name_def]
  show ?thesis
  proof (cases "\<exists>raw sc. a = Issued raw sc")
    case True
    show ?thesis by (rule issued [OF Some, where name = name]) (use run True in \<open>auto split: if_split_asm inserted.split_asm\<close>)
  next
    case False
    show ?thesis
    proof (cases "db' = db")
      case True
      show ?thesis by (rule same [OF True]) (use False in blast)
    next
      case changed: False
      show ?thesis by (rule burnt [OF Some]) (use run False changed in \<open>auto split: if_split_asm inserted.split_asm\<close>)
    qed
  qed
qed

lemma codeRow_in: "codeRow db h = Some c \<Longrightarrow> c \<in> set (oauthCodes db)"
  by (auto simp: codeRow_def find_Some_iff)

lemma insert_codes:
  "insertAPITokenWithinCap now (db :: oauthDB) uid name h sc e = TokenStored db' \<Longrightarrow>
   oauthCodes db' = oauthCodes db \<and> lastCode db' = lastCode db"
  by (auto simp: insertAPITokenWithinCap_def split: if_splits)

lemma burn_codes: "oauthCodes (burnCode c db) = filter (\<lambda>d. cd_id d \<noteq> cd_id c) (oauthCodes db)" "lastCode (burnCode c db) = lastCode db"
  by (simp_all add: burnCode_def)

lemma oauthOk_burn: "oauthOk env db log spent \<Longrightarrow> oauthOk env (burnCode c db) log spent"
  by (auto simp: oauthOk_def burn_codes)

lemma oauthOk_spend:
  assumes "oauthOk env db log spent" "c \<in> set (oauthCodes db)"
    and "oauthCodes db' = oauthCodes (burnCode c db)" "lastCode db' = lastCode db"
  shows "oauthOk env db' log (Some (cd_id c) # spent)"
  using assms unfolding oauthOk_def burn_codes by (auto simp: burn_codes)

lemma oauthOk_store:
  assumes "oauthOk env db log spent" "oauthCodes db' = oauthCodes db @ [c]" "lastCode db' = lastCode db + 1" "cd_id c = lastCode db'"
    and "approvalOk env e" "approves e c"
  shows "oauthOk env db' (e # log) spent"
proof -
  have "Some (lastCode db + 1) \<notin> set spent" using assms(1) unfolding oauthOk_def by fastforce
  then show ?thesis
    using assms unfolding oauthOk_def by (auto; force)
qed

lemma run_oauthOk: "oauthRun env now db log spent \<Longrightarrow> oauthOk env db log spent"
proof (induction rule: oauthRun.induct)
  case (no_codes db now)
  then show ?case by (simp add: oauthOk_def)
next
  case (approved t db log spent now v p rnd r s uri ps db')
  from approved.hyps(4) show ?case
  proof (cases rule: decision_codes)
    case (stored p' sess c ps')
    have eq: "p' = p" "sess = s" using stored(1,2) approved.hyps(3) by simp_all
    let ?e = "\<lparr>ap_time = now, ap_db = db, ap_session = s, ap_request = r, ap_form = v, ap_params = p, ap_code = lastCode db'\<rparr>"
    have "approvalOk env ?e" using stored approved.hyps(3) unfolding approvalOk_def eq by simp
    moreover have "approves ?e c" using stored unfolding approves_def eq by simp
    ultimately show ?thesis using oauthOk_store [OF approved.IH stored(8,9)] stored(9,10) by simp
  qed (use approved.hyps(5) in simp)
next
  case (not_approved t db log spent now rnd r v s a db')
  from not_approved.hyps(3) show ?case
    by (cases rule: decision_codes) (use not_approved.IH not_approved.hyps(4) in auto)
next
  case (exchanged t db log spent now rnd v raw scope db')
  from exchanged.hyps(3) show ?case
  proof (cases rule: exchange_codes)
    case (issued c name)
    then show ?thesis
      using oauthOk_spend [OF exchanged.IH codeRow_in [OF issued(1)]] insert_codes [OF issued(7)] by (simp add: issuedCode_def burn_codes)
  qed auto
next
  case (refused t db log spent now rnd v st why db')
  from refused.hyps(3) show ?case
    by (cases rule: exchange_codes) (use refused.IH oauthOk_burn in auto)
next
  case (elsewhere t db log spent now db')
  then show ?case by (simp add: oauthOk_def)
qed

text \<open>C4: Every access token the server issues stands on one approval that no token stood on before: a same-origin decision of a
  direct login, confirmed by a consent token, for the client and the redirect the exchange names, at most ten minutes old, whose
  challenge is the hash of the presented verifier; the token belongs to the account that approved and carries the scope it
  granted.\<close>

theorem issued_token_approved:
  assumes "oauthRun env t db log spent" "appOAuthToken env rnd now v db = (Issued raw scope, db')"
  shows "\<exists>e \<in> set log. approvalOk env e \<and> Some (ap_code e) \<notin> set spent \<and> issuedCode env v db = Some (ap_code e) \<and>
      op_client (ap_params e) = queryGet v ''client_id'' \<and> op_redirect (ap_params e) = queryGet v ''redirect_uri'' \<and>
      op_challenge (ap_params e) = b64Encode (oe_sha env (queryGet v ''code_verifier'')) \<and>
      now \<le> ap_time e + appOAuthCodeTTL \<and>
      (\<exists>row. tokens db' = tokens db @ [row] \<and> at_user row = UserID (ap_session e) \<and>
         at_scopes row = appOAuthGrantScope (op_scope (ap_params e)) \<and> at_hash row = hashToken (oe_sha env) raw)"
  using assms(2)
proof (cases rule: exchange_codes)
  case (issued c name)
  have c: "c \<in> set (oauthCodes db)" by (rule codeRow_in [OF issued(1)])
  note ok = run_oauthOk [OF assms(1)]
  then obtain e where e: "e \<in> set log" "approves e c" and fresh: "Some (cd_id c) \<notin> set spent" "approvalOk env e"
    using c unfolding oauthOk_def by blast
  have "cd_expires c * nsPerSecond \<le> ap_time e + appOAuthCodeTTL"
    using e(2) unfolding approves_def secOf_def nsPerSecond_def by simp
  moreover have "\<exists>row. tokens db' = tokens db @ [row] \<and> at_user row = cd_user c \<and> at_scopes row = appOAuthGrantScope (cd_scopes c) \<and>
      at_hash row = hashToken (oe_sha env) raw"
    using issued(6,7) by (auto simp: insertAPITokenWithinCap_def burnCode_def split: if_splits)
  ultimately show ?thesis
    using e fresh issued unfolding approves_def issuedCode_def by (intro bexI [of _ e]) auto
qed blast+

text \<open>C38: Every code is exchanged at most once over any run.\<close>

theorem code_exchanged_once:
  assumes "oauthRun env now db log spent"
  shows "distinct spent \<and> (\<forall>c \<in> set (oauthCodes db). Some (cd_id c) \<notin> set spent)"
  using run_oauthOk [OF assms] by (simp add: oauthOk_def)


section \<open>Witnesses\<close>

definition exReadConsent :: "string \<Rightarrow> (string \<times> string \<times> int) option" where
  "exReadConsent raw =
     (case cut_at CHR 0x22 (drop 6 raw) of None \<Rightarrow> None
      | Some (d, r) \<Rightarrow> (case cut_at CHR '','' (drop 7 r) of None \<Rightarrow> None
        | Some (e, _) \<Rightarrow> map_option (\<lambda>n. (''oauth-consent'', d, n)) (atoi e)))"

definition exOAuthEnv :: oauthEnv where
  "exOAuthEnv = \<lparr>oe_mac = (\<lambda>k t. k @ t), oe_sha = (\<lambda>t. t), oe_secret = ''k'', oe_consent = exReadConsent, oe_url = (\<lambda>_. None),
     oe_loopback = (\<lambda>_. False)\<rparr>"

lemma exEnv_reads: "readsConsent exOAuthEnv"
  unfolding readsConsent_def
proof (intro allI impI)
  fix x e assume e: "0 \<le> e \<and> e < (2 :: int) ^ 63"
  have q: "CHR 0x22 \<notin> set (hexEncode x)"
  proof
    assume "CHR 0x22 \<in> set (hexEncode x)"
    then have "CHR 0x22 \<in> set hexChars" using hexEncode_set by blast
    then show False by (simp add: hexChars_def)
  qed
  have c: "CHR '','' \<notin> set (formatInt e)" by (rule formatInt_no) (simp_all add: is_digit_def byte_def)
  define rest where "rest = '','' @ jsonQuoted ''p'' @ '':'' @ jsonQuoted ''oauth-consent'' @ ''}''"
  have "drop 6 (consentPayload (hexEncode x) e) = hexEncode x @ CHR 0x22 # ('','' @ jsonQuoted ''exp'' @ '':'' @ formatInt e @ rest)"
    by (simp add: consentPayload_def jsonQuoted_def rest_def)
  moreover have "cut_at CHR 0x22 (hexEncode x @ CHR 0x22 # ('','' @ jsonQuoted ''exp'' @ '':'' @ formatInt e @ rest)) =
      Some (hexEncode x, '','' @ jsonQuoted ''exp'' @ '':'' @ formatInt e @ rest)"
    using q by (simp add: cut_at_Some)
  moreover have "cut_at CHR '','' (drop 7 ('','' @ jsonQuoted ''exp'' @ '':'' @ formatInt e @ rest)) = Some (formatInt e, tl rest)"
    using c by (simp add: cut_at_Some jsonQuoted_def rest_def)
  moreover have "atoi (formatInt e) = Some e" using e by (intro atoi_formatInt) simp_all
  ultimately show "oe_consent exOAuthEnv (consentPayload (hexEncode x) e) = Some (''oauth-consent'', hexEncode x, e)"
    by (simp add: exOAuthEnv_def exReadConsent_def)
qed

definition exOAuth :: oauthDB where
  "exOAuth = \<lparr>accounts = accounts (rootDB [] []), sessions = sessions (rootDB [] []), grants = grants (rootDB [] []),
     delegated = [], tokens = [], lastToken = 0,
     oauthClients = [\<lparr>oc_id = ''c'', oc_name = ''tool'', oc_redirects = [''u''], oc_scopes = ''*''\<rparr>], oauthCodes = [], lastCode = 0\<rparr>"

definition exParams :: oauthParams where
  "exParams = \<lparr>op_client = ''c'', op_redirect = ''u'', op_state = [], op_scope = ''*'', op_challenge = b64Encode ''v'',
     op_method = ''S256'', op_resource = []\<rparr>"

definition exAsk :: "(string \<times> string) list" where
  "exAsk = [(''response_type'', ''code''), (''client_id'', ''c''), (''redirect_uri'', ''u''), (''code_challenge'', b64Encode ''v''),
     (''code_challenge_method'', ''S256''), (''consent'', mintOAuthConsent exOAuthEnv (appOAuthSubject exLogin) exParams 0), (''decision'', ''approve'')]"

definition exPost :: browserRequest where
  "exPost = exBrowser\<lparr>br_headers := [(''Sec-Fetch-Site'', ''same-origin'')]\<rparr>"

definition exCode :: oauthCode where
  "exCode = \<lparr>cd_id = 1, cd_client = ''c'', cd_user = 1, cd_hash = hashAPIToken (\<lambda>t. t) (generateToken ''r''), cd_challenge = b64Encode ''v'',
     cd_redirect = ''u'', cd_resource = [], cd_scopes = ''*'', cd_expires = 600\<rparr>"

lemma ex_parse: "appParseAuthorize exOAuth exAsk = Some exParams"
  by (simp add: appParseAuthorize_def exAsk_def queryGet_def clientOf_def exOAuth_def exParams_def)

lemma ex_direct: "directLoginSession exOAuth (Some exLogin)"
  by (simp add: directLoginSession_def credentialManagementSession_def exLogin_def exOAuth_def rootDB_def)

lemma ex_decision:
  "appOAuthAuthorizeDecision exOAuthEnv ''r'' 0 exPost exAsk (Some exLogin) exOAuth =
     (RedirectBack ''u'' [(''code'', generateToken ''r'')], exOAuth\<lparr>oauthCodes := [exCode], lastCode := 1\<rparr>)"
proof -
  have v: "verifyOAuthConsent exOAuthEnv (queryGet exAsk ''consent'') (appOAuthSubject exLogin) exParams 0"
    using mint_verify [OF exEnv_reads, of 0] by (simp add: exAsk_def queryGet_def secOf_def oauthConsentTTL_def nsPerSecond_def)
  have o: "sameOriginPost exOAuthEnv exPost" by (simp add: sameOriginPost_def exPost_def headerGet_def)
  have d: "queryGet exAsk ''decision'' = ''approve''" by (simp add: exAsk_def queryGet_def)
  have f: "op_redirect exParams = ''u''" "op_state exParams = []" "op_client exParams = ''c''" "op_challenge exParams = b64Encode ''v''"
    "op_resource exParams = []" "op_scope exParams = ''*''" "oauthCodes exOAuth = []" "lastCode exOAuth = 0" "UserID exLogin = 1"
    "oe_sha exOAuthEnv = (\<lambda>t. t)" "secOf appOAuthCodeTTL = 600"
    by (simp_all add: exParams_def exOAuth_def exLogin_def exOAuthEnv_def secOf_def appOAuthCodeTTL_def nsPerSecond_def)
  show ?thesis
    unfolding appOAuthAuthorizeDecision_def ex_parse d Let_def option.case
    using v o ex_direct by (simp add: f exCode_def)
qed

definition exExchange :: "(string \<times> string) list" where
  "exExchange = [(''grant_type'', ''authorization_code''), (''code'', generateToken ''r''), (''client_id'', ''c''), (''redirect_uri'', ''u''),
     (''code_verifier'', ''v'')]"

lemma ex_scope_all: "appOAuthGrantScope ''*'' = ''*''"
proof -
  have "str_fields ''*'' = [''*'']"
    using str_fields_join [of "[''*'']"] by (simp add: wide_spaces_def ascii_space_def byte_def)
  then show ?thesis by (simp add: appOAuthGrantScope_def)
qed

lemma ex_exchange:
  "\<exists>db'. appOAuthToken exOAuthEnv ''t'' 5 exExchange (exOAuth\<lparr>oauthCodes := [exCode], lastCode := 1\<rparr>) =
     (Issued (''bma_'' @ generateToken ''t'') ''*'', db')"
proof -
  have q: "queryGet exExchange ''grant_type'' = ''authorization_code''" "queryGet exExchange ''code'' = generateToken ''r''"
    "queryGet exExchange ''client_id'' = ''c''" "queryGet exExchange ''redirect_uri'' = ''u''" "queryGet exExchange ''code_verifier'' = ''v''"
    "queryGet exExchange ''resource'' = []"
    by (simp_all add: exExchange_def queryGet_def)
  have g: "generateToken ''r'' \<noteq> []" by (rule token_nonempty) simp
  have r: "codeRow (exOAuth\<lparr>oauthCodes := [exCode], lastCode := 1\<rparr>) (hashAPIToken (\<lambda>t. t) (generateToken ''r'')) = Some exCode"
    by (simp add: codeRow_def exCode_def exOAuth_def rootDB_def rootAccount_def)
  have f: "cd_client exCode = ''c''" "cd_redirect exCode = ''u''" "cd_expires exCode = 600" "cd_challenge exCode = b64Encode ''v''"
    "cd_resource exCode = []" "cd_scopes exCode = ''*''" "oe_sha exOAuthEnv = (\<lambda>t. t)"
    by (simp_all add: exCode_def exOAuthEnv_def)
  have t: "tokens (burnCode exCode (exOAuth\<lparr>oauthCodes := [exCode], lastCode := 1\<rparr>)) = []" by (simp add: burnCode_def exOAuth_def)
  have i: "\<exists>d. insertAPITokenWithinCap 5 (burnCode exCode (exOAuth\<lparr>oauthCodes := [exCode], lastCode := 1\<rparr>)) uid n h sc e = TokenStored d" for uid n h sc e
    by (simp add: insertAPITokenWithinCap_def t liveCount_def maxAPITokensPerUser_def)
  obtain d where d: "insertAPITokenWithinCap 5 (burnCode exCode (exOAuth\<lparr>oauthCodes := [exCode], lastCode := 1\<rparr>)) (cd_user exCode)
      (''oauth: '' @ (case clientOf (exOAuth\<lparr>oauthCodes := [exCode], lastCode := 1\<rparr>) ''c'' of Some cl \<Rightarrow> oc_name cl | None \<Rightarrow> ''MCP client''))
      (hashToken (\<lambda>t. t) (''bma_'' @ generateToken ''t'')) ''*'' (Some (secOf (5 + appOAuthTokenTTL))) = TokenStored d"
    using i by blast
  show ?thesis
    unfolding appOAuthToken_def q Let_def f(7) r option.case f ex_scope_all d inserted.case
    using g by (simp add: nsPerSecond_def)
qed

lemma ex_run:
  "oauthRun exOAuthEnv 0 (exOAuth\<lparr>oauthCodes := [exCode], lastCode := 1\<rparr>)
     [\<lparr>ap_time = 0, ap_db = exOAuth, ap_session = exLogin, ap_request = exPost, ap_form = exAsk, ap_params = exParams, ap_code = 1\<rparr>] []"
proof -
  have start: "oauthRun exOAuthEnv 0 exOAuth [] []" by (rule oauthRun.no_codes) (simp add: exOAuth_def)
  from oauthRun.approved [OF start order.refl ex_parse ex_decision] show ?thesis by (simp add: exOAuth_def)
qed

theorem issued_token_approved_witness:
  "\<exists>row db'. appOAuthToken exOAuthEnv ''t'' 5 exExchange (exOAuth\<lparr>oauthCodes := [exCode], lastCode := 1\<rparr>) =
       (Issued (''bma_'' @ generateToken ''t'') ''*'', db') \<and>
     tokens db' = tokens (exOAuth\<lparr>oauthCodes := [exCode], lastCode := 1\<rparr>) @ [row] \<and> at_user row = 1 \<and> at_scopes row = ''*''"
proof -
  obtain db' where x: "appOAuthToken exOAuthEnv ''t'' 5 exExchange (exOAuth\<lparr>oauthCodes := [exCode], lastCode := 1\<rparr>) =
       (Issued (''bma_'' @ generateToken ''t'') ''*'', db')" using ex_exchange by blast
  from issued_token_approved [OF ex_run x] x show ?thesis by (auto simp: exLogin_def exParams_def ex_scope_all)
qed

theorem code_exchanged_once_witness:
  "\<exists>db'. appOAuthToken exOAuthEnv ''t'' 5 exExchange (exOAuth\<lparr>oauthCodes := [exCode], lastCode := 1\<rparr>) =
       (Issued (''bma_'' @ generateToken ''t'') ''*'', db') \<and> Some 1 \<notin> Some ` cd_id ` set (oauthCodes db')"
proof -
  obtain db' where x: "appOAuthToken exOAuthEnv ''t'' 5 exExchange (exOAuth\<lparr>oauthCodes := [exCode], lastCode := 1\<rparr>) =
       (Issued (''bma_'' @ generateToken ''t'') ''*'', db')" using ex_exchange by blast
  have i: "issuedCode exOAuthEnv exExchange (exOAuth\<lparr>oauthCodes := [exCode], lastCode := 1\<rparr>) = Some 1"
    by (simp add: issuedCode_def exExchange_def queryGet_def codeRow_def exCode_def exOAuth_def rootDB_def rootAccount_def exOAuthEnv_def)
  from code_exchanged_once [OF oauthRun.exchanged [OF ex_run _ x]] i x show ?thesis by auto
qed

theorem consent_scope_shift_witness:
  "verifyOAuthConsent exOAuthEnv (mintOAuthConsent exOAuthEnv ''a'' (shownParams exParams) 0) ''a'' (shiftedParams exParams) 0"
  using consent_scope_shift [OF exEnv_reads, of 0 0] by (simp add: secOf_def oauthConsentTTL_def nsPerSecond_def)


end
