(* ===== verification/Workflows.thy ===== *)
theory Workflows
  imports Go_Scan Row_Locks Roles
begin

text \<open>
  State machines over a table's rows (\<^verbatim>\<open>workflows.go\<close>), the membership role they may ask for
  (\<open>resolveAppRole\<close> of \<^verbatim>\<open>server.go\<close>, \<^verbatim>\<open>workflow_membership_role.go\<close>) and the version clock of a row
  (\<^verbatim>\<open>crud_optimistic_timestamp.go\<close>). A row has its id, the text of its state column and of its version column;
  everything else of it is left open. Given to the model: how SQLite compares, the layouts a version text is read
  and written in, the conditions (\<open>whenHolds\<close>), the hooks of the app (a function on the tables, \<open>None\<close> when they
  fail; the audit entry and the webhook rows belong to them), whether the state column belongs to a command and whether
  it is encrypted. A request reads the tables once before its transaction and once inside it: the two states are
  separate arguments, so whatever ran in between is covered.
\<close>

section \<open>Workflows\<close>

record transition =
  tr_role :: string
  tr_when :: string

record wfTimeout =
  to_after :: int
  to_state :: string

record workflow =
  wf_table :: string
  wf_field :: string
  wf_initial :: string
  wf_transitions :: "string \<rightharpoonup> (string \<rightharpoonup> transition)"
  wf_timeouts :: "(string \<times> wfTimeout) list"

record wfRow =
  wr_id :: string
  wr_state :: "string option"
  wr_updated :: "string option"

record 'row wfEnv =
  we_sql :: "'row sqlite"
  we_float :: "string \<Rightarrow> bool option"
  we_app :: appConfig
  we_stamp :: "string \<Rightarrow> int option"
  we_format :: "int \<Rightarrow> string"
  we_cutoff :: "int \<Rightarrow> string"
  we_when :: "'row world \<Rightarrow> string \<Rightarrow> string \<Rightarrow> 'row \<Rightarrow> bool"
  we_owned :: bool
  we_encrypted :: bool
  we_before :: "'row world \<Rightarrow> 'row \<Rightarrow> 'row world option"
  we_after :: "'row world \<Rightarrow> 'row \<Rightarrow> 'row \<Rightarrow> 'row world option"

definition GetWorkflowForTable :: "workflow list \<Rightarrow> string \<Rightarrow> workflow option" where
  "GetWorkflowForTable wfs table = find (\<lambda>fl. wf_table fl = table) wfs"

text \<open>A create may set a state column to its initial state only; updates may not set it at all.\<close>

definition workflowCreateStateRefused :: "workflow list \<Rightarrow> string \<Rightarrow> string \<Rightarrow> string option \<Rightarrow> bool" where
  "workflowCreateStateRefused wfs table col value =
     (case value of None \<Rightarrow> False
      | Some v \<Rightarrow> (case find (\<lambda>fl. wf_table fl = table \<and> wf_field fl = col) wfs of
          None \<Rightarrow> False | Some fl \<Rightarrow> wf_initial fl = [] \<or> v \<noteq> wf_initial fl))"

definition workflowProtectedFields :: "workflow list \<Rightarrow> string \<Rightarrow> string list" where
  "workflowProtectedFields wfs table = map wf_field (filter (\<lambda>fl. wf_table fl = table) wfs)"

section \<open>The version clock\<close>

datatype stampResult = StampConflict | StampNext string string

definition prepareUpdateTimestamp ::
    "(string \<Rightarrow> int option) \<Rightarrow> (int \<Rightarrow> string) \<Rightarrow> int \<Rightarrow> string option \<Rightarrow> string \<Rightarrow> stampResult" where
  "prepareUpdateTimestamp parse format now0 current expected =
     (let cur = (case current of None \<Rightarrow> [] | Some c \<Rightarrow> c); currentTime = parse cur in
      if expected \<noteq> [] \<and> (current = None \<or> expected \<noteq> cur \<and>
           (currentTime = None \<or> parse expected = None \<or> currentTime \<noteq> parse expected)) then StampConflict
      else let now = (case currentTime of Some c \<Rightarrow> if \<not> c < now0 then c + 1 else now0 | None \<Rightarrow> now0) in
        StampNext (format now) cur)"

section \<open>Roles\<close>

definition workflowMembershipRoleField :: "appConfig \<Rightarrow> string" where
  "workflowMembershipRoleField app =
     (case app_group app of None \<Rightarrow> []
      | Some g \<Rightarrow> let field = (if gr_roleField g = [] then ''role'' else gr_roleField g) in
          if \<not> hasColumn app (gr_table g) field then [] else field)"

definition resolveAppRole :: "'row sqlite \<Rightarrow> 'row world \<Rightarrow> appConfig \<Rightarrow> principal option \<Rightarrow> string" where
  "resolveAppRole sq w app s =
     (case app_group app of None \<Rightarrow> []
      | Some g \<Rightarrow>
        if s = None \<or> workflowMembershipRoleField app = [] then []
        else if emailKeyedColumn (gr_userField g) \<and> sessionGrantEmail s = [] then []
        else if gr_key g \<noteq> [] \<and> \<not> EffectiveHasGroup s then []
        else
          let lookupVal = (if emailKeyedColumn (gr_userField g) then ArgText (sessionGrantEmail s)
                           else (case s of None \<Rightarrow> ArgNull | Some p \<Rightarrow> ArgInt (UserID p))) in
          case find (\<lambda>m. colIs sq (gr_table g) (gr_userField g) m lookupVal \<and>
                 (gr_key g \<noteq> [] \<longrightarrow> colIs sq (gr_table g) (gr_key g) m (ArgText (EffectiveGroupID s))) \<and>
                 rowLive sq (gr_table g) (membershipLiveConds (app_group app) (gr_table g) (hasColumn app (gr_table g))) m)
               (w_rows w (gr_table g)) of
            None \<Rightarrow> []
          | Some m \<Rightarrow> colText sq (gr_table g) (workflowMembershipRoleField app) m)"

definition hasWorkflowRole :: "'row sqlite \<Rightarrow> 'row world \<Rightarrow> appConfig \<Rightarrow> principal \<Rightarrow> string \<Rightarrow> bool" where
  "hasWorkflowRole sq w app p requiredRole =
     (if requiredRole = [] then True
      else if IsAdmin (Some p) then True
      else if resolveAppRole sq w app (Some p) = requiredRole then True
      else hasRole (Role p) requiredRole)"

section \<open>Reading and updating rows\<close>

text \<open>\<^verbatim>\<open>%v\<close> of the state column.\<close>

definition stateText :: "'a wfRow_scheme \<Rightarrow> string" where
  "stateText r = (case wr_state r of None \<Rightarrow> ''<nil>'' | Some s \<Rightarrow> s)"

definition inRowScope :: "'row wfEnv \<Rightarrow> 'row world \<Rightarrow> string \<Rightarrow> principal option \<Rightarrow> string \<Rightarrow> 'row \<Rightarrow> bool" where
  "inRowScope env w table s act row =
     (case rowScopeClause (we_app env) table s act of
        Bypass \<Rightarrow> True | Unscoped \<Rightarrow> True | Scoped pred \<Rightarrow> holds (we_sql env) w table pred row)"

definition hasId :: "'row wfEnv \<Rightarrow> string \<Rightarrow> string \<Rightarrow> 'row \<Rightarrow> bool" where
  "hasId env table i row \<longleftrightarrow> colIs (we_sql env) table ''id'' row (ArgText i)"

definition notDeleted :: "'row wfEnv \<Rightarrow> string \<Rightarrow> 'row \<Rightarrow> bool" where
  "notDeleted env table row \<longleftrightarrow>
     (hasColumn (we_app env) table ''deleted_at'' \<longrightarrow> colNull (we_sql env) table ''deleted_at'' row)"

definition scopedRows :: "'row wfEnv \<Rightarrow> 'row world \<Rightarrow> string \<Rightarrow> string \<Rightarrow> principal option \<Rightarrow> string \<Rightarrow> 'row list" where
  "scopedRows env w table i s act =
     filter (\<lambda>row. hasId env table i row \<and> notDeleted env table row \<and> inRowScope env w table s act row) (w_rows w table)"

definition setState :: "'a wfRow_scheme wfEnv \<Rightarrow> string \<Rightarrow> string \<Rightarrow> string \<Rightarrow> 'a wfRow_scheme \<Rightarrow> 'a wfRow_scheme" where
  "setState env table to next r =
     (let r' = r\<lparr>wr_state := Some to\<rparr> in
      if hasColumn (we_app env) table ''updated_at'' then r'\<lparr>wr_updated := Some next\<rparr> else r')"

definition updateRows :: "('row \<Rightarrow> bool) \<Rightarrow> ('row \<Rightarrow> 'row) \<Rightarrow> string \<Rightarrow> 'row world \<Rightarrow> 'row world" where
  "updateRows P f table w = w\<lparr>w_rows := (w_rows w)(table := map (\<lambda>r. if P r then f r else r) (w_rows w table))\<rparr>"

text \<open>The next version of the row of an id, read in the transaction; \<open>None\<close> when there is no such row.\<close>

definition nextStamp :: "'a wfRow_scheme wfEnv \<Rightarrow> 'a wfRow_scheme world \<Rightarrow> string \<Rightarrow> string \<Rightarrow> string option" where
  "nextStamp env w table i =
     (if \<not> hasColumn (we_app env) table ''updated_at'' then Some []
      else case find (hasId env table i) (w_rows w table) of
        None \<Rightarrow> None
      | Some r \<Rightarrow>
        (case prepareUpdateTimestamp (we_stamp env) (we_format env) (w_now w) (wr_updated r) [] of
           StampConflict \<Rightarrow> None | StampNext next _ \<Rightarrow> Some next))"

section \<open>A transition\<close>

record wfRequest =
  fq_session :: "principal option"
  fq_csrf :: bool
  fq_id :: string
  fq_to :: "string option"

datatype wfAnswer = WfRefused nat | WfMoved string string

definition commitTransition ::
    "'a wfRow_scheme wfEnv \<Rightarrow> workflow \<Rightarrow> principal \<Rightarrow> string \<Rightarrow> string \<Rightarrow> transition \<Rightarrow> 'a wfRow_scheme \<Rightarrow> 'a wfRow_scheme world \<Rightarrow> wfAnswer \<times> 'a wfRow_scheme world" where
  "commitTransition env fl p i to tr first w =
     (case scopedRows env w (wf_table fl) i (Some p) ''edit'' of
        [row] \<Rightarrow>
          if stateText row \<noteq> stateText first then (WfRefused 409, w)
          else if tr_when tr \<noteq> [] \<and> \<not> we_when env w (wf_table fl) (tr_when tr) row then (WfRefused 422, w)
          else
            (case we_before env w (row\<lparr>wr_state := Some to\<rparr>) of
               None \<Rightarrow> (WfRefused 422, w)
             | Some w2 \<Rightarrow>
               (case nextStamp env w2 (wf_table fl) i of
                  None \<Rightarrow> (WfRefused 500, w)
                | Some next \<Rightarrow>
                  let hit = (\<lambda>r. hasId env (wf_table fl) i r \<and>
                        (\<not> we_encrypted env \<longrightarrow> wr_state first \<noteq> None \<and> wr_state r = wr_state first) \<and>
                        notDeleted env (wf_table fl) r \<and> inRowScope env w2 (wf_table fl) (Some p) ''edit'' r) in
                  if \<not> list_ex hit (w_rows w2 (wf_table fl)) then (WfRefused 409, w)
                  else
                    let w3 = updateRows hit (setState env (wf_table fl) to next) (wf_table fl) w2 in
                    (case filter (hasId env (wf_table fl) i) (w_rows w3 (wf_table fl)) of
                       [updated] \<Rightarrow>
                         (case we_after env w3 row updated of
                            None \<Rightarrow> (WfRefused 500, w)
                          | Some w4 \<Rightarrow> (WfMoved (stateText first) to, w4))
                     | _ \<Rightarrow> (WfRefused 500, w))))
      | _ \<Rightarrow> (WfRefused 404, w))"

definition handleTransition ::
    "'a wfRow_scheme wfEnv \<Rightarrow> workflow \<Rightarrow> wfRequest \<Rightarrow> lockRow list \<Rightarrow> 'a wfRow_scheme world \<Rightarrow> 'a wfRow_scheme world \<Rightarrow>
     wfAnswer \<times> 'a wfRow_scheme world" where
  "handleTransition env fl q locks w0 w =
     (case fq_session q of
        None \<Rightarrow> (WfRefused 401, w)
      | Some p \<Rightarrow>
        if checkScope (scopeView (Some p)) (wf_table fl) ''write'' \<noteq> None then (WfRefused 403, w)
        else if EnforceCRUDAccess w0 (we_app env) (wf_table fl) OpUpdate (Some p) 0 \<noteq> CrudPass then (WfRefused 404, w)
        else if \<not> fq_csrf q then (WfRefused 403, w)
        else if we_owned env then (WfRefused 409, w)
        else if fq_id q = [] then (WfRefused 400, w)
        else if \<not> rowIDCanonical (we_float env) (we_app env) (wf_table fl) (fq_id q) then (WfRefused 404, w)
        else if fst (CheckLock (wf_table fl) (fq_id q) (UserID p) (w_now w0) locks) \<noteq> None \<and>
           canAccessRowScoped (we_sql env) (we_float env) w0 (we_app env) (wf_table fl) (fq_id q) (Some p) ''edit'' then (WfRefused 409, w)
        else (case fq_to q of
          None \<Rightarrow> (WfRefused 400, w)
        | Some to \<Rightarrow>
          if to = [] then (WfRefused 400, w)
          else (case scopedRows env w0 (wf_table fl) (fq_id q) (Some p) ''edit'' of
            [] \<Rightarrow> (WfRefused 404, w)
          | first # _ \<Rightarrow>
            (case wf_transitions fl (stateText first) of
               None \<Rightarrow> (WfRefused 409, w)
             | Some targets \<Rightarrow>
               (case targets to of
                  None \<Rightarrow> (WfRefused 409, w)
                | Some tr \<Rightarrow>
                  if tr_role tr \<noteq> [] \<and> \<not> hasWorkflowRole (we_sql env) w0 (we_app env) p (tr_role tr) then (WfRefused 403, w)
                  else commitTransition env fl p (fq_id q) to tr first w)))))"

text \<open>The targets a caller is offered, out of the ones asked about: the code lists them in the order of a map.\<close>

definition handleAvailableTransitions ::
    "'a wfRow_scheme wfEnv \<Rightarrow> workflow \<Rightarrow> principal option \<Rightarrow> string \<Rightarrow> 'a wfRow_scheme world \<Rightarrow> nat + string \<times> (string \<Rightarrow> transition option)" where
  "handleAvailableTransitions env fl s i w =
     (case s of None \<Rightarrow> Inl 401
      | Some p \<Rightarrow>
        if checkScope (scopeView s) (wf_table fl) ''read'' \<noteq> None then Inl 403
        else if EnforceCRUDAccess w (we_app env) (wf_table fl) OpRead s 0 \<noteq> CrudPass then Inl 404
        else if i = [] then Inl 400
        else if \<not> rowIDCanonical (we_float env) (we_app env) (wf_table fl) i then Inl 404
        else (case scopedRows env w (wf_table fl) i s ''view'' of
          [] \<Rightarrow> Inl 404
        | row # _ \<Rightarrow>
          let targets = (case wf_transitions fl (stateText row) of None \<Rightarrow> Map.empty | Some ts \<Rightarrow> ts) in
          Inr (stateText row, \<lambda>to. case targets to of None \<Rightarrow> None
            | Some t \<Rightarrow> if tr_role t = [] \<or> hasWorkflowRole (we_sql env) w (we_app env) p (tr_role t) then Some t else None)))"

section \<open>Timeouts\<close>

definition applyWorkflowTimeout ::
    "'a wfRow_scheme wfEnv \<Rightarrow> workflow \<Rightarrow> string \<Rightarrow> string \<Rightarrow> string \<Rightarrow> 'a wfRow_scheme world \<Rightarrow> bool \<times> 'a wfRow_scheme world" where
  "applyWorkflowTimeout env fl i fromState toState w =
     (let hit = (\<lambda>r. hasId env (wf_table fl) i r \<and> wr_state r = Some fromState \<and> notDeleted env (wf_table fl) r) in
      if length (filter hit (w_rows w (wf_table fl))) \<noteq> 1 then (False, w)
      else case nextStamp env w (wf_table fl) i of
        None \<Rightarrow> (False, w)
      | Some next \<Rightarrow> (True, updateRows hit (setState env (wf_table fl) toState next) (wf_table fl) w))"

definition timedOut :: "'a wfRow_scheme wfEnv \<Rightarrow> workflow \<Rightarrow> string \<Rightarrow> wfTimeout \<Rightarrow> 'a wfRow_scheme world \<Rightarrow> string list" where
  "timedOut env fl state t w =
     map wr_id (filter (\<lambda>r. wr_state r = Some state \<and> notDeleted env (wf_table fl) r \<and>
        (case wr_updated r of None \<Rightarrow> False
         | Some u \<Rightarrow> str_less u (we_cutoff env (secOf (w_now w) - to_after t div nsPerSecond)))) (w_rows w (wf_table fl)))"

definition checkWorkflowTimeouts :: "'a wfRow_scheme wfEnv \<Rightarrow> workflow \<Rightarrow> 'a wfRow_scheme world \<Rightarrow> 'a wfRow_scheme world" where
  "checkWorkflowTimeouts env fl w =
     foldl (\<lambda>w (state, t).
        if to_after t \<le> 0 then w
        else foldl (\<lambda>w i. snd (applyWorkflowTimeout env fl i state (to_state t) w)) w (timedOut env fl state t w))
       w (wf_timeouts fl)"

section \<open>What a transition went through\<close>

lemma handle_moved:
  assumes "handleTransition env fl q locks w0 w = (WfMoved from to, w')"
  obtains p first rest targets tr t where "fq_session q = Some p" "checkScope (scopeView (Some p)) (wf_table fl) ''write'' = None"
    "EnforceCRUDAccess w0 (we_app env) (wf_table fl) OpUpdate (Some p) 0 = CrudPass" "fq_csrf q" "\<not> we_owned env"
    "fst (CheckLock (wf_table fl) (fq_id q) (UserID p) (w_now w0) locks) = None \<or>
      \<not> canAccessRowScoped (we_sql env) (we_float env) w0 (we_app env) (wf_table fl) (fq_id q) (Some p) ''edit''"
    "scopedRows env w0 (wf_table fl) (fq_id q) (Some p) ''edit'' = first # rest" "wf_transitions fl (stateText first) = Some targets"
    "targets t = Some tr" "fq_to q = Some t"
    "tr_role tr = [] \<or> hasWorkflowRole (we_sql env) w0 (we_app env) p (tr_role tr)"
    "commitTransition env fl p (fq_id q) t tr first w = (WfMoved from to, w')"
proof -
  obtain p where p: "fq_session q = Some p" using assms by (cases "fq_session q") (simp_all add: handleTransition_def)
  note run = assms [unfolded handleTransition_def p option.case]
  have c: "checkScope (scopeView (Some p)) (wf_table fl) ''write'' = None"
    using run by (cases "checkScope (scopeView (Some p)) (wf_table fl) ''write''") simp_all
  have g: "EnforceCRUDAccess w0 (we_app env) (wf_table fl) OpUpdate (Some p) 0 = CrudPass" "fq_csrf q" "\<not> we_owned env"
    "fst (CheckLock (wf_table fl) (fq_id q) (UserID p) (w_now w0) locks) = None \<or>
      \<not> canAccessRowScoped (we_sql env) (we_float env) w0 (we_app env) (wf_table fl) (fq_id q) (Some p) ''edit''"
    using run by (simp_all split: if_split_asm)
  obtain t first rest where t: "fq_to q = Some t" "scopedRows env w0 (wf_table fl) (fq_id q) (Some p) ''edit'' = first # rest"
    using run by (simp split: if_split_asm option.split_asm list.split_asm)
  then obtain targets tr where m: "wf_transitions fl (stateText first) = Some targets" "targets t = Some tr"
    using run by (simp split: if_split_asm option.split_asm)
  have "tr_role tr = [] \<or> hasWorkflowRole (we_sql env) w0 (we_app env) p (tr_role tr)"
    "commitTransition env fl p (fq_id q) t tr first w = (WfMoved from to, w')"
    using run t m by (simp_all split: if_split_asm)
  with p c g t m show ?thesis using that by blast
qed

definition hitRow :: "'a wfRow_scheme wfEnv \<Rightarrow> workflow \<Rightarrow> principal \<Rightarrow> string \<Rightarrow> 'a wfRow_scheme \<Rightarrow> 'a wfRow_scheme world \<Rightarrow> 'a wfRow_scheme \<Rightarrow> bool" where
  "hitRow env fl p i first w r \<longleftrightarrow> hasId env (wf_table fl) i r \<and>
     (\<not> we_encrypted env \<longrightarrow> wr_state first \<noteq> None \<and> wr_state r = wr_state first) \<and>
     notDeleted env (wf_table fl) r \<and> inRowScope env w (wf_table fl) (Some p) ''edit'' r"

lemma commit_moved:
  assumes "commitTransition env fl p i t tr first w = (WfMoved from to, w')"
  obtains row w2 nx updated where "from = stateText first" "to = t" "scopedRows env w (wf_table fl) i (Some p) ''edit'' = [row]"
    "stateText row = from" "tr_when tr = [] \<or> we_when env w (wf_table fl) (tr_when tr) row"
    "we_before env w (row\<lparr>wr_state := Some t\<rparr>) = Some w2" "nextStamp env w2 (wf_table fl) i = Some nx"
    "we_after env (updateRows (hitRow env fl p i first w2) (setState env (wf_table fl) t nx) (wf_table fl) w2) row updated = Some w'"
proof -
  obtain row where row: "scopedRows env w (wf_table fl) i (Some p) ''edit'' = [row]"
    using assms unfolding commitTransition_def by (simp split: list.split_asm)
  note run = assms [unfolded commitTransition_def row list.case Let_def]
  have ns: "\<not> stateText row \<noteq> stateText first" by (rule notI) (use run in simp)
  then have same: "stateText row = stateText first" by simp
  note run = run [unfolded if_not_P [OF ns]]
  have holds_when: "tr_when tr = [] \<or> we_when env w (wf_table fl) (tr_when tr) row"
    by (rule ccontr) (use run in simp)
  then have nw: "\<not> (tr_when tr \<noteq> [] \<and> \<not> we_when env w (wf_table fl) (tr_when tr) row)" by blast
  note run = run [unfolded if_not_P [OF nw]]
  obtain w2 where w2: "we_before env w (row\<lparr>wr_state := Some t\<rparr>) = Some w2"
    using run by (cases "we_before env w (row\<lparr>wr_state := Some t\<rparr>)") simp_all
  note run = run [unfolded w2 option.case]
  obtain nx where n: "nextStamp env w2 (wf_table fl) i = Some nx"
    using run by (cases "nextStamp env w2 (wf_table fl) i") simp_all
  note run = run [unfolded n option.case]
  define w3 where "w3 = updateRows (hitRow env fl p i first w2) (setState env (wf_table fl) t nx) (wf_table fl) w2"
  have hr: "(\<lambda>r. hasId env (wf_table fl) i r \<and> (\<not> we_encrypted env \<longrightarrow> wr_state first \<noteq> None \<and> wr_state r = wr_state first) \<and>
      notDeleted env (wf_table fl) r \<and> inRowScope env w2 (wf_table fl) (Some p) ''edit'' r) = hitRow env fl p i first w2"
    by (simp add: hitRow_def [abs_def])
  note run = run [unfolded hr, folded w3_def]
  have hit: "\<not> \<not> list_ex (hitRow env fl p i first w2) (w_rows w2 (wf_table fl))"
    by (rule notI) (use run in simp)
  note run = run [unfolded if_not_P [OF hit]]
  obtain updated where u: "filter (hasId env (wf_table fl) i) (w_rows w3 (wf_table fl)) = [updated]"
    using run by (simp split: list.split_asm)
  note run = run [unfolded u list.case]
  obtain w4 where w4: "we_after env w3 row updated = Some w4"
    using run by (cases "we_after env w3 row updated") simp_all
  have "w' = w4" "from = stateText first" "to = t" using run w4 by simp_all
  with row w2 n w4 same holds_when show ?thesis unfolding w3_def by (intro that) simp_all
qed

lemma scopedRows_D:
  assumes "row \<in> set (scopedRows env w table i s act)"
  shows "row \<in> set (w_rows w table)" "hasId env table i row" "inRowScope env w table s act row"
  using assms by (auto simp: scopedRows_def)

text \<open>C11: A transition that takes place follows an edge the workflow declares from the state the row had inside the
  transaction, by a caller with write scope, an open table gate, the row in its edit scope, the edge's role, no other user's
  lock on it, and the edge's condition holding of the row; only rows of that id in that state are touched, and become the
  target state.\<close>

theorem transition_guarded:
  assumes "handleTransition env fl q locks w0 w = (WfMoved from to, w')"
  shows "\<exists>p targets tr row w2 first nx updated. fq_session q = Some p \<and> fq_csrf q \<and>
     wf_transitions fl from = Some targets \<and> targets to = Some tr \<and>
     (tr_role tr = [] \<or> hasWorkflowRole (we_sql env) w0 (we_app env) p (tr_role tr)) \<and>
     checkScope (scopeView (Some p)) (wf_table fl) ''write'' = None \<and>
     EnforceCRUDAccess w0 (we_app env) (wf_table fl) OpUpdate (Some p) 0 = CrudPass \<and>
     (fst (CheckLock (wf_table fl) (fq_id q) (UserID p) (w_now w0) locks) = None \<or>
        \<not> canAccessRowScoped (we_sql env) (we_float env) w0 (we_app env) (wf_table fl) (fq_id q) (Some p) ''edit'') \<and>
     row \<in> set (w_rows w (wf_table fl)) \<and> hasId env (wf_table fl) (fq_id q) row \<and> stateText row = from \<and>
     inRowScope env w (wf_table fl) (Some p) ''edit'' row \<and>
     (tr_when tr = [] \<or> we_when env w (wf_table fl) (tr_when tr) row) \<and>
     we_before env w (row\<lparr>wr_state := Some to\<rparr>) = Some w2 \<and> stateText first = from \<and>
     we_after env (updateRows (hitRow env fl p (fq_id q) first w2) (setState env (wf_table fl) to nx) (wf_table fl) w2) row updated = Some w'"
  using assms
proof (cases rule: handle_moved)
  case (1 p first rest targets tr t)
  from 1(12) show ?thesis
  proof (cases rule: commit_moved)
    case (1 row w2 nx updated)
    note hm = \<open>fq_session q = Some p\<close> and cm = 1
    have "row \<in> set (scopedRows env w (wf_table fl) (fq_id q) (Some p) ''edit'')" by (simp add: cm(3))
    note sr = scopedRows_D [OF this]
    show ?thesis
      by (intro exI [of _ p] exI [of _ targets] exI [of _ tr] exI [of _ row] exI [of _ w2] exI [of _ first] exI [of _ nx] exI [of _ updated] conjI)
        (use \<open>fq_session q = Some p\<close> cm sr \<open>fq_csrf q\<close> \<open>wf_transitions fl (stateText first) = Some targets\<close> \<open>targets t = Some tr\<close>
          \<open>tr_role tr = [] \<or> _\<close> \<open>checkScope _ _ _ = None\<close> \<open>EnforceCRUDAccess _ _ _ _ _ _ = CrudPass\<close> \<open>fst _ = None \<or> _\<close> in simp_all)
  qed
qed

section \<open>The version clock\<close>


section \<open>States over a run\<close>

definition wfEdges :: "workflow \<Rightarrow> (string \<times> string) set" where
  "wfEdges fl = {(a, b). (\<exists>ts. wf_transitions fl a = Some ts \<and> ts b \<noteq> None) \<or>
     (\<exists>t. (a, t) \<in> set (wf_timeouts fl) \<and> 0 < to_after t \<and> b = to_state t)}"

text \<open>The rows' states stay what they were: what is relied on of the app's hooks, and what every other write of the
  framework does, since an update may not set a state column.\<close>

definition keepsStates :: "string \<Rightarrow> 'a wfRow_scheme world \<Rightarrow> 'a wfRow_scheme world \<Rightarrow> bool" where
  "keepsStates table w w' \<longleftrightarrow>
     (\<forall>r' \<in> set (w_rows w' table). \<exists>r \<in> set (w_rows w table). wr_id r' = wr_id r \<and> stateText r' = stateText r)"

definition hooksKeepStates :: "'a wfRow_scheme wfEnv \<Rightarrow> workflow \<Rightarrow> bool" where
  "hooksKeepStates env fl \<longleftrightarrow>
     (\<forall>w r w'. we_before env w r = Some w' \<longrightarrow> keepsStates (wf_table fl) w w') \<and>
     (\<forall>w r u w'. we_after env w r u = Some w' \<longrightarrow> keepsStates (wf_table fl) w w')"

text \<open>The state a create gives its row: the sent value unless it is refused, else the column's default.\<close>

definition createdState :: "workflow \<Rightarrow> string option \<Rightarrow> string option \<Rightarrow> string option" where
  "createdState fl deflt sent =
     (if sent = None \<or> workflowCreateStateRefused [fl] (wf_table fl) (wf_field fl) sent then deflt else sent)"

inductive wfRun :: "'a wfRow_scheme wfEnv \<Rightarrow> workflow \<Rightarrow> string option \<Rightarrow> 'a wfRow_scheme world \<Rightarrow> bool" for env fl deflt where
  no_rows: "w_rows w (wf_table fl) = [] \<Longrightarrow> wfRun env fl deflt w"
| create_row: "wfRun env fl deflt w \<Longrightarrow> w_rows w' (wf_table fl) = w_rows w (wf_table fl) @ [r] \<Longrightarrow>
     wr_state r = createdState fl deflt sent \<Longrightarrow> wfRun env fl deflt w'"
| transition: "wfRun env fl deflt w \<Longrightarrow> handleTransition env fl q locks w0 w = (a, w') \<Longrightarrow> wfRun env fl deflt w'"
| timeout: "wfRun env fl deflt w \<Longrightarrow> (st, t) \<in> set (wf_timeouts fl) \<Longrightarrow> 0 < to_after t \<Longrightarrow>
     wfRun env fl deflt (snd (applyWorkflowTimeout env fl i st (to_state t) w))"
| other_write: "wfRun env fl deflt w \<Longrightarrow> keepsStates (wf_table fl) w w' \<Longrightarrow> wfRun env fl deflt w'"

lemma foldl_keep: "P w \<Longrightarrow> (\<And>w x. P w \<Longrightarrow> x \<in> set xs \<Longrightarrow> P (f w x)) \<Longrightarrow> P (foldl f w xs)"
  by (induction xs arbitrary: w) simp_all

text \<open>A sweep is a sequence of such timeouts.\<close>

lemma run_sweep: "wfRun env fl deflt w \<Longrightarrow> wfRun env fl deflt (checkWorkflowTimeouts env fl w)"
  unfolding checkWorkflowTimeouts_def
proof (erule foldl_keep)
  fix w x assume w: "wfRun env fl deflt w" and x: "x \<in> set (wf_timeouts fl)"
  obtain st t where st: "x = (st, t)" by (cases x)
  have "wfRun env fl deflt (foldl (\<lambda>w i. snd (applyWorkflowTimeout env fl i st (to_state t) w)) w (timedOut env fl st t w))"
    if "0 < to_after t"
    using w by (rule foldl_keep) (use x st that wfRun.timeout in blast)
  with w st show "wfRun env fl deflt (case x of (state, t) \<Rightarrow> if to_after t \<le> 0 then w
      else foldl (\<lambda>w i. snd (applyWorkflowTimeout env fl i state (to_state t) w)) w (timedOut env fl state t w))"
    by simp
qed

definition statesOk :: "workflow \<Rightarrow> string option \<Rightarrow> 'a wfRow_scheme world \<Rightarrow> bool" where
  "statesOk fl deflt w \<longleftrightarrow> (\<forall>r \<in> set (w_rows w (wf_table fl)). \<exists>s0 \<in> {wf_initial fl, case deflt of None \<Rightarrow> ''<nil>'' | Some d \<Rightarrow> d}.
     (s0, stateText r) \<in> (wfEdges fl)\<^sup>*)"

lemma statesOk_keep: "statesOk fl deflt w \<Longrightarrow> keepsStates (wf_table fl) w w' \<Longrightarrow> statesOk fl deflt w'"
  unfolding statesOk_def keepsStates_def by metis

lemma stateText_set [simp]: "stateText (setState env t to nx r) = to"
  by (simp add: setState_def stateText_def Let_def)

lemma statesOk_update:
  assumes "statesOk fl deflt w" "\<And>r. r \<in> set (w_rows w (wf_table fl)) \<Longrightarrow> P r \<Longrightarrow> (stateText r, to) \<in> wfEdges fl"
  shows "statesOk fl deflt (updateRows P (setState env (wf_table fl) to nx) (wf_table fl) w)"
proof -
  have "\<exists>s0 \<in> {wf_initial fl, case deflt of None \<Rightarrow> ''<nil>'' | Some d \<Rightarrow> d}. (s0, to) \<in> (wfEdges fl)\<^sup>*"
    if "r \<in> set (w_rows w (wf_table fl))" "P r" for r
    using assms that unfolding statesOk_def by (meson rtrancl.rtrancl_into_rtrancl)
  then show ?thesis using assms(1) unfolding statesOk_def updateRows_def by auto
qed

lemma statesOk_transition:
  assumes "handleTransition env fl q locks w0 w = (WfMoved from to, w')" "statesOk fl deflt w" "hooksKeepStates env fl" "\<not> we_encrypted env"
  shows "statesOk fl deflt w'"
  using assms(1)
proof (cases rule: handle_moved)
  case (1 p first rest targets tr t)
  from 1(12) show ?thesis
  proof (cases rule: commit_moved)
    case (1 row w2 nx updated)
    have w2: "statesOk fl deflt w2" using statesOk_keep [OF assms(2)] assms(3) 1(6) unfolding hooksKeepStates_def by blast
    have "(stateText r, t) \<in> wfEdges fl" if "hitRow env fl p (fq_id q) first w2 r" for r
    proof -
      have "wr_state r = wr_state first" using that assms(4) by (simp add: hitRow_def)
      then have "stateText r = stateText first" by (simp add: stateText_def)
      then show ?thesis using \<open>wf_transitions fl (stateText first) = Some targets\<close> \<open>targets t = Some tr\<close> by (simp add: wfEdges_def)
    qed
    with statesOk_update [OF w2] have "statesOk fl deflt (updateRows (hitRow env fl p (fq_id q) first w2) (setState env (wf_table fl) t nx) (wf_table fl) w2)"
      by blast
    then show ?thesis using statesOk_keep assms(3) 1(8) unfolding hooksKeepStates_def by blast
  qed
qed

lemma refused_same: "handleTransition env fl q locks w0 w = (WfRefused n, w') \<Longrightarrow> w' = w"
  unfolding handleTransition_def commitTransition_def Let_def
  by (simp split: option.split_asm if_split_asm list.split_asm)


section \<open>Witnesses\<close>

definition exOrdersApp :: appConfig where
  "exOrdersApp = \<lparr>app_tables = [\<lparr>t_name = ''orders'', t_columns = map (\<lambda>c. \<lparr>c_name = c, c_type = ''TEXT''\<rparr>) [''id'', ''status'', ''updated_at'']\<rparr>],
     app_group = None, app_access = None, app_roles = None, app_joins = []\<rparr>"

definition exBoss :: principal where
  "exBoss = exMember\<lparr>Scopes := ''*'', GlobalAdmin := True\<rparr>"

definition exRowSql :: "wfRow sqlite" where
  "exRowSql = \<lparr>colIs = (\<lambda>t c r v. c = ''id'' \<and> v = ArgText (wr_id r)), colsEqual = (\<lambda>_ _ _ _ _ _. False), colNull = (\<lambda>_ _ _. True),
     colText = (\<lambda>_ _ _. []), sqlDate = (\<lambda>_. None)\<rparr>"

definition readInt :: "string \<Rightarrow> int option" where
  "readInt t = Some (if prefix ''-'' t then - number (tl t) else number t)"

lemma readInt_format: "readInt (formatInt t) = Some t"
  using prefix_formatInt(1) [of t] by (simp add: readInt_def) (simp add: formatInt_def)

definition exWfEnv :: "wfRow wfEnv" where
  "exWfEnv = \<lparr>we_sql = exRowSql, we_float = (\<lambda>_. None), we_app = exOrdersApp, we_stamp = readInt, we_format = formatInt,
     we_cutoff = formatInt, we_when = (\<lambda>_ _ _ _. True), we_owned = False, we_encrypted = False, we_before = (\<lambda>w r. Some w),
     we_after = (\<lambda>w r u. Some w)\<rparr>"

definition exOrderFlow :: workflow where
  "exOrderFlow = \<lparr>wf_table = ''orders'', wf_field = ''status'', wf_initial = ''draft'',
     wf_transitions = [''draft'' \<mapsto> [''paid'' \<mapsto> \<lparr>tr_role = [], tr_when = []\<rparr>]],
     wf_timeouts = [(''paid'', \<lparr>to_after = 60 * nsPerSecond, to_state = ''closed''\<rparr>)]\<rparr>"

definition exOrder :: "string \<Rightarrow> int \<Rightarrow> wfRow" where
  "exOrder st t = \<lparr>wr_id = ''1'', wr_state = Some st, wr_updated = Some (formatInt t)\<rparr>"

definition exOrders :: "int \<Rightarrow> wfRow list \<Rightarrow> wfRow world" where
  "exOrders now rs = \<lparr>w_now = now, w_rows = (\<lambda>t. if t = ''orders'' then rs else []), w_perms = [], w_grants = []\<rparr>"

definition exPay :: wfRequest where
  "exPay = \<lparr>fq_session = Some exBoss, fq_csrf = True, fq_id = ''1'', fq_to = Some ''paid''\<rparr>"

lemmas exWf = exWfEnv_def exOrderFlow_def exOrder_def exOrders_def exRowSql_def

lemma ex_column: "hasColumn exOrdersApp ''orders'' ''updated_at''" "\<not> hasColumn exOrdersApp ''orders'' ''deleted_at''"
  "\<not> hasColumn exOrdersApp ''orders'' ''user_id''" "groupKey exOrdersApp = []"
  by (simp_all add: hasColumn_def exOrdersApp_def sqliteIdentifierFold_def groupKey_def go_eval)

lemma ex_boss: "IsAdmin (Some exBoss)" "IsAdminBypass (Some exBoss)" "checkScope (scopeView (Some exBoss)) ''orders'' ''write'' = None"
  by (simp_all add: exBoss_def exMember_def principal_defs checkScope_def session.defs hasScope_def scopesAllow_def)

lemma ex_flow_gate: "EnforceCRUDAccess (exOrders n rs) exOrdersApp ''orders'' OpUpdate (Some exBoss) 0 = CrudPass"
proof -
  have m: "tableMode exOrdersApp ''orders'' OpUpdate = ''admin''"
    by (simp add: tableMode_def ModeFor_def DeclaredModeFor_def implicitDefault_def hasUserColumn_def tableIsGrouped_def ex_column)
      (simp add: exOrdersApp_def implicitDefault_def)
  have "tableModeAllowed (exOrders n rs) exOrdersApp ''orders'' OpUpdate ''admin'' (Some exBoss) 0"
    by (simp add: tableModeAllowed_def columnScopedMode_def Allowed_def ex_boss ex_column Let_def)
  with m show ?thesis by (simp add: EnforceCRUDAccess_def)
qed

lemma ex_scoped: "scopedRows exWfEnv (exOrders n [exOrder st t]) ''orders'' ''1'' (Some exBoss) ''edit'' = [exOrder st t]"
  using ex_column ex_boss by (simp add: scopedRows_def hasId_def notDeleted_def inRowScope_def rowScopeClause_def exWf)

lemma ex_stamp: "nextStamp exWfEnv (exOrders n [exOrder st t]) ''orders'' ''1'' = Some (formatInt (if t < n then n else t + 1))"
proof -
  have r: "readInt (formatInt t) = Some t" by (rule readInt_format)
  show ?thesis using ex_column r by (simp add: nextStamp_def hasId_def prepareUpdateTimestamp_def exWf)
qed

lemma ex_moved:
  "handleTransition exWfEnv exOrderFlow exPay [] (exOrders 9 [exOrder ''draft'' 5]) (exOrders 9 [exOrder ''draft'' 5]) =
     (WfMoved ''draft'' ''paid'', exOrders 9 [exOrder ''paid'' 9])"
proof -
  let ?w = "exOrders 9 [exOrder ''draft'' 5]"
  have t: "wf_table exOrderFlow = ''orders''" "wf_transitions exOrderFlow ''draft'' = Some [''paid'' \<mapsto> \<lparr>tr_role = [], tr_when = []\<rparr>]"
    by (simp_all add: exOrderFlow_def)
  have q: "fq_session exPay = Some exBoss" "fq_csrf exPay" "fq_id exPay = ''1''" "fq_to exPay = Some ''paid''" by (simp_all add: exPay_def)
  have e: "we_app exWfEnv = exOrdersApp" "\<not> we_owned exWfEnv" "\<not> we_encrypted exWfEnv" "we_float exWfEnv = (\<lambda>_. None)"
    "we_before exWfEnv = (\<lambda>w r. Some w)" "we_after exWfEnv = (\<lambda>w r u. Some w)" by (simp_all add: exWfEnv_def)
  have c: "rowIDCanonical (\<lambda>_. None) exOrdersApp ''orders'' ''1''" by (simp add: rowIDCanonical_def)
  have l: "fst (CheckLock ''orders'' ''1'' u n []) = None" for u n by (simp add: CheckLock_def purgeRecord_def lookupLock_def)
  have s: "stateText (exOrder ''draft'' 5) = ''draft''" by (simp add: stateText_def exOrder_def)
  have n: "nextStamp exWfEnv ?w ''orders'' ''1'' = Some (formatInt 9)" using ex_stamp [of 9 "''draft''" 5] by simp
  define hit where "hit = (\<lambda>r. hasId exWfEnv ''orders'' ''1'' r \<and> (\<not> we_encrypted exWfEnv \<longrightarrow> wr_state (exOrder ''draft'' 5) \<noteq> None \<and>
      wr_state r = wr_state (exOrder ''draft'' 5)) \<and> notDeleted exWfEnv ''orders'' r \<and> inRowScope exWfEnv ?w ''orders'' (Some exBoss) ''edit'' r)"
  have h: "hit (exOrder ''draft'' 5)"
    using ex_column ex_boss by (simp add: hit_def hasId_def notDeleted_def inRowScope_def rowScopeClause_def exWf)
  have u: "updateRows hit (setState exWfEnv ''orders'' ''paid'' (formatInt 9)) ''orders'' ?w = exOrders 9 [exOrder ''paid'' 9]"
  proof -
    have "setState exWfEnv ''orders'' ''paid'' (formatInt 9) (exOrder ''draft'' 5) = exOrder ''paid'' 9"
      using ex_column by (simp add: setState_def exWf)
    with h show ?thesis by (simp add: updateRows_def exOrders_def fun_eq_iff)
  qed
  have f: "filter (hasId exWfEnv ''orders'' ''1'') (w_rows (exOrders 9 [exOrder ''paid'' 9]) ''orders'') = [exOrder ''paid'' 9]"
    by (simp add: hasId_def exWf)
  have ex: "list_ex hit (w_rows ?w ''orders'')" using h by (simp add: exOrders_def)
  have "commitTransition exWfEnv exOrderFlow exBoss ''1'' ''paid'' \<lparr>tr_role = [], tr_when = []\<rparr> (exOrder ''draft'' 5) ?w =
      (WfMoved ''draft'' ''paid'', exOrders 9 [exOrder ''paid'' 9])"
    unfolding commitTransition_def t ex_scoped list.case s Let_def e option.case n hit_def [symmetric, unfolded e] u
    using ex by (simp add: f)
  then show ?thesis
    unfolding handleTransition_def q t e option.case using ex_boss ex_flow_gate c l by (simp add: ex_scoped s t q(2) e(2))
qed

lemma exOrdersRun: "wfRun exWfEnv exOrderFlow (Some ''draft'') (exOrders 9 [exOrder ''paid'' 9])"
proof -
  have e: "wfRun exWfEnv exOrderFlow (Some ''draft'') (exOrders 9 [])" by (rule wfRun.no_rows) (simp add: exOrders_def)
  have "wfRun exWfEnv exOrderFlow (Some ''draft'') (exOrders 9 [exOrder ''draft'' 5])"
    by (rule wfRun.create_row [OF e, where r = "exOrder ''draft'' 5" and sent = None])
      (simp_all add: exOrders_def exOrder_def exOrderFlow_def createdState_def)
  then show ?thesis by (rule wfRun.transition [OF _ ex_moved])
qed


theorem transition_guarded_witness: "\<exists>targets. wf_transitions exOrderFlow ''draft'' = Some targets \<and> targets ''paid'' \<noteq> None"
  using transition_guarded [OF ex_moved] by fastforce


text \<open>A sweep decides once and writes later, on the state alone: a row that has left the state and come back since, and is
  not timed out any more, is moved all the same.\<close>

lemma timeout_ignores_return:
  "timedOut exWfEnv exOrderFlow ''paid'' \<lparr>to_after = 60 * nsPerSecond, to_state = ''closed''\<rparr> (exOrders (90 * nsPerSecond) [exOrder ''paid'' 20]) = [''1''] \<and>
   timedOut exWfEnv exOrderFlow ''paid'' \<lparr>to_after = 60 * nsPerSecond, to_state = ''closed''\<rparr> (exOrders (90 * nsPerSecond) [exOrder ''paid'' 80]) = [] \<and>
   fst (applyWorkflowTimeout exWfEnv exOrderFlow ''1'' ''paid'' ''closed'' (exOrders (90 * nsPerSecond) [exOrder ''paid'' 80]))"
proof -
  have f: "formatInt 20 = ''20''" "formatInt 80 = ''80''" "formatInt 30 = ''30''"
    by (simp_all add: formatInt_def decimal.simps digitChars_def)
  have s: "secOf (90 * nsPerSecond) = 90" "nsPerSecond \<noteq> 0" by (simp_all add: secOf_def nsPerSecond_def)
  have w: "w_now (exOrders (90 * nsPerSecond) rs) = 90 * nsPerSecond" "w_rows (exOrders n rs) ''orders'' = rs" for n rs
    by (simp_all add: exOrders_def)
  have t: "wf_table exOrderFlow = ''orders''" "we_cutoff exWfEnv = formatInt" "we_app exWfEnv = exOrdersApp" by (simp_all add: exOrderFlow_def exWfEnv_def)
  have o: "wr_state (exOrder st n) = Some st" "wr_updated (exOrder st n) = Some (formatInt n)" "wr_id (exOrder st n) = ''1''" for st n
    by (simp_all add: exOrder_def)
  have d: "notDeleted exWfEnv ''orders'' r" "hasId exWfEnv ''orders'' ''1'' (exOrder st n)" for r st n
    using ex_column by (simp_all add: notDeleted_def t hasId_def exWfEnv_def exRowSql_def o)
  have l: "str_less ''20'' ''30''" "\<not> str_less ''80'' ''30''" by (simp_all add: byte_def)
  show ?thesis
    by (simp add: timedOut_def applyWorkflowTimeout_def w t o d s f l ex_stamp byte_def)
qed

end
