(* ===== verification/Outbound_Gate.thy ===== *)
theory Outbound_Gate
  imports Go_Scan "HOL-Library.Word"
begin

unbundle bit_operations_syntax

text \<open>
  The policy of server-side outbound requests (\<^verbatim>\<open>fetch.go\<close>): which addresses are refused, by name before a
  request and by address when it connects, and what a redirect may carry to another origin. An address is a list of
  bytes, four or sixteen of them, with the tests of package \<^verbatim>\<open>net\<close> on it. URL parsing, name lookup and the
  parsing of an address are parameters; a header is its canonical name with its value.
\<close>

section \<open>Addresses\<close>

type_synonym ipAddr = "8 word list"

definition v4InV6Prefix :: ipAddr where "v4InV6Prefix = replicate 10 0 @ [0xff, 0xff]"

definition ipTo4 :: "ipAddr \<Rightarrow> ipAddr option" where
  "ipTo4 ip =
     (if length ip = 4 then Some ip
      else if length ip = 16 \<and> take 12 ip = v4InV6Prefix then Some (drop 12 ip)
      else None)"

definition ipTo16 :: "ipAddr \<Rightarrow> ipAddr option" where
  "ipTo16 ip = (if length ip = 4 then Some (v4InV6Prefix @ ip) else if length ip = 16 then Some ip else None)"

definition isLoopback :: "ipAddr \<Rightarrow> bool" where
  "isLoopback ip = (case ipTo4 ip of Some v4 \<Rightarrow> v4 ! 0 = 127 | None \<Rightarrow> ip = replicate 15 0 @ [1])"

definition isPrivate :: "ipAddr \<Rightarrow> bool" where
  "isPrivate ip =
     (case ipTo4 ip of
        Some v4 \<Rightarrow> v4 ! 0 = 10 \<or> v4 ! 0 = 172 \<and> v4 ! 1 AND 0xf0 = 16 \<or> v4 ! 0 = 192 \<and> v4 ! 1 = 168
      | None \<Rightarrow> length ip = 16 \<and> ip ! 0 AND 0xfe = 0xfc)"

definition isLinkLocalUnicast :: "ipAddr \<Rightarrow> bool" where
  "isLinkLocalUnicast ip =
     (case ipTo4 ip of
        Some v4 \<Rightarrow> v4 ! 0 = 169 \<and> v4 ! 1 = 254
      | None \<Rightarrow> length ip = 16 \<and> ip ! 0 = 0xfe \<and> ip ! 1 AND 0xc0 = 0x80)"

definition isLinkLocalMulticast :: "ipAddr \<Rightarrow> bool" where
  "isLinkLocalMulticast ip =
     (case ipTo4 ip of
        Some v4 \<Rightarrow> v4 ! 0 = 224 \<and> v4 ! 1 = 0 \<and> v4 ! 2 = 0
      | None \<Rightarrow> length ip = 16 \<and> ip ! 0 = 0xff \<and> ip ! 1 AND 0x0f = 0x02)"

definition isMulticast :: "ipAddr \<Rightarrow> bool" where
  "isMulticast ip =
     (case ipTo4 ip of Some v4 \<Rightarrow> v4 ! 0 AND 0xf0 = 0xe0 | None \<Rightarrow> length ip = 16 \<and> ip ! 0 = 0xff)"

definition isUnspecified :: "ipAddr \<Rightarrow> bool" where
  "isUnspecified ip = (case ipTo4 ip of Some v4 \<Rightarrow> v4 = replicate 4 0 | None \<Rightarrow> ip = replicate 16 0)"

definition nat64WellKnownPrefix :: ipAddr where "nat64WellKnownPrefix = [0, 0x64, 0xff, 0x9b, 0, 0, 0, 0, 0, 0, 0, 0]"

definition nat64LocalUsePrefix :: ipAddr where "nat64LocalUsePrefix = [0, 0x64, 0xff, 0x9b, 0, 1]"

function blockedOutboundIP :: "ipAddr \<Rightarrow> bool"
  and isExtraReservedIP :: "ipAddr \<Rightarrow> bool" where
  "blockedOutboundIP ip =
     (isLoopback ip \<or> isPrivate ip \<or> isLinkLocalUnicast ip \<or> isLinkLocalMulticast ip \<or> isMulticast ip \<or>
      isUnspecified ip \<or> isExtraReservedIP ip)"
| "isExtraReservedIP ip =
     (case ipTo4 ip of
        Some v4 \<Rightarrow>
          if v4 ! 0 = 0 then True
          else if v4 ! 0 = 100 \<and> v4 ! 1 AND 0xc0 = 64 then True
          else if v4 ! 0 = 198 \<and> (v4 ! 1 = 18 \<or> v4 ! 1 = 19) then True
          else if 240 \<le> v4 ! 0 then True
          else False
      | None \<Rightarrow>
        (case ipTo16 ip of
           None \<Rightarrow> False
         | Some ip16 \<Rightarrow>
           if ip16 ! 0 = 0xfe \<and> ip16 ! 1 AND 0xc0 = 0xc0 then True
           else if take 12 ip16 = nat64WellKnownPrefix then blockedOutboundIP (take 4 (drop 12 ip16))
           else if take 6 ip16 = nat64LocalUsePrefix then True
           else False))"
  by pat_completeness auto
termination
  by (relation "measure (\<lambda>x. case x of Inl ip \<Rightarrow> 2 * length ip + 1 | Inr ip \<Rightarrow> 2 * length ip)")
    (auto simp: ipTo4_def ipTo16_def split: if_splits)

declare blockedOutboundIP.simps [simp del] isExtraReservedIP.simps [simp del]

section \<open>URLs and connections\<close>

record outURL =
  ou_scheme :: string
  ou_hostname :: string
  ou_port :: string

definition isPrivateURL :: "(string \<Rightarrow> outURL option) \<Rightarrow> (string \<Rightarrow> ipAddr list option) \<Rightarrow> string \<Rightarrow> bool" where
  "isPrivateURL parseURL lookupIP rawURL =
     (case parseURL rawURL of
        None \<Rightarrow> True
      | Some u \<Rightarrow>
        let scheme = to_lower (ou_scheme u); host = ou_hostname u in
        if scheme \<noteq> ''http'' \<and> scheme \<noteq> ''https'' then True
        else if host = [] \<or> host = ''localhost'' \<or> host = ''127.0.0.1'' \<or> host = ''0.0.0.0'' \<or> host = ''::1'' then True
        else if suffix ''.local'' host \<or> suffix ''.internal'' host then True
        else case lookupIP host of
          None \<Rightarrow> True
        | Some ips \<Rightarrow> if ips = [] then True else list_ex blockedOutboundIP ips)"

datatype dialAnswer = DialOk | DialBadAddress | DialUnresolved | DialBlocked

definition strictOutboundDialControl ::
    "(string \<Rightarrow> (string \<times> string) option) \<Rightarrow> (string \<Rightarrow> ipAddr option) \<Rightarrow> string \<Rightarrow> dialAnswer" where
  "strictOutboundDialControl splitHostPort parseIP address =
     (case splitHostPort address of
        None \<Rightarrow> DialBadAddress
      | Some (host, port) \<Rightarrow>
        (case parseIP host of
           None \<Rightarrow> DialUnresolved
         | Some ip \<Rightarrow> if blockedOutboundIP ip then DialBlocked else DialOk))"

section \<open>Redirects\<close>

record outRequest =
  or_url :: outURL
  or_raw :: string
  or_method :: string
  or_header :: "(string \<times> string) list"

definition strictRedirectHeaders :: "string list" where
  "strictRedirectHeaders = [''Accept'', ''Accept-Language'', ''User-Agent'']"

definition redirectPort :: "outURL \<Rightarrow> string" where
  "redirectPort u =
     (if ou_port u \<noteq> [] then ou_port u
      else let s = to_lower (ou_scheme u) in
        if s = ''https'' then ''443'' else if s = ''http'' then ''80'' else [])"

definition sameRedirectOrigin :: "outURL \<Rightarrow> outURL \<Rightarrow> bool" where
  "sameRedirectOrigin from next =
     (if \<not> equal_fold (ou_hostname from) (ou_hostname next) then False
      else if equal_fold (ou_scheme from) (ou_scheme next) then redirectPort from = redirectPort next
      else equal_fold (ou_scheme from) ''http'' \<and> equal_fold (ou_scheme next) ''https'' \<and>
        redirectPort from = ''80'' \<and> redirectPort next = ''443'')"

datatype redirectAnswer = FollowWith outRequest | UseLastResponse | RedirectRefused

definition safeCheckRedirect ::
    "(string \<Rightarrow> outURL option) \<Rightarrow> (string \<Rightarrow> ipAddr list option) \<Rightarrow> outRequest \<Rightarrow> outRequest list \<Rightarrow> redirectAnswer" where
  "safeCheckRedirect parseURL lookupIP req via =
     (if 10 \<le> length via then UseLastResponse
      else if isPrivateURL parseURL lookupIP (or_raw req) then RedirectRefused
      else FollowWith req)"

definition strictRedirectPolicy :: "outRequest \<Rightarrow> outRequest list \<Rightarrow> redirectAnswer" where
  "strictRedirectPolicy req via =
     (if via = [] \<or> sameRedirectOrigin (or_url (hd via)) (or_url req) then FollowWith req
      else if or_method req \<noteq> ''GET'' \<and> or_method req \<noteq> ''HEAD'' then RedirectRefused
      else FollowWith (req\<lparr>or_header := filter (\<lambda>(k, v). k \<in> set strictRedirectHeaders) (or_header req)\<rparr>))"

definition strictCheckRedirect ::
    "(string \<Rightarrow> outURL option) \<Rightarrow> (string \<Rightarrow> ipAddr list option) \<Rightarrow> outRequest \<Rightarrow> outRequest list \<Rightarrow> redirectAnswer" where
  "strictCheckRedirect parseURL lookupIP req via =
     (case safeCheckRedirect parseURL lookupIP req via of
        FollowWith _ \<Rightarrow> strictRedirectPolicy req via
      | a \<Rightarrow> a)"

section \<open>Cache lifetimes\<close>

text \<open>\<open>parseDuration\<close> of the same file: days, else the library's format; 0 for what it cannot read.\<close>

definition fetchDuration :: "(int \<Rightarrow> nat \<Rightarrow> int \<Rightarrow> int) \<Rightarrow> string \<Rightarrow> int" where
  "fetchDuration fr s0 =
     (if s0 = [] then 0
      else let s = trim_space s0 in
        if suffix ''d'' s then
          (let n = (case sscanfInt (trim_suffix s ''d'') of None \<Rightarrow> 0 | Some n \<Rightarrow> n) in wrap64 (n * (24 * 3600 * nsPerSecond)))
        else case parseDuration fr s of None \<Rightarrow> 0 | Some d \<Rightarrow> d)"

section \<open>The address policy as a table of networks\<close>

definition v4Num :: "ipAddr \<Rightarrow> nat" where
  "v4Num ip = foldl (\<lambda>n b. n * 256 + unat b) 0 ip"

definition reservedV4 :: "(ipAddr \<times> nat) list" where
  "reservedV4 = [([0, 0, 0, 0], 8), ([10, 0, 0, 0], 8), ([100, 64, 0, 0], 10), ([127, 0, 0, 0], 8), ([169, 254, 0, 0], 16),
     ([172, 16, 0, 0], 12), ([192, 168, 0, 0], 16), ([198, 18, 0, 0], 15), ([224, 0, 0, 0], 4), ([240, 0, 0, 0], 4)]"

definition inNetwork :: "nat \<Rightarrow> ipAddr \<times> nat \<Rightarrow> bool" where
  "inNetwork x net = (x div 2 ^ (32 - snd net) = v4Num (fst net) div 2 ^ (32 - snd net))"

lemma mask_table:
  "list_all (\<lambda>n. ((word_of_nat n :: 8 word) AND 0xc0 = 64) = (n div 64 = 1) \<and> ((word_of_nat n :: 8 word) AND 0xf0 = 16) = (n div 16 = 1) \<and>
     ((word_of_nat n :: 8 word) AND 0xf0 = 0xe0) = (n div 16 = 14)) [0..<256]"
  by code_simp

lemma byte_masks:
  fixes b :: "8 word"
  shows "b AND 0xc0 = 64 \<longleftrightarrow> unat b div 64 = 1" "b AND 0xf0 = 16 \<longleftrightarrow> unat b div 16 = 1" "b AND 0xf0 = 0xe0 \<longleftrightarrow> unat b div 16 = 14"
proof -
  have "unat b < 2 ^ LENGTH(8)" by (rule unsigned_less)
  then have "unat b \<in> set [0..<256]" by simp
  with mask_table have "((word_of_nat (unat b) :: 8 word) AND 0xc0 = 64) = (unat b div 64 = 1) \<and>
     ((word_of_nat (unat b) :: 8 word) AND 0xf0 = 16) = (unat b div 16 = 1) \<and> ((word_of_nat (unat b) :: 8 word) AND 0xf0 = 0xe0) = (unat b div 16 = 14)"
    unfolding list_all_iff by blast
  then show "b AND 0xc0 = 64 \<longleftrightarrow> unat b div 64 = 1" "b AND 0xf0 = 16 \<longleftrightarrow> unat b div 16 = 1" "b AND 0xf0 = 0xe0 \<longleftrightarrow> unat b div 16 = 14"
    by simp_all
qed

text \<open>The leading bits of a number of four bytes.\<close>

lemma leading_bits:
  fixes a b c d :: nat
  assumes "b < 256" "c < 256" "d < 256"
  shows "(((a * 256 + b) * 256 + c) * 256 + d) div 2 ^ 24 = a"
    "(((a * 256 + b) * 256 + c) * 256 + d) div 2 ^ 16 = a * 256 + b"
    "(((a * 256 + b) * 256 + c) * 256 + d) div 2 ^ 28 = a div 16"
    "(((a * 256 + b) * 256 + c) * 256 + d) div 2 ^ 22 = a * 4 + b div 64"
    "(((a * 256 + b) * 256 + c) * 256 + d) div 2 ^ 20 = a * 16 + b div 16"
    "(((a * 256 + b) * 256 + c) * 256 + d) div 2 ^ 17 = a * 128 + b div 2"
proof -
  let ?x = "((a * 256 + b) * 256 + c) * 256 + d"
  have sixteen: "?x div 2 ^ 16 = a * 256 + b" using assms by (intro div_nat_eqI) simp_all
  then show "?x div 2 ^ 16 = a * 256 + b" .
  have split: "?x div 2 ^ (16 + k) = (a * 256 + b) div 2 ^ k" for k
    using sixteen by (simp add: power_add div_mult2_eq)
  have "?x div 2 ^ 24 = (a * 256 + b) div 2 ^ 8" using split [of 8] by simp
  then show "?x div 2 ^ 24 = a" using assms(1) by simp
  have "?x div 2 ^ 28 = (a * 256 + b) div 2 ^ 12" using split [of 12] by simp
  also have "\<dots> = (a * 256 + b) div 2 ^ 8 div 2 ^ 4" by (simp flip: div_mult2_eq)
  finally show "?x div 2 ^ 28 = a div 16" using assms(1) by simp
  have "?x div 2 ^ 22 = (a * 256 + b) div 2 ^ 6" using split [of 6] by simp
  also have "\<dots> = (b + a * 4 * 64) div 64" by (simp add: ac_simps)
  finally show "?x div 2 ^ 22 = a * 4 + b div 64" by simp
  have "?x div 2 ^ 20 = (a * 256 + b) div 2 ^ 4" using split [of 4] by simp
  also have "\<dots> = (b + a * 16 * 16) div 16" by (simp add: ac_simps)
  finally show "?x div 2 ^ 20 = a * 16 + b div 16" by simp
  have "?x div 2 ^ 17 = (a * 256 + b) div 2" using split [of 1] by simp
  also have "\<dots> = (b + a * 128 * 2) div 2" by (simp add: ac_simps)
  finally show "?x div 2 ^ 17 = a * 128 + b div 2" by (simp only: div_mult_self1)
qed

lemma radix:
  fixes q n :: nat
  assumes "q < n" "r < n"
  shows "a * n + q = b * n + r \<longleftrightarrow> a = b \<and> q = r"
proof
  assume e: "a * n + q = b * n + r"
  have "(a * n + q) div n = a" "(b * n + r) div n = b" using assms by simp_all
  with e show "a = b \<and> q = r" by simp
qed simp

lemma v4Num_four: "v4Num [a, b, c, d] = ((unat a * 256 + unat b) * 256 + unat c) * 256 + unat d"
  by (simp add: v4Num_def)

lemma byte_small: "unat (b :: 8 word) < 256"
proof -
  have "unat b < 2 ^ LENGTH(8)" by (rule unsigned_less)
  then show ?thesis by simp
qed

lemma inNetwork_four:
  "list_ex (inNetwork (v4Num [a, b, c, d])) reservedV4 \<longleftrightarrow>
     unat a = 0 \<or> unat a = 10 \<or> unat a = 100 \<and> unat b div 64 = 1 \<or> unat a = 127 \<or> unat a = 169 \<and> unat b = 254 \<or>
     unat a = 172 \<and> unat b div 16 = 1 \<or> unat a = 192 \<and> unat b = 168 \<or> unat a = 198 \<and> unat b div 2 = 9 \<or>
     unat a div 16 = 14 \<or> unat a div 16 = 15"
proof -
  note lb = leading_bits [OF byte_small [of b] byte_small [of c] byte_small [of d], of "unat a"]
  have q: "unat b div 64 < 4" "unat b div 16 < 16" "unat b div 2 < 128" using byte_small [of b] by (simp_all add: less_mult_imp_div_less)
  have n: "v4Num [0,0,0,0] = 0" "v4Num [10,0,0,0] = 10 * 2 ^ 24" "v4Num [100,64,0,0] = 100 * 2 ^ 24 + 2 ^ 22" "v4Num [127,0,0,0] = 127 * 2 ^ 24"
    "v4Num [169,254,0,0] = (169 * 256 + 254) * 2 ^ 16" "v4Num [172,16,0,0] = (172 * 16 + 1) * 2 ^ 20"
    "v4Num [192,168,0,0] = (192 * 256 + 168) * 2 ^ 16" "v4Num [198,18,0,0] = (198 * 128 + 9) * 2 ^ 17" "v4Num [224,0,0,0] = 14 * 2 ^ 28"
    "v4Num [240,0,0,0] = 15 * 2 ^ 28"
    by (simp_all add: v4Num_def)
  have i: "inNetwork (v4Num [a, b, c, d]) ([0,0,0,0], 8) \<longleftrightarrow> unat a = 0" "inNetwork (v4Num [a, b, c, d]) ([10,0,0,0], 8) \<longleftrightarrow> unat a = 10"
    "inNetwork (v4Num [a, b, c, d]) ([127,0,0,0], 8) \<longleftrightarrow> unat a = 127"
    "inNetwork (v4Num [a, b, c, d]) ([224,0,0,0], 4) \<longleftrightarrow> unat a div 16 = 14" "inNetwork (v4Num [a, b, c, d]) ([240,0,0,0], 4) \<longleftrightarrow> unat a div 16 = 15"
    using lb(1,3) by (simp_all add: inNetwork_def n v4Num_four del: unat_eq_zero)
  have j: "inNetwork (v4Num [a, b, c, d]) ([100,64,0,0], 10) \<longleftrightarrow> unat a * 4 + unat b div 64 = 401"
    "inNetwork (v4Num [a, b, c, d]) ([169,254,0,0], 16) \<longleftrightarrow> unat a * 256 + unat b = 169 * 256 + 254"
    "inNetwork (v4Num [a, b, c, d]) ([172,16,0,0], 12) \<longleftrightarrow> unat a * 16 + unat b div 16 = 172 * 16 + 1"
    "inNetwork (v4Num [a, b, c, d]) ([192,168,0,0], 16) \<longleftrightarrow> unat a * 256 + unat b = 192 * 256 + 168"
    "inNetwork (v4Num [a, b, c, d]) ([198,18,0,0], 15) \<longleftrightarrow> unat a * 128 + unat b div 2 = 198 * 128 + 9"
    using lb(2,4-6) by (simp_all add: inNetwork_def n v4Num_four)
  have k: "unat a * 4 + unat b div 64 = 401 \<longleftrightarrow> unat a = 100 \<and> unat b div 64 = 1"
    "unat a * 256 + unat b = 169 * 256 + 254 \<longleftrightarrow> unat a = 169 \<and> unat b = 254"
    "unat a * 16 + unat b div 16 = 172 * 16 + 1 \<longleftrightarrow> unat a = 172 \<and> unat b div 16 = 1"
    "unat a * 256 + unat b = 192 * 256 + 168 \<longleftrightarrow> unat a = 192 \<and> unat b = 168"
    "unat a * 128 + unat b div 2 = 198 * 128 + 9 \<longleftrightarrow> unat a = 198 \<and> unat b div 2 = 9"
    using radix [OF q(1), of 1 "unat a" 100] radix [OF byte_small [of b], of 254 "unat a" 169] radix [OF q(2), of 1 "unat a" 172]
      radix [OF byte_small [of b], of 168 "unat a" 192] radix [OF q(3), of 9 "unat a" 198] by simp_all
  show ?thesis unfolding reservedV4_def by (simp only: list_ex_iff list.set insert_iff ex_simps bex_simps empty_iff i j k) blast
qed

lemma blocked_four:
  "blockedOutboundIP [a, b, c, d] \<longleftrightarrow>
     unat a = 0 \<or> unat a = 10 \<or> unat a = 100 \<and> unat b div 64 = 1 \<or> unat a = 127 \<or> unat a = 169 \<and> unat b = 254 \<or>
     unat a = 172 \<and> unat b div 16 = 1 \<or> unat a = 192 \<and> unat b = 168 \<or> unat a = 198 \<and> unat b div 2 = 9 \<or>
     unat a div 16 = 14 \<or> unat a div 16 = 15"
proof -
  have four: "ipTo4 [a, b, c, d] = Some [a, b, c, d]" by (simp add: ipTo4_def)
  have e: "a = 0 \<longleftrightarrow> unat a = 0" "a = 10 \<longleftrightarrow> unat a = 10" "a = 100 \<longleftrightarrow> unat a = 100" "a = 127 \<longleftrightarrow> unat a = 127" "a = 169 \<longleftrightarrow> unat a = 169"
    "a = 172 \<longleftrightarrow> unat a = 172" "a = 192 \<longleftrightarrow> unat a = 192" "a = 198 \<longleftrightarrow> unat a = 198" "a = 224 \<longleftrightarrow> unat a = 224" "b = 254 \<longleftrightarrow> unat b = 254"
    "b = 168 \<longleftrightarrow> unat b = 168" "b = 18 \<longleftrightarrow> unat b = 18" "b = 19 \<longleftrightarrow> unat b = 19"
    by (simp_all add: word_unat_eq_iff)
  have h: "240 \<le> a \<longleftrightarrow> unat a div 16 = 15"
  proof -
    have "240 \<le> a \<longleftrightarrow> 240 \<le> unat a" by (simp add: word_le_nat_alt)
    also have "\<dots> \<longleftrightarrow> unat a div 16 = 15" using byte_small [of a] by presburger
    finally show ?thesis .
  qed
  have b2: "unat b = 18 \<or> unat b = 19 \<longleftrightarrow> unat b div 2 = 9" by presburger
  have m: "unat a = 224 \<Longrightarrow> unat a div 16 = 14" by simp
  have x: "isExtraReservedIP [a, b, c, d] \<longleftrightarrow> a = 0 \<or> a = 100 \<and> b AND 0xc0 = 64 \<or> a = 198 \<and> (b = 18 \<or> b = 19) \<or> 240 \<le> a"
    by (subst isExtraReservedIP.simps) (simp add: four)
  have i: "isLoopback [a, b, c, d] \<longleftrightarrow> a = 127"
    "isPrivate [a, b, c, d] \<longleftrightarrow> a = 10 \<or> a = 172 \<and> b AND 0xf0 = 16 \<or> a = 192 \<and> b = 168"
    "isLinkLocalUnicast [a, b, c, d] \<longleftrightarrow> a = 169 \<and> b = 254" "isMulticast [a, b, c, d] \<longleftrightarrow> a AND 0xf0 = 0xe0"
    "isLinkLocalMulticast [a, b, c, d] \<longleftrightarrow> a = 224 \<and> b = 0 \<and> c = 0" "isUnspecified [a, b, c, d] \<longleftrightarrow> a = 0 \<and> b = 0 \<and> c = 0 \<and> d = 0"
    by (simp_all add: isLoopback_def isPrivate_def isLinkLocalUnicast_def isMulticast_def isLinkLocalMulticast_def isUnspecified_def four
        numeral_eq_Suc)
  show ?thesis
    unfolding blockedOutboundIP.simps [of "[a, b, c, d]"] x i byte_masks h e b2 using m by blast
qed

lemma blocked_mapped: "length ip = 4 \<Longrightarrow> blockedOutboundIP (v4InV6Prefix @ ip) = blockedOutboundIP ip"
proof -
  assume l: "length ip = 4"
  then have m: "ipTo4 (v4InV6Prefix @ ip) = Some ip" "ipTo4 ip = Some ip" by (simp_all add: ipTo4_def v4InV6Prefix_def)
  have "isExtraReservedIP (v4InV6Prefix @ ip) = isExtraReservedIP ip"
    by (subst (1 2) isExtraReservedIP.simps) (simp only: m option.case)
  then show ?thesis
    unfolding blockedOutboundIP.simps [of "v4InV6Prefix @ ip"] blockedOutboundIP.simps [of ip]
      isLoopback_def isPrivate_def isLinkLocalUnicast_def isMulticast_def isLinkLocalMulticast_def isUnspecified_def m
    by (simp only: option.case)
qed

lemma v4_prefix_list: "v4InV6Prefix = [0, 0, 0, 0, 0, 0, 0, 0, 0, 0, 0xff, 0xff]"
proof -
  have "replicate 10 (0 :: 8 word) = [0, 0, 0, 0, 0, 0, 0, 0, 0, 0]" by (simp add: numeral_eq_Suc)
  then show ?thesis by (simp add: v4InV6Prefix_def)
qed

lemma zero_neq_numeral_byte: "(0x64 :: 8 word) \<noteq> 0"
  by simp

lemma blocked_nat64: "length ip = 4 \<Longrightarrow> blockedOutboundIP (nat64WellKnownPrefix @ ip) = blockedOutboundIP ip"
proof -
  let ?n = "nat64WellKnownPrefix @ ip"
  assume l: "length ip = 4"
  then have m: "ipTo4 ?n = None" "ipTo16 ?n = Some ?n" "length ?n = 16" "take 12 ?n = nat64WellKnownPrefix" "take 4 (drop 12 ?n) = ip"
    by (simp_all add: ipTo4_def ipTo16_def v4_prefix_list nat64WellKnownPrefix_def)
  have ln: "length nat64WellKnownPrefix = 12" by (simp add: nat64WellKnownPrefix_def)
  have z: "?n ! 0 = 0" "?n ! 1 = 0x64" by (simp_all add: nat64WellKnownPrefix_def)
  have r: "(replicate 15 0 @ [1]) ! 1 = (0 :: 8 word)" "replicate 16 0 ! 1 = (0 :: 8 word)" by (simp_all add: nth_append)
  have ne: "?n \<noteq> replicate 15 0 @ [1]" "?n \<noteq> replicate 16 0"
    using z(2) r by (metis zero_neq_numeral_byte)+
  have "isExtraReservedIP ?n = blockedOutboundIP ip"
    by (subst isExtraReservedIP.simps) (simp add: m z ln l)
  moreover have "\<not> isLoopback ?n" "\<not> isPrivate ?n" "\<not> isLinkLocalUnicast ?n" "\<not> isMulticast ?n" "\<not> isLinkLocalMulticast ?n" "\<not> isUnspecified ?n"
    unfolding isLoopback_def isPrivate_def isLinkLocalUnicast_def isMulticast_def isLinkLocalMulticast_def isUnspecified_def m option.case z
    using ne by simp_all
  ultimately show ?thesis by (subst blockedOutboundIP.simps) simp
qed

text \<open>C22: The byte tests of the outbound policy are membership in ten IPv4 networks, and an address written as an IPv4-mapped or a
  NAT64 address is judged as the IPv4 address in it.\<close>

theorem outbound_policy_table:
  assumes "length ip = 4"
  shows "(blockedOutboundIP ip \<longleftrightarrow> list_ex (inNetwork (v4Num ip)) reservedV4) \<and>
     blockedOutboundIP (v4InV6Prefix @ ip) = blockedOutboundIP ip \<and> blockedOutboundIP (nat64WellKnownPrefix @ ip) = blockedOutboundIP ip"
proof -
  obtain a b c d where "ip = [a, b, c, d]" using assms by (auto simp: numeral_eq_Suc length_Suc_conv)
  then show ?thesis using blocked_four inNetwork_four blocked_mapped [OF assms] blocked_nat64 [OF assms] by simp
qed

theorem outbound_policy_table_witness:
  "blockedOutboundIP (nat64WellKnownPrefix @ [169, 254, 169, 254]) \<and> \<not> blockedOutboundIP [8, 8, 8, 8]"
  using outbound_policy_table [of "[169, 254, 169, 254]"] by (simp add: blocked_four)

section \<open>What crosses an origin\<close>

lemma fold_https: "\<not> equal_fold ''https'' ''http''" "case_fold ''http'' = ''http''" "case_fold ''https'' = ''https''"
  by (simp_all add: equal_fold_def case_fold_ascii is_ascii_def byte_def lowc_def is_upper_def)

text \<open>C23: A strict client follows a redirect only to a URL whose every looked-up address the policy lets through, at most ten
  times; off the first origin, to which a step from https to http never belongs, it sends no body and no header but three harmless
  ones, and it never adds one.\<close>

theorem redirect_strips_credentials:
  assumes "strictCheckRedirect parseURL lookupIP req via = FollowWith req'"
  shows "length via < 10 \<and> or_url req' = or_url req \<and> set (or_header req') \<subseteq> set (or_header req) \<and>
     (\<exists>u ips. parseURL (or_raw req) = Some u \<and> lookupIP (ou_hostname u) = Some ips \<and> ips \<noteq> [] \<and> (\<forall>ip \<in> set ips. \<not> blockedOutboundIP ip)) \<and>
     (via \<noteq> [] \<and> (\<not> sameRedirectOrigin (or_url (hd via)) (or_url req) \<or>
        equal_fold (ou_scheme (or_url (hd via))) ''https'' \<and> equal_fold (ou_scheme (or_url req)) ''http'') \<longrightarrow>
      or_method req' \<in> {''GET'', ''HEAD''} \<and> fst ` set (or_header req') \<subseteq> {''Accept'', ''Accept-Language'', ''User-Agent''})"
proof -
  have safe: "length via < 10" "\<not> isPrivateURL parseURL lookupIP (or_raw req)" and strict: "strictRedirectPolicy req via = FollowWith req'"
    using assms by (auto simp: strictCheckRedirect_def safeCheckRedirect_def split: if_splits)
  have down: "\<not> sameRedirectOrigin (or_url f) (or_url req)"
    if "equal_fold (ou_scheme (or_url f)) ''https''" "equal_fold (ou_scheme (or_url req)) ''http''" for f
    using that fold_https by (auto simp: sameRedirectOrigin_def equal_fold_def)
  have pub: "\<exists>u ips. parseURL (or_raw req) = Some u \<and> lookupIP (ou_hostname u) = Some ips \<and> ips \<noteq> [] \<and> (\<forall>ip \<in> set ips. \<not> blockedOutboundIP ip)"
    using safe(2) by (auto simp: isPrivateURL_def Let_def list_ex_iff split: option.splits if_splits)
  have "or_url req' = or_url req \<and> set (or_header req') \<subseteq> set (or_header req)"
    using strict by (auto simp: strictRedirectPolicy_def split: if_splits)
  moreover have "or_method req' \<in> {''GET'', ''HEAD''} \<and> fst ` set (or_header req') \<subseteq> {''Accept'', ''Accept-Language'', ''User-Agent''}"
    if "via \<noteq> []" "\<not> sameRedirectOrigin (or_url (hd via)) (or_url req)"
    using strict that by (auto simp: strictRedirectPolicy_def strictRedirectHeaders_def split: if_splits)
  ultimately show ?thesis using safe(1) pub down by blast
qed

definition exHop :: "string \<Rightarrow> (string \<times> string) list \<Rightarrow> outRequest" where
  "exHop h hs = \<lparr>or_url = \<lparr>ou_scheme = ''https'', ou_hostname = h, ou_port = []\<rparr>, or_raw = h, or_method = ''GET'', or_header = hs\<rparr>"

theorem redirect_strips_credentials_witness:
  "\<exists>req'. strictCheckRedirect (\<lambda>r. Some \<lparr>ou_scheme = ''https'', ou_hostname = r, ou_port = []\<rparr>) (\<lambda>h. Some [[8, 8, 8, 8]])
      (exHop ''b'' [(''X-Api-Key'', ''k''), (''Accept'', ''*'')]) [exHop ''a'' []] = FollowWith req' \<and>
    fst ` set (or_header req') \<subseteq> {''Accept'', ''Accept-Language'', ''User-Agent''}"
proof -
  let ?p = "\<lambda>r. Some \<lparr>ou_scheme = ''https'', ou_hostname = r, ou_port = []\<rparr>" and ?l = "\<lambda>h :: string. Some [[8, 8, 8, 8]]"
  have ip: "\<not> blockedOutboundIP [8, 8, 8, 8]" by (simp add: blocked_four)
  have lo: "to_lower ''https'' = ''https''" by (simp add: to_lower_ascii is_ascii_def byte_def lowc_def is_upper_def)
  have nb: "\<not> isPrivateURL ?p ?l ''b''" using ip lo by (simp add: isPrivateURL_def suffix_def)
  have ns: "\<not> sameRedirectOrigin (or_url (exHop ''a'' [])) (or_url (exHop ''b'' hs))" for hs
    by (simp add: sameRedirectOrigin_def exHop_def equal_fold_def case_fold_ascii is_ascii_def byte_def lowc_def is_upper_def)
  obtain req' where r: "strictCheckRedirect ?p ?l (exHop ''b'' [(''X-Api-Key'', ''k''), (''Accept'', ''*'')]) [exHop ''a'' []] = FollowWith req'"
    using nb ns by (simp add: strictCheckRedirect_def safeCheckRedirect_def strictRedirectPolicy_def exHop_def)
  from redirect_strips_credentials [OF r] ns r show ?thesis by simp
qed

end
